(* ===== verification/Ngx_Prelude.thy ===== *)
theory Ngx_Prelude
  imports Main "HOL-Library.Word"
begin

text \<open>
  The prelude of the development: the machine types of nginx 1.0.15 on a 64-bit
  platform, the return codes of \<^verbatim>\<open>src/core/ngx_core.h\<close>, names for the
  characters the sources compare with, the case-folding macros of
  \<^verbatim>\<open>src/core/ngx_string.h\<close>, and the generic lemmas on words and lists the
  components share.

  Conventions used by every theory: a \<^verbatim>\<open>u_char\<close> is an 8-bit word; an
  \<^verbatim>\<open>ngx_str_t\<close> (or a pointer and a length) is the list of exactly its
  \<^verbatim>\<open>len\<close> bytes; \<^verbatim>\<open>ngx_int_t\<close>, \<^verbatim>\<open>ssize_t\<close>,
  \<^verbatim>\<open>off_t\<close> and \<^verbatim>\<open>time_t\<close> are 64-bit words read with \<open>sint\<close>, and their
  arithmetic wraps as the compiled code does; a pointer into a buffer is an offset
  from the buffer's start. Where the C code may read outside its object the model
  returns \<open>None\<close>, so that safety is a theorem and not a convention.
\<close>

unbundle bit_operations_syntax

section \<open>Machine types and constants\<close>

type_synonym u_char = "8 word"
type_synonym uint16 = "16 word"
type_synonym uint32 = "32 word"
type_synonym ngx_uint = "64 word"
type_synonym ngx_int = "64 word"
type_synonym ngx_str = "u_char list"

definition NGX_OK :: ngx_int where "NGX_OK = 0"
definition NGX_ERROR :: ngx_int where "NGX_ERROR = - 1"
definition NGX_AGAIN :: ngx_int where "NGX_AGAIN = - 2"
definition NGX_BUSY :: ngx_int where "NGX_BUSY = - 3"
definition NGX_DONE :: ngx_int where "NGX_DONE = - 4"
definition NGX_DECLINED :: ngx_int where "NGX_DECLINED = - 5"
definition NGX_ABORT :: ngx_int where "NGX_ABORT = - 6"

named_theorems ngx_rc "the numeric values of the return codes"

declare NGX_OK_def [ngx_rc] NGX_ERROR_def [ngx_rc] NGX_AGAIN_def [ngx_rc]
  NGX_BUSY_def [ngx_rc] NGX_DONE_def [ngx_rc] NGX_DECLINED_def [ngx_rc]
  NGX_ABORT_def [ngx_rc]

text \<open>The characters the sources name, by their codes.\<close>

abbreviation (input) CR :: u_char where "CR \<equiv> 13"
abbreviation (input) LF :: u_char where "LF \<equiv> 10"
abbreviation (input) ch_sp :: u_char where "ch_sp \<equiv> 0x20"
abbreviation (input) ch_quot :: u_char where "ch_quot \<equiv> 0x22"
abbreviation (input) ch_hash :: u_char where "ch_hash \<equiv> 0x23"
abbreviation (input) ch_percent :: u_char where "ch_percent \<equiv> 0x25"
abbreviation (input) ch_amp :: u_char where "ch_amp \<equiv> 0x26"
abbreviation (input) ch_star :: u_char where "ch_star \<equiv> 0x2a"
abbreviation (input) ch_plus :: u_char where "ch_plus \<equiv> 0x2b"
abbreviation (input) ch_comma :: u_char where "ch_comma \<equiv> 0x2c"
abbreviation (input) ch_minus :: u_char where "ch_minus \<equiv> 0x2d"
abbreviation (input) ch_dot :: u_char where "ch_dot \<equiv> 0x2e"
abbreviation (input) ch_slash :: u_char where "ch_slash \<equiv> 0x2f"
abbreviation (input) ch_0 :: u_char where "ch_0 \<equiv> 0x30"
abbreviation (input) ch_1 :: u_char where "ch_1 \<equiv> 0x31"
abbreviation (input) ch_9 :: u_char where "ch_9 \<equiv> 0x39"
abbreviation (input) ch_colon :: u_char where "ch_colon \<equiv> 0x3a"
abbreviation (input) ch_semi :: u_char where "ch_semi \<equiv> 0x3b"
abbreviation (input) ch_lt :: u_char where "ch_lt \<equiv> 0x3c"
abbreviation (input) ch_eq :: u_char where "ch_eq \<equiv> 0x3d"
abbreviation (input) ch_gt :: u_char where "ch_gt \<equiv> 0x3e"
abbreviation (input) ch_question :: u_char where "ch_question \<equiv> 0x3f"
abbreviation (input) ch_under :: u_char where "ch_under \<equiv> 0x5f"
abbreviation (input) ch_lbracket :: u_char where "ch_lbracket \<equiv> 0x5b"
abbreviation (input) ch_rbracket :: u_char where "ch_rbracket \<equiv> 0x5d"
abbreviation (input) ch_A :: u_char where "ch_A \<equiv> 0x41"
abbreviation (input) ch_C :: u_char where "ch_C \<equiv> 0x43"
abbreviation (input) ch_D :: u_char where "ch_D \<equiv> 0x44"
abbreviation (input) ch_E :: u_char where "ch_E \<equiv> 0x45"
abbreviation (input) ch_F :: u_char where "ch_F \<equiv> 0x46"
abbreviation (input) ch_G :: u_char where "ch_G \<equiv> 0x47"
abbreviation (input) ch_H :: u_char where "ch_H \<equiv> 0x48"
abbreviation (input) ch_I :: u_char where "ch_I \<equiv> 0x49"
abbreviation (input) ch_J :: u_char where "ch_J \<equiv> 0x4a"
abbreviation (input) ch_K :: u_char where "ch_K \<equiv> 0x4b"
abbreviation (input) ch_L :: u_char where "ch_L \<equiv> 0x4c"
abbreviation (input) ch_M :: u_char where "ch_M \<equiv> 0x4d"
abbreviation (input) ch_N :: u_char where "ch_N \<equiv> 0x4e"
abbreviation (input) ch_O :: u_char where "ch_O \<equiv> 0x4f"
abbreviation (input) ch_P :: u_char where "ch_P \<equiv> 0x50"
abbreviation (input) ch_R :: u_char where "ch_R \<equiv> 0x52"
abbreviation (input) ch_S :: u_char where "ch_S \<equiv> 0x53"
abbreviation (input) ch_T :: u_char where "ch_T \<equiv> 0x54"
abbreviation (input) ch_U :: u_char where "ch_U \<equiv> 0x55"
abbreviation (input) ch_V :: u_char where "ch_V \<equiv> 0x56"
abbreviation (input) ch_X :: u_char where "ch_X \<equiv> 0x58"
abbreviation (input) ch_Y :: u_char where "ch_Y \<equiv> 0x59"
abbreviation (input) ch_Z :: u_char where "ch_Z \<equiv> 0x5a"
abbreviation (input) ch_a :: u_char where "ch_a \<equiv> 0x61"
abbreviation (input) ch_c :: u_char where "ch_c \<equiv> 0x63"
abbreviation (input) ch_d :: u_char where "ch_d \<equiv> 0x64"
abbreviation (input) ch_f :: u_char where "ch_f \<equiv> 0x66"
abbreviation (input) ch_g :: u_char where "ch_g \<equiv> 0x67"
abbreviation (input) ch_h :: u_char where "ch_h \<equiv> 0x68"
abbreviation (input) ch_i :: u_char where "ch_i \<equiv> 0x69"
abbreviation (input) ch_k :: u_char where "ch_k \<equiv> 0x6b"
abbreviation (input) ch_l :: u_char where "ch_l \<equiv> 0x6c"
abbreviation (input) ch_m :: u_char where "ch_m \<equiv> 0x6d"
abbreviation (input) ch_n :: u_char where "ch_n \<equiv> 0x6e"
abbreviation (input) ch_o :: u_char where "ch_o \<equiv> 0x6f"
abbreviation (input) ch_p :: u_char where "ch_p \<equiv> 0x70"
abbreviation (input) ch_q :: u_char where "ch_q \<equiv> 0x71"
abbreviation (input) ch_r :: u_char where "ch_r \<equiv> 0x72"
abbreviation (input) ch_s :: u_char where "ch_s \<equiv> 0x73"
abbreviation (input) ch_t :: u_char where "ch_t \<equiv> 0x74"
abbreviation (input) ch_u :: u_char where "ch_u \<equiv> 0x75"
abbreviation (input) ch_v :: u_char where "ch_v \<equiv> 0x76"
abbreviation (input) ch_w :: u_char where "ch_w \<equiv> 0x77"
abbreviation (input) ch_x :: u_char where "ch_x \<equiv> 0x78"
abbreviation (input) ch_y :: u_char where "ch_y \<equiv> 0x79"
abbreviation (input) ch_z :: u_char where "ch_z \<equiv> 0x7a"

text \<open>A string literal as bytes.\<close>

definition bytes :: "string \<Rightarrow> ngx_str" where
  "bytes s = map of_char s"

text \<open>The macros \<^verbatim>\<open>ngx_tolower\<close> and \<^verbatim>\<open>ngx_toupper\<close>.\<close>

definition ngx_tolower :: "u_char \<Rightarrow> u_char" where
  "ngx_tolower c = (if c \<ge> ch_A \<and> c \<le> ch_Z then c OR 0x20 else c)"

definition ngx_toupper :: "u_char \<Rightarrow> u_char" where
  "ngx_toupper c = (if c \<ge> ch_a \<and> c \<le> ch_z then c AND NOT 0x20 else c)"

section \<open>Bytes by exhaustion\<close>

text \<open>
  A fact about a single byte is checked on the 256 values: the quantifier over a byte is
  a list traversal over its codes, which \<open>code_simp\<close> evaluates in the kernel.
\<close>

lemma byte_all: "(\<forall>c :: u_char. P c) = list_all (\<lambda>i. P (word_of_int i)) [0..255]"
proof
  assume all: "list_all (\<lambda>i. P (word_of_int i)) [0..255]"
  show "\<forall>c. P c"
  proof
    fix c :: u_char
    have "uint c \<in> set [0..255]" using unsigned_less [of c, where ?'a = int] by simp
    with all have "P (word_of_int (uint c))" unfolding list_all_iff by blast
    then show "P c" by simp
  qed
qed (simp add: list_all_iff)

lemma unat_byte_less [simp]: "unat (c :: u_char) < 256"
  using unsigned_less [of c, where ?'a = nat] by simp

lemma unat_ucast_byte [simp]:
  "unat (ucast (c :: u_char) :: 64 word) = unat c"
  "unat (ucast (c :: u_char) :: 32 word) = unat c"
  "unat (ucast (c :: u_char) :: 16 word) = unat c"
  by (simp_all add: unsigned_ucast_eq take_bit_nat_eq_self_iff less_trans [OF unat_byte_less])

section \<open>Signed reading of a 64-bit word\<close>

lemma unat64_less [simp]: "unat (w :: 64 word) < 2 ^ 64"
  using unsigned_less [of w, where ?'a = nat] by simp

lemma sint64_conv:
  "sint (w :: 64 word) = (if unat w < 2 ^ 63 then int (unat w) else int (unat w) - 2 ^ 64)"
proof -
  have u: "uint w < 2 ^ 64" "0 \<le> uint w"
    using unsigned_less [of w, where ?'a = int] by simp_all
  have "sint w = (uint w + 2 ^ 63) mod 2 ^ 64 - 2 ^ 63"
    by (simp add: sint_uint signed_take_bit_eq_take_bit_shift take_bit_eq_mod)
  also have "\<dots> = (if uint w < 2 ^ 63 then uint w else uint w - 2 ^ 64)"
  proof (cases "uint w < 2 ^ 63")
    case True
    with u have "(uint w + 2 ^ 63) mod 2 ^ 64 = uint w + 2 ^ 63"
      by (intro mod_pos_pos_trivial) auto
    with True show ?thesis by simp
  next
    case False
    have "(uint w + 2 ^ 63) mod 2 ^ 64 = ((uint w - 2 ^ 63) + 2 ^ 64) mod 2 ^ 64"
      by (simp add: add.commute)
    also have "\<dots> = uint w - 2 ^ 63"
      unfolding mod_add_self2 using u False by (intro mod_pos_pos_trivial) auto
    finally show ?thesis using False by simp
  qed
  moreover have "(unat w < 2 ^ 63) = (int (unat w) < int (2 ^ 63))"
    by (simp only: of_nat_less_iff)
  ultimately show ?thesis by simp
qed

lemma sless_zero_iff: "(w :: 64 word) <s 0 \<longleftrightarrow> 2 ^ 63 \<le> unat w"
proof -
  have "int (unat w) < int (2 ^ 64)" using unat64_less [of w] by (simp only: of_nat_less_iff)
  then show ?thesis by (simp add: word_sless_alt sint64_conv)
qed

section \<open>Lists\<close>

lemma take_Suc_nth: "i < length xs \<Longrightarrow> take (Suc i) xs = take i xs @ [xs ! i]"
  by (simp add: take_Suc_conv_app_nth)

lemma drop_eq_Cons_nth: "i < length xs \<Longrightarrow> drop i xs = xs ! i # drop (Suc i) xs"
  by (simp add: Cons_nth_drop_Suc)

text \<open>The byte at an offset, or \<open>None\<close> outside the object.\<close>

definition rd :: "'a list \<Rightarrow> nat \<Rightarrow> 'a option" where
  "rd xs i = (if i < length xs then Some (xs ! i) else None)"

lemma rd_Some [simp]: "i < length xs \<Longrightarrow> rd xs i = Some (xs ! i)"
  by (simp add: rd_def)

lemma rd_None [simp]: "length xs \<le> i \<Longrightarrow> rd xs i = None"
  by (simp add: rd_def)

end
