(* ===== verification/Ngx_Number.thy ===== *)
theory Ngx_Number
  imports Ngx_Prelude
begin

text \<open>
  The number readers of \<^verbatim>\<open>src/core/ngx_string.c\<close> (\<^verbatim>\<open>ngx_atoi\<close>,
  \<^verbatim>\<open>ngx_atosz\<close>, \<^verbatim>\<open>ngx_atoof\<close>, \<^verbatim>\<open>ngx_atotm\<close>,
  \<^verbatim>\<open>ngx_hextoi\<close>, \<^verbatim>\<open>ngx_atofp\<close>) and the size, offset and time
  readers of \<^verbatim>\<open>src/core/ngx_parse.c\<close>. The five integer readers share one
  contract, the locale \<open>digit_reader\<close>, which is interpreted on each of them.
\<close>

section \<open>The integer readers of ngx_string.c\<close>

text \<open>
  Each reader is its loop (\<open>None\<close> is the \<^verbatim>\<open>return NGX_ERROR\<close> inside it) and
  the tests before and after it. The accumulator wraps at 64 bits.
\<close>

fun ngx_atoi_loop :: "ngx_int \<Rightarrow> ngx_str \<Rightarrow> ngx_int option" where
  "ngx_atoi_loop value [] = Some value"
| "ngx_atoi_loop value (c # line) =
     (if c < ch_0 \<or> c > ch_9 then None
      else ngx_atoi_loop (value * 10 + (ucast c - 0x30)) line)"

definition ngx_atoi :: "ngx_str \<Rightarrow> ngx_int" where
  "ngx_atoi line =
     (if line = [] then NGX_ERROR
      else case ngx_atoi_loop 0 line of
             None \<Rightarrow> NGX_ERROR
           | Some value \<Rightarrow> if value <s 0 then NGX_ERROR else value)"

fun ngx_atosz_loop :: "64 word \<Rightarrow> ngx_str \<Rightarrow> 64 word option" where
  "ngx_atosz_loop value [] = Some value"
| "ngx_atosz_loop value (c # line) =
     (if c < ch_0 \<or> c > ch_9 then None
      else ngx_atosz_loop (value * 10 + (ucast c - 0x30)) line)"

definition ngx_atosz :: "ngx_str \<Rightarrow> 64 word" where
  "ngx_atosz line =
     (if line = [] then NGX_ERROR
      else case ngx_atosz_loop 0 line of
             None \<Rightarrow> NGX_ERROR
           | Some value \<Rightarrow> if value <s 0 then NGX_ERROR else value)"

fun ngx_atoof_loop :: "64 word \<Rightarrow> ngx_str \<Rightarrow> 64 word option" where
  "ngx_atoof_loop value [] = Some value"
| "ngx_atoof_loop value (c # line) =
     (if c < ch_0 \<or> c > ch_9 then None
      else ngx_atoof_loop (value * 10 + (ucast c - 0x30)) line)"

definition ngx_atoof :: "ngx_str \<Rightarrow> 64 word" where
  "ngx_atoof line =
     (if line = [] then NGX_ERROR
      else case ngx_atoof_loop 0 line of
             None \<Rightarrow> NGX_ERROR
           | Some value \<Rightarrow> if value <s 0 then NGX_ERROR else value)"

fun ngx_atotm_loop :: "64 word \<Rightarrow> ngx_str \<Rightarrow> 64 word option" where
  "ngx_atotm_loop value [] = Some value"
| "ngx_atotm_loop value (c # line) =
     (if c < ch_0 \<or> c > ch_9 then None
      else ngx_atotm_loop (value * 10 + (ucast c - 0x30)) line)"

definition ngx_atotm :: "ngx_str \<Rightarrow> 64 word" where
  "ngx_atotm line =
     (if line = [] then NGX_ERROR
      else case ngx_atotm_loop 0 line of
             None \<Rightarrow> NGX_ERROR
           | Some value \<Rightarrow> if value <s 0 then NGX_ERROR else value)"

fun ngx_hextoi_loop :: "ngx_int \<Rightarrow> ngx_str \<Rightarrow> ngx_int option" where
  "ngx_hextoi_loop value [] = Some value"
| "ngx_hextoi_loop value (ch # line) =
     (if ch \<ge> ch_0 \<and> ch \<le> ch_9
      then ngx_hextoi_loop (value * 16 + (ucast ch - 0x30)) line
      else let c = ch OR 0x20 in
        if c \<ge> ch_a \<and> c \<le> ch_f
        then ngx_hextoi_loop (value * 16 + (ucast c - 0x61 + 10)) line
        else None)"

definition ngx_hextoi :: "ngx_str \<Rightarrow> ngx_int" where
  "ngx_hextoi line =
     (if line = [] then NGX_ERROR
      else case ngx_hextoi_loop 0 line of
             None \<Rightarrow> NGX_ERROR
           | Some value \<Rightarrow> if value <s 0 then NGX_ERROR else value)"

text \<open>
  \<^verbatim>\<open>ngx_atofp\<close>: the loop threads \<^verbatim>\<open>point\<close> (a \<^verbatim>\<open>size_t\<close>, never
  decremented below zero because the loop returns first) and \<^verbatim>\<open>dot\<close>; the second
  loop scales by the fraction digits that were not written.
\<close>

fun ngx_atofp_loop :: "ngx_int \<Rightarrow> bool \<Rightarrow> nat \<Rightarrow> ngx_str \<Rightarrow> (ngx_int \<times> nat) option" where
  "ngx_atofp_loop value dot point [] = Some (value, point)"
| "ngx_atofp_loop value dot point (c # line) =
     (if point = 0 then None
      else if c = ch_dot then (if dot then None else ngx_atofp_loop value True point line)
      else if c < ch_0 \<or> c > ch_9 then None
      else ngx_atofp_loop (value * 10 + (ucast c - 0x30)) dot
             (point - (if dot then 1 else 0)) line)"

fun ngx_atofp_scale :: "ngx_int \<Rightarrow> nat \<Rightarrow> ngx_int" where
  "ngx_atofp_scale value 0 = value"
| "ngx_atofp_scale value (Suc point) = ngx_atofp_scale (value * 10) point"

definition ngx_atofp :: "ngx_str \<Rightarrow> nat \<Rightarrow> ngx_int" where
  "ngx_atofp line point =
     (if line = [] then NGX_ERROR
      else case ngx_atofp_loop 0 False point line of
             None \<Rightarrow> NGX_ERROR
           | Some (value, point') \<Rightarrow>
               let value' = ngx_atofp_scale value point' in
               if value' <s 0 then NGX_ERROR else value')"

section \<open>The contract of the integer readers\<close>

text \<open>
  The mathematical reading: the digits of \<open>line\<close> in base \<open>b\<close>, most significant first,
  after a prefix worth \<open>v\<close>. No width, no wrap.
\<close>

fun digits_value :: "nat \<Rightarrow> (u_char \<Rightarrow> nat option) \<Rightarrow> nat \<Rightarrow> ngx_str \<Rightarrow> nat option" where
  "digits_value b dg v [] = Some v"
| "digits_value b dg v (c # cs) =
     (case dg c of None \<Rightarrow> None | Some d \<Rightarrow> digits_value b dg (v * b + d) cs)"

definition numeral_value :: "nat \<Rightarrow> (u_char \<Rightarrow> nat option) \<Rightarrow> ngx_str \<Rightarrow> nat option" where
  "numeral_value b dg line = (if line = [] then None else digits_value b dg 0 line)"

definition dec_digit :: "u_char \<Rightarrow> nat option" where
  "dec_digit c = (if ch_0 \<le> c \<and> c \<le> ch_9 then Some (unat c - 48) else None)"

definition hex_digit :: "u_char \<Rightarrow> nat option" where
  "hex_digit c =
     (if ch_0 \<le> c \<and> c \<le> ch_9 then Some (unat c - 48)
      else if ch_a \<le> c \<and> c \<le> ch_f then Some (unat c - 87)
      else if ch_A \<le> c \<and> c \<le> ch_F then Some (unat c - 55)
      else None)"

text \<open>What a reader returns for a numeral worth \<open>n\<close>: the check after the loop sees the
  value modulo \<open>2 ^ 64\<close>.\<close>

definition reader_result :: "nat option \<Rightarrow> 64 word" where
  "reader_result r =
     (case r of None \<Rightarrow> NGX_ERROR
      | Some n \<Rightarrow> if n mod 2 ^ 64 < 2 ^ 63 then of_nat n else NGX_ERROR)"

lemma sint_reader_result: "n < 2 ^ 63 \<Longrightarrow> sint (reader_result (Some n)) = int n"
  by (simp add: reader_result_def sint64_conv unat_of_nat)

lemma reader_result_ge: "- 1 \<le> sint (reader_result r)"
proof -
  have "- 1 \<le> sint (of_nat n :: 64 word)" if "n mod 2 ^ 64 < 2 ^ 63" for n
    using that by (simp add: sint64_conv unat_of_nat)
  then show ?thesis
    by (auto simp: reader_result_def NGX_ERROR_def split: option.split)
qed

locale digit_reader =
  fixes base :: nat
    and digit :: "u_char \<Rightarrow> nat option"
    and loop :: "64 word \<Rightarrow> ngx_str \<Rightarrow> 64 word option"
    and reader :: "ngx_str \<Rightarrow> 64 word"
  assumes loop_Nil: "loop v [] = Some v"
    and loop_Cons: "loop v (c # cs) =
          (case digit c of None \<Rightarrow> None | Some d \<Rightarrow> loop (v * of_nat base + of_nat d) cs)"
    and reader_loop: "reader line =
          (if line = [] then NGX_ERROR
           else case loop 0 line of None \<Rightarrow> NGX_ERROR
                | Some v \<Rightarrow> if v <s 0 then NGX_ERROR else v)"
begin

lemma loop_value: "loop (of_nat v) cs = map_option of_nat (digits_value base digit v cs)"
proof (induction cs arbitrary: v)
  case Nil
  then show ?case by (simp add: loop_Nil)
next
  case (Cons c cs)
  show ?case
  proof (cases "digit c")
    case None
    then show ?thesis by (simp add: loop_Cons)
  next
    case (Some d)
    have "loop (of_nat (v * base + d)) cs
        = map_option of_nat (digits_value base digit (v * base + d) cs)"
      by (rule Cons.IH)
    with Some show ?thesis by (simp add: loop_Cons)
  qed
qed

lemma reader_correct: "reader line = reader_result (numeral_value base digit line)"
  using loop_value [of 0 line]
  by (auto simp: reader_loop numeral_value_def reader_result_def sless_zero_iff unat_of_nat
      split: option.split)

lemma reader_exact:
  "numeral_value base digit line = Some n \<Longrightarrow> n < 2 ^ 63 \<Longrightarrow> sint (reader line) = int n"
  by (simp add: reader_correct sint_reader_result)

lemma reader_rejects: "numeral_value base digit line = None \<Longrightarrow> reader line = NGX_ERROR"
  by (simp add: reader_correct reader_result_def)

lemma reader_ge: "- 1 \<le> sint (reader line)"
  by (simp add: reader_correct reader_result_ge)

end

lemma dec_digit_None: "dec_digit c = None \<longleftrightarrow> c < ch_0 \<or> c > ch_9"
  by (auto simp: dec_digit_def)

lemma dec_digit_Some:
  "dec_digit c = Some d \<Longrightarrow> (ucast c - 0x30 :: 64 word) = of_nat d \<and> ch_0 \<le> c \<and> c \<le> ch_9"
  by (auto simp: dec_digit_def word_le_nat_alt of_nat_diff split: if_splits)

lemmas dec_digit_split = dec_digit_None dec_digit_Some

interpretation atoi: digit_reader 10 dec_digit ngx_atoi_loop ngx_atoi
  by unfold_locales (auto simp: dec_digit_None ngx_atoi_def dest!: dec_digit_Some split: option.split)

interpretation atosz: digit_reader 10 dec_digit ngx_atosz_loop ngx_atosz
  by unfold_locales (auto simp: dec_digit_None ngx_atosz_def dest!: dec_digit_Some split: option.split)

interpretation atoof: digit_reader 10 dec_digit ngx_atoof_loop ngx_atoof
  by unfold_locales (auto simp: dec_digit_None ngx_atoof_def dest!: dec_digit_Some split: option.split)

interpretation atotm: digit_reader 10 dec_digit ngx_atotm_loop ngx_atotm
  by unfold_locales (auto simp: dec_digit_None ngx_atotm_def dest!: dec_digit_Some split: option.split)

lemma hex_digit_or_0x20:
  "\<forall>c :: u_char. \<not> (ch_0 \<le> c \<and> c \<le> ch_9) \<longrightarrow>
     (if ch_a \<le> c OR 0x20 \<and> c OR 0x20 \<le> ch_f
      then hex_digit c = Some (unat ((ucast (c OR 0x20) :: 64 word) - 0x61 + 10))
      else hex_digit c = None)"
  unfolding byte_all by code_simp

lemma hextoi_loop_Cons:
  "ngx_hextoi_loop v (c # cs) =
     (case hex_digit c of None \<Rightarrow> None | Some d \<Rightarrow> ngx_hextoi_loop (v * of_nat 16 + of_nat d) cs)"
proof (cases "ch_0 \<le> c \<and> c \<le> ch_9")
  case True
  then have "hex_digit c = dec_digit c" by (simp add: hex_digit_def dec_digit_def)
  with True show ?thesis
    by (auto simp: dec_digit_None not_le dest!: dec_digit_Some split: option.split)
next
  case False
  with hex_digit_or_0x20 [rule_format, of c] show ?thesis
    by (auto simp: Let_def split: if_splits)
qed

interpretation hextoi: digit_reader 16 hex_digit ngx_hextoi_loop ngx_hextoi
  by unfold_locales (simp_all only: hextoi_loop_Cons ngx_hextoi_loop.simps ngx_hextoi_def)

section \<open>Digit strings\<close>

lemma digits_value_append:
  "digits_value b dg v (xs @ ys) = Option.bind (digits_value b dg v xs) (\<lambda>w. digits_value b dg w ys)"
  by (induction xs arbitrary: v) (auto split: option.split)

lemma digits_value_shift:
  "digits_value b dg v xs = map_option (\<lambda>n. v * b ^ length xs + n) (digits_value b dg 0 xs)"
proof (induction xs arbitrary: v)
  case Nil
  then show ?case by simp
next
  case (Cons x xs)
  show ?case
  proof (cases "dg x")
    case None
    then show ?thesis by simp
  next
    case (Some d)
    have "digits_value b dg (v * b + d) xs
        = map_option (\<lambda>n. (v * b + d) * b ^ length xs + n) (digits_value b dg 0 xs)"
      by (rule Cons.IH)
    moreover have "digits_value b dg d xs
        = map_option (\<lambda>n. d * b ^ length xs + n) (digits_value b dg 0 xs)"
      by (rule Cons.IH)
    ultimately show ?thesis
      using Some by (cases "digits_value b dg 0 xs") (auto simp: algebra_simps)
  qed
qed

section \<open>Fixed-point numbers\<close>

lemma atofp_loop_digits:
  assumes "digits_value 10 dec_digit v ds = Some w"
    and "dot \<Longrightarrow> length ds \<le> point" and "0 < point"
  shows "ngx_atofp_loop (of_nat v) dot point (ds @ rest)
    = ngx_atofp_loop (of_nat w) dot (point - (if dot then length ds else 0)) rest"
  using assms
proof (induction ds arbitrary: v point)
  case Nil
  then show ?case by simp
next
  case (Cons c ds)
  then obtain d where d: "dec_digit c = Some d"
    and w: "digits_value 10 dec_digit (v * 10 + d) ds = Some w"
    by (auto split: option.splits)
  have c: "(ucast c - 0x30 :: 64 word) = of_nat d" "ch_0 \<le> c" "c \<le> ch_9"
    using dec_digit_Some [OF d] by auto
  then have "c \<noteq> ch_dot" by (auto simp: word_le_nat_alt)
  with c have step: "ngx_atofp_loop (of_nat v) dot point ((c # ds) @ rest)
      = ngx_atofp_loop (of_nat (v * 10 + d)) dot (point - (if dot then 1 else 0)) (ds @ rest)"
    using Cons.prems(3) by (auto simp: not_less)
  show ?case
  proof (cases "ds = []")
    case True
    with w have "w = v * 10 + d" by simp
    with step True show ?thesis by simp
  next
    case False
    then have "Suc 0 \<le> length ds" by (cases ds) auto
    with Cons.prems have "dot \<Longrightarrow> length ds \<le> point - (if dot then 1 else 0)"
      and "0 < point - (if dot then 1 else 0)"
      by auto
    from Cons.IH [OF w this] step show ?thesis by simp
  qed
qed

lemma atofp_scale_eq: "ngx_atofp_scale (of_nat v) k = of_nat (v * 10 ^ k)"
proof (induction k arbitrary: v)
  case (Suc k)
  have "ngx_atofp_scale (of_nat (v * 10)) k = of_nat (v * 10 * 10 ^ k)" by (rule Suc.IH)
  then show ?case by (simp add: mult.assoc)
qed simp

section \<open>Properties\<close>

text \<open>
  C36. The five integer readers of \<^verbatim>\<open>ngx_string.c\<close> are exact on every input: an
  empty or malformed string gives \<^verbatim>\<open>NGX_ERROR\<close>; a numeral worth \<open>n\<close> gives
  \<open>n\<close> when \<open>n mod 2 ^ 64 < 2 ^ 63\<close> and \<^verbatim>\<open>NGX_ERROR\<close> otherwise. (For a numeral
  of at least \<open>2 ^ 64\<close> the sign test after the loop no longer detects the overflow.)
\<close>

theorem number_readers_correct:
  "ngx_atoi line = reader_result (numeral_value 10 dec_digit line)
   \<and> ngx_atosz line = reader_result (numeral_value 10 dec_digit line)
   \<and> ngx_atoof line = reader_result (numeral_value 10 dec_digit line)
   \<and> ngx_atotm line = reader_result (numeral_value 10 dec_digit line)
   \<and> ngx_hextoi line = reader_result (numeral_value 16 hex_digit line)"
  by (intro conjI; rule atoi.reader_correct atosz.reader_correct atoof.reader_correct
      atotm.reader_correct hextoi.reader_correct)

text \<open>
  \<^verbatim>\<open>ngx_atofp\<close> reads a fixed-point number: with \<open>point\<close> fraction digits allowed and
  at most that many written, the result is the number scaled by \<open>10 ^ point\<close>, as long as
  that fits an \<^verbatim>\<open>ngx_int_t\<close>; one fraction digit too many is an error.
\<close>

theorem atofp_correct:
  assumes ds: "digits_value 10 dec_digit 0 ds = Some n"
    and fs: "digits_value 10 dec_digit n fs = Some w"
    and len: "length fs \<le> point" and pos: "0 < point"
    and fits: "w * 10 ^ (point - length fs) < 2 ^ 63"
  shows "sint (ngx_atofp (ds @ ch_dot # fs) point) = int (w * 10 ^ (point - length fs))
       \<and> (length fs = point \<longrightarrow> ngx_atofp (ds @ ch_dot # fs @ [c]) point = NGX_ERROR)"
proof -
  have "ngx_atofp_loop 0 False point (ds @ ch_dot # fs @ rest)
      = ngx_atofp_loop (of_nat n) True point (fs @ rest)" for rest
    using atofp_loop_digits [OF ds, of False point "ch_dot # fs @ rest"] pos by simp
  also have "\<dots> rest = ngx_atofp_loop (of_nat w) True (point - length fs) rest" for rest
    using atofp_loop_digits [OF fs, of True point rest] len pos by simp
  finally have run: "ngx_atofp_loop 0 False point (ds @ ch_dot # fs @ rest)
      = ngx_atofp_loop (of_nat w) True (point - length fs) rest" for rest .
  have "ngx_atofp (ds @ ch_dot # fs) point = of_nat (w * 10 ^ (point - length fs))"
    using run [of "[]"] fits
    by (simp add: ngx_atofp_def atofp_scale_eq sless_zero_iff unat_of_nat del: of_nat_mult)
  moreover have "ngx_atofp (ds @ ch_dot # fs @ [c]) point = NGX_ERROR" if "length fs = point"
    using run [of "[c]"] that by (simp add: ngx_atofp_def)
  ultimately show ?thesis using fits
    by (simp add: sint64_conv unat_of_nat del: of_nat_mult)
qed

theorem atofp_correct_witness:
  "sint (ngx_atofp (bytes ''10.5'') 2) = 1050 \<and> ngx_atofp (bytes ''10.55'') 2 = 1055
     \<and> ngx_atofp (bytes ''10.555'') 2 = NGX_ERROR"
proof -
  have b: "bytes ''10.5'' = bytes ''10'' @ ch_dot # bytes ''5''"
    "bytes ''10.55'' = bytes ''10'' @ ch_dot # bytes ''55''"
    "bytes ''10.555'' = bytes ''10'' @ ch_dot # bytes ''55'' @ [0x35]"
    by (simp_all add: bytes_def)
  have d: "digits_value 10 dec_digit 0 (bytes ''10'') = Some 10"
    "digits_value 10 dec_digit 10 (bytes ''5'') = Some 105"
    "digits_value 10 dec_digit 10 (bytes ''55'') = Some 1055"
    by code_simp+
  have l: "length (bytes ''5'') = 1" "length (bytes ''55'') = 2" by (simp_all add: bytes_def)
  have "ngx_atofp (bytes ''10.55'') 2 = 1055" by code_simp
  then show ?thesis
    unfolding b using atofp_correct [OF d(1) d(2), of 2] atofp_correct [OF d(1) d(3), of 2 "0x35"]
    by (simp add: l)
qed

end
