(* ===== verification/Ngx_Parse.thy ===== *)
theory Ngx_Parse
  imports Ngx_Number
begin

text \<open>
  \<^verbatim>\<open>src/core/ngx_parse.c\<close>: the readers of sizes, offsets and times that the
  configuration directives use. The configuration tokens are followed by a NUL byte;
  \<^verbatim>\<open>ngx_parse_time\<close> looks at that byte after a final \<^verbatim>\<open>m\<close>, so the model
  takes it as the argument \<open>nxt\<close>.
\<close>

section \<open>Definitions\<close>

text \<open>\<open>None\<close>: the empty string, whose last byte \<^verbatim>\<open>line->data[len - 1]\<close> lies before
  the buffer.\<close>

definition ngx_parse_size :: "ngx_str \<Rightarrow> 64 word option" where
  "ngx_parse_size line =
     (if line = [] then None
      else let unit = last line;
               (digits, scale) =
                 (if unit = ch_K \<or> unit = ch_k then (butlast line, 1024)
                  else if unit = ch_M \<or> unit = ch_m then (butlast line, 1024 * 1024)
                  else (line, 1));
               size = ngx_atosz digits
           in Some (if size = NGX_ERROR then NGX_ERROR else size * scale))"

definition ngx_parse_offset :: "ngx_str \<Rightarrow> 64 word option" where
  "ngx_parse_offset line =
     (if line = [] then None
      else let unit = last line;
               (digits, scale) =
                 (if unit = ch_K \<or> unit = ch_k then (butlast line, 1024)
                  else if unit = ch_M \<or> unit = ch_m then (butlast line, 1024 * 1024)
                  else if unit = ch_G \<or> unit = ch_g then (butlast line, 1024 * 1024 * 1024)
                  else (line, 1));
               offset = ngx_atoof digits
           in Some (if offset = NGX_ERROR then NGX_ERROR else offset * scale))"

text \<open>The steps of \<^verbatim>\<open>ngx_parse_time\<close>, in the order of the enumeration.\<close>

abbreviation (input) st_start :: nat where "st_start \<equiv> 0"
abbreviation (input) st_year :: nat where "st_year \<equiv> 1"
abbreviation (input) st_month :: nat where "st_month \<equiv> 2"
abbreviation (input) st_week :: nat where "st_week \<equiv> 3"
abbreviation (input) st_day :: nat where "st_day \<equiv> 4"
abbreviation (input) st_hour :: nat where "st_hour \<equiv> 5"
abbreviation (input) st_min :: nat where "st_min \<equiv> 6"
abbreviation (input) st_sec :: nat where "st_sec \<equiv> 7"
abbreviation (input) st_msec :: nat where "st_msec \<equiv> 8"
abbreviation (input) st_last :: nat where "st_last \<equiv> 9"

definition NGX_MAX_INT32_VALUE :: ngx_uint where "NGX_MAX_INT32_VALUE = 0x7fffffff"

text \<open>
  The \<^verbatim>\<open>switch\<close> on the unit: the next step, \<^verbatim>\<open>max\<close>, \<^verbatim>\<open>scale\<close> and whether a
  second character (the \<^verbatim>\<open>s\<close> of \<^verbatim>\<open>ms\<close>) was consumed; \<open>None\<close> is
  \<^verbatim>\<open>return NGX_ERROR\<close>. \<open>peek\<close> is the byte after the unit.
\<close>

definition ngx_parse_time_unit ::
    "bool \<Rightarrow> nat \<Rightarrow> u_char \<Rightarrow> u_char \<Rightarrow> (nat \<times> ngx_uint \<times> ngx_int \<times> bool) option" where
  "ngx_parse_time_unit is_sec step c peek =
     (if c = ch_y then
        (if step > st_start then None
         else Some (st_year, NGX_MAX_INT32_VALUE div (60 * 60 * 24 * 365), 60 * 60 * 24 * 365, False))
      else if c = ch_M then
        (if step \<ge> st_month then None
         else Some (st_month, NGX_MAX_INT32_VALUE div (60 * 60 * 24 * 30), 60 * 60 * 24 * 30, False))
      else if c = ch_w then
        (if step \<ge> st_week then None
         else Some (st_week, NGX_MAX_INT32_VALUE div (60 * 60 * 24 * 7), 60 * 60 * 24 * 7, False))
      else if c = ch_d then
        (if step \<ge> st_day then None
         else Some (st_day, NGX_MAX_INT32_VALUE div (60 * 60 * 24), 60 * 60 * 24, False))
      else if c = ch_h then
        (if step \<ge> st_hour then None
         else Some (st_hour, NGX_MAX_INT32_VALUE div (60 * 60), 60 * 60, False))
      else if c = ch_m then
        (if peek = ch_s then
           (if is_sec \<or> step \<ge> st_msec then None
            else Some (st_msec, NGX_MAX_INT32_VALUE, 1, True))
         else if step \<ge> st_min then None
         else Some (st_min, NGX_MAX_INT32_VALUE div 60, 60, False))
      else if c = ch_s then
        (if step \<ge> st_sec then None else Some (st_sec, NGX_MAX_INT32_VALUE, 1, False))
      else if c = ch_sp then
        (if step \<ge> st_sec then None else Some (st_last, NGX_MAX_INT32_VALUE, 1, False))
      else None)"

function ngx_parse_time_loop ::
    "bool \<Rightarrow> u_char \<Rightarrow> ngx_int \<Rightarrow> ngx_int \<Rightarrow> nat \<Rightarrow> bool \<Rightarrow> ngx_str \<Rightarrow> ngx_int" where
  "ngx_parse_time_loop is_sec nxt value tot step valid [] =
     (if valid then tot + value * (if is_sec then 1 else 1000) else NGX_ERROR)"
| "ngx_parse_time_loop is_sec nxt value tot step valid (c # p) =
     (if c \<ge> ch_0 \<and> c \<le> ch_9
      then ngx_parse_time_loop is_sec nxt (value * 10 + (ucast c - 0x30)) tot step True p
      else case ngx_parse_time_unit is_sec step c (case p of [] \<Rightarrow> nxt | d # _ \<Rightarrow> d) of
             None \<Rightarrow> NGX_ERROR
           | Some (step', lim, scale, two) \<Rightarrow>
               let p' = (if two then drop 1 p else p);
                   scale' = (if step' \<noteq> st_msec \<and> \<not> is_sec then scale * 1000 else scale);
                   lim' = (if step' \<noteq> st_msec \<and> \<not> is_sec then lim div 1000 else lim)
               in if value > lim' then NGX_ERROR
                  else let tot' = tot + value * scale'
                       in if tot' > NGX_MAX_INT32_VALUE then NGX_ERROR
                          else ngx_parse_time_loop is_sec nxt 0 tot' step' valid
                                 (dropWhile (\<lambda>c. c = ch_sp) p'))"
  by pat_completeness auto
termination
  by (relation "measure (\<lambda>(is_sec, nxt, value, tot, step, valid, p). length p)")
    (auto intro: le_less_trans [OF length_dropWhile_le])

definition ngx_parse_time :: "ngx_str \<Rightarrow> u_char \<Rightarrow> bool \<Rightarrow> ngx_int" where
  "ngx_parse_time line nxt is_sec =
     ngx_parse_time_loop is_sec nxt 0 0 (if is_sec then st_start else st_month) False line"

section \<open>Sizes and offsets\<close>

definition size_units :: "(ngx_str \<times> nat) list" where
  "size_units = [([], 1), ([ch_K], 1024), ([ch_k], 1024), ([ch_M], 1024 * 1024), ([ch_m], 1024 * 1024)]"

definition offset_units :: "(ngx_str \<times> nat) list" where
  "offset_units = size_units @ [([ch_G], 1024 * 1024 * 1024), ([ch_g], 1024 * 1024 * 1024)]"

lemma digits_value_set:
  "digits_value b dg v ds = Some n \<Longrightarrow> c \<in> set ds \<Longrightarrow> dg c \<noteq> None"
  by (induction ds arbitrary: v) (auto split: option.splits)

lemma digits_last_bounds:
  assumes "digits_value 10 dec_digit v ds = Some n" and "ds \<noteq> []"
  shows "ch_0 \<le> last ds \<and> last ds \<le> ch_9"
proof -
  from assms have "dec_digit (last ds) \<noteq> None" by (intro digits_value_set) auto
  then show ?thesis by (auto simp: dec_digit_None)
qed

lemma digit_not_unit:
  "ch_0 \<le> c \<and> c \<le> ch_9 \<Longrightarrow>
     c \<noteq> ch_K \<and> c \<noteq> ch_k \<and> c \<noteq> ch_M \<and> c \<noteq> ch_m \<and> c \<noteq> ch_G \<and> c \<noteq> ch_g"
  by (auto simp: word_le_nat_alt)

lemma reader_result_Some: "n < 2 ^ 63 \<Longrightarrow> reader_result (Some n) = of_nat n"
  by (simp add: reader_result_def)

lemma of_nat_neq_error: "n < 2 ^ 63 \<Longrightarrow> (of_nat n :: 64 word) \<noteq> NGX_ERROR"
proof
  assume n: "n < 2 ^ 63" and "(of_nat n :: 64 word) = NGX_ERROR"
  then have "sint (of_nat n :: 64 word) = - 1" by (simp add: NGX_ERROR_def)
  with n show False by (simp add: sint64_conv unat_of_nat)
qed

text \<open>
  \<^verbatim>\<open>ngx_parse_size\<close> and \<^verbatim>\<open>ngx_parse_offset\<close> accept a decimal numeral with an
  optional unit letter and return the numeral times the unit, modulo \<open>2 ^ 64\<close> (the product
  itself is not checked); when the product fits, it is returned exactly.
\<close>

theorem parse_size_offset_units:
  assumes num: "numeral_value 10 dec_digit ds = Some n" and fits: "n < 2 ^ 63"
  shows "((u, k) \<in> set size_units \<longrightarrow> ngx_parse_size (ds @ u) = Some (of_nat (n * k)))
    \<and> ((u, k) \<in> set offset_units \<longrightarrow> ngx_parse_offset (ds @ u) = Some (of_nat (n * k)))"
proof -
  from num have ds: "ds \<noteq> []" and val: "digits_value 10 dec_digit 0 ds = Some n"
    by (auto simp: numeral_value_def split: if_splits)
  note nu = digit_not_unit [OF digits_last_bounds [OF val ds]]
  have sz: "ngx_atosz ds = of_nat n" "ngx_atoof ds = of_nat n"
    using num fits by (simp_all add: atosz.reader_correct atoof.reader_correct reader_result_Some)
  have "(u, k) \<in> set size_units \<Longrightarrow> ngx_parse_size (ds @ u) = Some (of_nat (n * k))"
    using ds nu sz of_nat_neq_error [OF fits]
    by (auto simp: size_units_def ngx_parse_size_def)
  moreover have "(u, k) \<in> set offset_units \<Longrightarrow> ngx_parse_offset (ds @ u) = Some (of_nat (n * k))"
    using ds nu sz of_nat_neq_error [OF fits]
    by (auto simp: offset_units_def size_units_def ngx_parse_offset_def)
  ultimately show ?thesis by blast
qed

theorem parse_size_offset_units_witness:
  "ngx_parse_size (bytes ''16k'') = Some 16384 \<and> ngx_parse_offset (bytes ''16g'') = Some 17179869184"
proof -
  have num: "numeral_value 10 dec_digit (bytes ''16'') = Some 16" by code_simp
  have "bytes ''16k'' = bytes ''16'' @ [ch_k]" "bytes ''16g'' = bytes ''16'' @ [ch_g]"
    by (simp_all add: bytes_def)
  moreover have "([ch_k], 1024) \<in> set size_units" "([ch_g], 1024 * 1024 * 1024) \<in> set offset_units"
    by (simp_all add: size_units_def offset_units_def)
  ultimately show ?thesis
    using parse_size_offset_units [OF num, of "[ch_k]" 1024]
      parse_size_offset_units [OF num, of "[ch_g]" "1024 * 1024 * 1024"]
    by simp
qed

section \<open>Times\<close>

text \<open>
  The grammar of the times the code accepts, as a specification: the units of each mode
  with their steps and scales, a time as a list of numerals with units, its text, its sum,
  and the order the units must come in.
\<close>

definition time_units :: "bool \<Rightarrow> (ngx_str \<times> nat \<times> nat) list" where
  "time_units is_sec =
     (if is_sec
      then [([ch_y], st_year, 31536000), ([ch_M], st_month, 2592000), ([ch_w], st_week, 604800),
            ([ch_d], st_day, 86400), ([ch_h], st_hour, 3600), ([ch_m], st_min, 60),
            ([ch_s], st_sec, 1)]
      else [([ch_w], st_week, 604800000), ([ch_d], st_day, 86400000), ([ch_h], st_hour, 3600000),
            ([ch_m], st_min, 60000), ([ch_s], st_sec, 1000), ([ch_m, ch_s], st_msec, 1)])"

fun time_text :: "(ngx_str \<times> ngx_str \<times> nat \<times> nat) list \<Rightarrow> ngx_str" where
  "time_text [] = []"
| "time_text ((ds, u, st, k) # ts) = ds @ u @ time_text ts"

fun time_sum :: "(ngx_str \<times> ngx_str \<times> nat \<times> nat) list \<Rightarrow> nat" where
  "time_sum [] = 0"
| "time_sum ((ds, u, st, k) # ts) =
     (case numeral_value 10 dec_digit ds of None \<Rightarrow> 0 | Some n \<Rightarrow> n * k) + time_sum ts"

fun time_wf :: "bool \<Rightarrow> nat \<Rightarrow> (ngx_str \<times> ngx_str \<times> nat \<times> nat) list \<Rightarrow> bool" where
  "time_wf is_sec step [] = True"
| "time_wf is_sec step ((ds, u, st, k) # ts) =
     ((u, st, k) \<in> set (time_units is_sec) \<and> step < st
      \<and> (case numeral_value 10 dec_digit ds of None \<Rightarrow> False | Some n \<Rightarrow> n < 2 ^ 64)
      \<and> time_wf is_sec st ts)"

lemma time_unit_cases:
  assumes "(u, st, k) \<in> set (time_units is_sec)"
  obtains (sec) "is_sec"
      "(u, st, k) \<in> {([ch_y], st_year, 31536000), ([ch_M], st_month, 2592000), ([ch_w], st_week, 604800),
            ([ch_d], st_day, 86400), ([ch_h], st_hour, 3600), ([ch_m], st_min, 60),
            ([ch_s], st_sec, 1)}"
    | (msec) "\<not> is_sec" "st \<noteq> st_msec"
      "(u, st, k) \<in> {([ch_w], st_week, 604800000), ([ch_d], st_day, 86400000), ([ch_h], st_hour, 3600000),
            ([ch_m], st_min, 60000), ([ch_s], st_sec, 1000)}"
    | (ms) "\<not> is_sec" "u = [ch_m, ch_s]" "st = st_msec" "k = 1"
  using assms by (cases is_sec) (auto simp: time_units_def)

lemma time_unit_lookup:
  assumes "(u, st, k) \<in> set (time_units is_sec)" and "step < st"
    and peek: "(tl u \<noteq> []) = (hd u = ch_m \<and> peek = ch_s)"
  defines "sc \<equiv> (if st \<noteq> st_msec \<and> \<not> is_sec then k div 1000 else k)"
  shows "ngx_parse_time_unit is_sec step (hd u) peek =
    Some (st, of_nat ((2 ^ 31 - 1) div sc), of_nat sc, tl u \<noteq> [])"
  using assms(1)
proof (cases rule: time_unit_cases)
  case sec
  then show ?thesis using assms(2,3) unfolding sc_def ngx_parse_time_unit_def NGX_MAX_INT32_VALUE_def
    by (elim insertE emptyE) simp_all
next
  case msec
  then show ?thesis using assms(2,3) unfolding sc_def ngx_parse_time_unit_def NGX_MAX_INT32_VALUE_def
    by (elim insertE emptyE) simp_all
next
  case ms
  then show ?thesis using assms(2,3) unfolding sc_def ngx_parse_time_unit_def NGX_MAX_INT32_VALUE_def
    by simp
qed

lemma time_unit_facts:
  assumes "(u, st, k) \<in> set (time_units is_sec)"
  defines "sc \<equiv> (if st \<noteq> st_msec \<and> \<not> is_sec then k div 1000 else k)"
  shows "u = hd u # tl u \<and> (tl u = [] \<or> tl u = [ch_s]) \<and> \<not> (ch_0 \<le> hd u \<and> hd u \<le> ch_9)
    \<and> 0 < k \<and> k < 2 ^ 31
    \<and> (if st \<noteq> st_msec \<and> \<not> is_sec then of_nat ((2 ^ 31 - 1) div sc) div 1000
      else of_nat ((2 ^ 31 - 1) div sc)) = (of_nat ((2 ^ 31 - 1) div k) :: 64 word)
    \<and> (if st \<noteq> st_msec \<and> \<not> is_sec then of_nat sc * 1000 else of_nat sc) = (of_nat k :: 64 word)"
  using assms(1)
proof (cases rule: time_unit_cases)
  case sec
  then show ?thesis unfolding sc_def by (elim insertE emptyE) simp_all
next
  case msec
  then show ?thesis unfolding sc_def by (elim insertE emptyE) simp_all
next
  case ms
  then show ?thesis unfolding sc_def by simp
qed

lemma time_accumulate:
  assumes n: "n < 2 ^ 64" and tot: "t < 2 ^ 31" and k: "0 < k" "k < 2 ^ 31"
  shows "(of_nat n :: 64 word) > of_nat ((2 ^ 31 - 1) div k) \<longleftrightarrow> n > (2 ^ 31 - 1) div k"
    and "n \<le> (2 ^ 31 - 1) div k \<Longrightarrow>
      (of_nat (t + n * k) :: 64 word) > NGX_MAX_INT32_VALUE \<longleftrightarrow> \<not> t + n * k < 2 ^ 31"
    and "\<not> n \<le> (2 ^ 31 - 1) div k \<Longrightarrow> \<not> t + n * k < 2 ^ 31"
proof -
  have "(2 ^ 31 - 1) div k \<le> (2 ^ 31 - 1 :: nat)" by simp
  then have "(2 ^ 31 - 1) div k < (2 ^ 64 :: nat)" by (rule le_less_trans) simp
  with n show "(of_nat n :: 64 word) > of_nat ((2 ^ 31 - 1) div k) \<longleftrightarrow> n > (2 ^ 31 - 1) div k"
    by (simp only: word_less_nat_alt unat_of_nat) simp
next
  assume "n \<le> (2 ^ 31 - 1) div k"
  then have "n * k \<le> (2 ^ 31 - 1) div k * k" by (rule mult_le_mono1)
  also have "\<dots> \<le> 2 ^ 31 - 1" by simp
  finally have "n * k \<le> 2 ^ 31 - 1" .
  with tot have "t + n * k < 2 ^ 64" by simp
  then show "(of_nat (t + n * k) :: 64 word) > NGX_MAX_INT32_VALUE \<longleftrightarrow> \<not> t + n * k < 2 ^ 31"
    by (simp only: word_less_nat_alt unat_of_nat NGX_MAX_INT32_VALUE_def) auto
next
  assume "\<not> n \<le> (2 ^ 31 - 1) div k"
  then have "(2 ^ 31 - 1) < n * k" using k(1) by (simp add: div_less_iff_less_mult not_le)
  then show "\<not> t + n * k < 2 ^ 31" by simp
qed

lemma time_loop_digits:
  assumes "digits_value 10 dec_digit v ds = Some n"
  shows "ngx_parse_time_loop is_sec nxt (of_nat v) tot step valid (ds @ rest)
    = ngx_parse_time_loop is_sec nxt (of_nat n) tot step (valid \<or> ds \<noteq> []) rest"
  using assms
proof (induction ds arbitrary: v valid)
  case Nil
  then show ?case by simp
next
  case (Cons c ds)
  then obtain d where d: "dec_digit c = Some d"
    and n: "digits_value 10 dec_digit (v * 10 + d) ds = Some n"
    by (auto split: option.splits)
  from dec_digit_Some [OF d] have "ngx_parse_time_loop is_sec nxt (of_nat v) tot step valid ((c # ds) @ rest)
      = ngx_parse_time_loop is_sec nxt (of_nat (v * 10 + d)) tot step True (ds @ rest)"
    by simp
  also have "\<dots> = ngx_parse_time_loop is_sec nxt (of_nat n) tot step True rest"
    using Cons.IH [OF n, of True] by simp
  finally show ?case by simp
qed

lemma time_unit_obtain:
  assumes u: "(u, st, k) \<in> set (time_units is_sec)" and "step < st"
    and "(tl u \<noteq> []) = (hd u = ch_m \<and> peek = ch_s)"
  obtains lim scale where
    "ngx_parse_time_unit is_sec step (hd u) peek = Some (st, lim, scale, tl u \<noteq> [])"
    "(if st \<noteq> st_msec \<and> \<not> is_sec then lim div 1000 else lim) = of_nat ((2 ^ 31 - 1) div k)"
    "(if st \<noteq> st_msec \<and> \<not> is_sec then scale * 1000 else scale) = of_nat k"
  by (rule that [OF time_unit_lookup [OF assms]]) (use time_unit_facts [OF u] in blast)+

lemma time_loop_unit:
  assumes u: "(u, st, k) \<in> set (time_units is_sec)" and "step < st"
    and peek: "rest = [] \<and> nxt \<noteq> ch_s \<or> rest \<noteq> [] \<and> hd rest \<noteq> ch_s \<and> hd rest \<noteq> ch_sp"
    and n: "n < 2 ^ 64" and t: "t < 2 ^ 31"
  shows "ngx_parse_time_loop is_sec nxt (of_nat n) (of_nat t) step valid (u @ rest)
    = (if t + n * k < 2 ^ 31
       then ngx_parse_time_loop is_sec nxt 0 (of_nat (t + n * k)) st valid rest
       else NGX_ERROR)"
proof -
  note f = time_unit_facts [OF u]
  obtain c us where us: "u = c # us" "us = [] \<or> us = [ch_s]" "\<not> (ch_0 \<le> c \<and> c \<le> ch_9)"
    using f by (cases u) auto
  define pk where "pk = (case us @ rest of [] \<Rightarrow> nxt | d # _ \<Rightarrow> d)"
  have "(tl u \<noteq> []) = (hd u = ch_m \<and> pk = ch_s)"
    using us peek u unfolding pk_def
    by (cases rest) (auto simp: time_units_def split: if_splits)
  then obtain lim scale where lk: "ngx_parse_time_unit is_sec step c pk = Some (st, lim, scale, us \<noteq> [])"
    and L: "(if st \<noteq> st_msec \<and> \<not> is_sec then lim div 1000 else lim) = of_nat ((2 ^ 31 - 1) div k)"
    and S: "(if st \<noteq> st_msec \<and> \<not> is_sec then scale * 1000 else scale) = of_nat k"
    by (rule time_unit_obtain [OF u assms(2)]) (simp_all only: us(1) list.sel)
  have dw: "dropWhile (\<lambda>c. c = ch_sp) rest = rest" using peek by (cases rest) auto
  have dr: "(if us \<noteq> [] then drop 1 (us @ rest) else us @ rest) = rest" using us by auto
  have "ngx_parse_time_loop is_sec nxt (of_nat n) (of_nat t) step valid (c # us @ rest)
    = (if (of_nat n :: 64 word) > of_nat ((2 ^ 31 - 1) div k) then NGX_ERROR
       else if (of_nat (t + n * k) :: 64 word) > NGX_MAX_INT32_VALUE then NGX_ERROR
       else ngx_parse_time_loop is_sec nxt 0 (of_nat (t + n * k)) st valid rest)"
    unfolding ngx_parse_time_loop.simps pk_def [symmetric] lk option.case prod.case Let_def L S dr dw
    using us(3) by auto
  then show ?thesis
    using time_accumulate [OF n t, of k] f us(1) by auto
qed


lemma time_text_next:
  assumes "time_wf is_sec step ts" and "nxt \<noteq> ch_s"
  shows "time_text ts = [] \<and> nxt \<noteq> ch_s
    \<or> time_text ts \<noteq> [] \<and> hd (time_text ts) \<noteq> ch_s \<and> hd (time_text ts) \<noteq> ch_sp"
proof (cases ts)
  case Nil
  with assms(2) show ?thesis by simp
next
  case (Cons x xs)
  obtain ds u st k where x: "x = (ds, u, st, k)" by (cases x)
  with Cons assms(1) obtain n where ds: "ds \<noteq> []" and n: "digits_value 10 dec_digit 0 ds = Some n"
    by (auto simp: numeral_value_def split: option.splits if_splits)
  then have "dec_digit (hd ds) \<noteq> None" by (intro digits_value_set) auto
  then have "ch_0 \<le> hd ds" "hd ds \<le> ch_9" by (auto simp: dec_digit_None)
  then have "hd ds \<noteq> ch_s \<and> hd ds \<noteq> ch_sp" by (auto simp: word_le_nat_alt)
  with ds Cons x show ?thesis by simp
qed

lemma time_loop_text:
  assumes "time_wf is_sec step ts" and "nxt \<noteq> ch_s" and "t < 2 ^ 31" and "valid \<or> ts \<noteq> []"
  shows "ngx_parse_time_loop is_sec nxt 0 (of_nat t) step valid (time_text ts)
    = (if t + time_sum ts < 2 ^ 31 then of_nat (t + time_sum ts) else NGX_ERROR)"
  using assms
proof (induction ts arbitrary: step t valid)
  case Nil
  then show ?case by simp
next
  case (Cons x ts)
  obtain ds u st k where x: "x = (ds, u, st, k)" by (cases x)
  with Cons.prems obtain n where u: "(u, st, k) \<in> set (time_units is_sec)" "step < st"
    and num: "numeral_value 10 dec_digit ds = Some n" and n: "n < 2 ^ 64"
    and wf: "time_wf is_sec st ts"
    by (auto split: option.splits)
  from num have ds: "ds \<noteq> []" and dv: "digits_value 10 dec_digit 0 ds = Some n"
    by (auto simp: numeral_value_def split: if_splits)
  have "ngx_parse_time_loop is_sec nxt 0 (of_nat t) step valid (time_text (x # ts))
      = ngx_parse_time_loop is_sec nxt (of_nat n) (of_nat t) step True (u @ time_text ts)"
    using time_loop_digits [OF dv, of is_sec nxt "of_nat t" step valid "u @ time_text ts"] ds x
    by simp
  also have "\<dots> = (if t + n * k < 2 ^ 31
      then ngx_parse_time_loop is_sec nxt 0 (of_nat (t + n * k)) st True (time_text ts)
      else NGX_ERROR)"
    by (rule time_loop_unit [OF u time_text_next [OF wf Cons.prems(2)] n Cons.prems(3)])
  also have "\<dots> = (if t + time_sum (x # ts) < 2 ^ 31 then of_nat (t + time_sum (x # ts)) else NGX_ERROR)"
    using Cons.IH [OF wf Cons.prems(2), of "t + n * k" True] x num
    by (auto simp: add.assoc simp del: of_nat_add of_nat_mult)
  finally show ?case .
qed

text \<open>
  \<^verbatim>\<open>ngx_parse_time\<close> evaluates a sequence of numerals with units, given in strictly
  descending unit order, to the sum in seconds (or milliseconds): the exact sum when it is
  at most \<open>2 ^ 31 - 1\<close>, and \<^verbatim>\<open>NGX_ERROR\<close> in every other case, so no intermediate
  product or sum wraps.
\<close>

theorem parse_time_units:
  assumes "time_wf is_sec (if is_sec then st_start else st_month) ts" and "ts \<noteq> []"
    and "nxt \<noteq> ch_s"
  shows "ngx_parse_time (time_text ts) nxt is_sec
    = (if time_sum ts < 2 ^ 31 then of_nat (time_sum ts) else NGX_ERROR)"
  using time_loop_text [OF assms(1,3), of 0 False] assms(2) by (simp add: ngx_parse_time_def)

theorem parse_time_units_witness:
  "ngx_parse_time (bytes ''1h30m'') 0 True = 5400 \<and> ngx_parse_time (bytes ''1m500ms'') 0 False = 60500
   \<and> ngx_parse_time (bytes ''69y'') 0 True = NGX_ERROR"
proof -
  let ?a = "[(bytes ''1'', [ch_h], st_hour, 3600), (bytes ''30'', [ch_m], st_min, 60)]"
  let ?b = "[(bytes ''1'', [ch_m], st_min, 60000), (bytes ''500'', [ch_m, ch_s], st_msec, 1)]"
  let ?c = "[(bytes ''69'', [ch_y], st_year, 31536000)]"
  have "time_wf True st_start ?a" "time_wf False st_month ?b" "time_wf True st_start ?c"
    by (simp_all add: time_units_def numeral_value_def dec_digit_def bytes_def)
  moreover have "time_text ?a = bytes ''1h30m''" "time_text ?b = bytes ''1m500ms''" "time_text ?c = bytes ''69y''"
    by (simp_all add: bytes_def)
  moreover have "time_sum ?a = 5400" "time_sum ?b = 60500" "time_sum ?c = 2175984000"
    by (simp_all add: numeral_value_def dec_digit_def bytes_def)
  ultimately show ?thesis
    using parse_time_units [of True ?a 0] parse_time_units [of False ?b 0] parse_time_units [of True ?c 0]
    by simp
qed

end
