(* ===== verification/Ngx_Format.thy ===== *)
theory Ngx_Format
  imports Ngx_Number
begin

text \<open>
  The formatted output of \<^verbatim>\<open>src/core/ngx_string.c\<close>: \<^verbatim>\<open>ngx_vslprintf\<close>, its
  number printer \<^verbatim>\<open>ngx_sprintf_num\<close> and the three entry points. The output buffer is
  the list of bytes written so far; \<open>cap\<close> is \<^verbatim>\<open>last - buf\<close> at the start, or
  \<open>None\<close> for the \<^verbatim>\<open>(void *) -1\<close> that \<^verbatim>\<open>ngx_sprintf\<close> passes. A
  \<^verbatim>\<open>va_list\<close> is a list of typed arguments. \<open>None\<close> as a result is undefined behaviour
  of the C code (a missing or ill-typed argument, a read past the end of an argument, a
  format that ends in the middle of a conversion) or the conversion \<^verbatim>\<open>%f\<close>, whose
  \<^verbatim>\<open>double\<close> arithmetic is not modelled.
\<close>

section \<open>Definitions\<close>

type_synonym ngx_cap = "nat option"

text \<open>\<^verbatim>\<open>buf < last\<close>, and the copy of \<^verbatim>\<open>ngx_min(last - buf, len)\<close> bytes.\<close>

definition room :: "ngx_cap \<Rightarrow> ngx_str \<Rightarrow> bool" where
  "room cap out = (case cap of None \<Rightarrow> True | Some n \<Rightarrow> length out < n)"

definition put :: "ngx_cap \<Rightarrow> ngx_str \<Rightarrow> ngx_str \<Rightarrow> ngx_str" where
  "put cap out xs = (case cap of None \<Rightarrow> out @ xs | Some n \<Rightarrow> out @ take (n - length out) xs)"

text \<open>The digit loops of \<^verbatim>\<open>ngx_sprintf_num\<close>: \<^verbatim>\<open>do { *--p = ... } while (...)\<close>.\<close>

function sprintf_dec32 :: "uint32 \<Rightarrow> ngx_str \<Rightarrow> ngx_str" where
  "sprintf_dec32 ui32 p =
     (let p' = (ucast (ui32 mod 10 + 0x30) :: u_char) # p; ui32' = ui32 div 10
      in if ui32' \<noteq> 0 then sprintf_dec32 ui32' p' else p')"
  by pat_completeness auto
termination
  by (relation "measure (\<lambda>(v, p). unat v)") (auto simp: unat_div unat_eq_zero [symmetric])

function sprintf_dec64 :: "64 word \<Rightarrow> ngx_str \<Rightarrow> ngx_str" where
  "sprintf_dec64 ui64 p =
     (let p' = (ucast (ui64 mod 10 + 0x30) :: u_char) # p; ui64' = ui64 div 10
      in if ui64' \<noteq> 0 then sprintf_dec64 ui64' p' else p')"
  by pat_completeness auto
termination
  by (relation "measure (\<lambda>(v, p). unat v)") (auto simp: unat_div unat_eq_zero [symmetric])

definition hex_lower :: ngx_str where "hex_lower = bytes ''0123456789abcdef''"
definition hex_upper :: ngx_str where "hex_upper = bytes ''0123456789ABCDEF''"

function sprintf_hex :: "ngx_str \<Rightarrow> 64 word \<Rightarrow> ngx_str \<Rightarrow> ngx_str" where
  "sprintf_hex hex ui64 p =
     (let p' = hex ! unat (ui64 AND 0xf) # p; ui64' = drop_bit 4 ui64
      in if ui64' \<noteq> 0 then sprintf_hex hex ui64' p' else p')"
  by pat_completeness auto
termination
  by (relation "measure (\<lambda>(h, v, p). unat v)")
    (auto simp: drop_bit_eq_div unat_div unat_eq_zero [symmetric])

declare sprintf_dec32.simps [simp del] sprintf_dec64.simps [simp del] sprintf_hex.simps [simp del]

definition sprintf_digits :: "64 word \<Rightarrow> nat \<Rightarrow> ngx_str" where
  "sprintf_digits ui64 hexadecimal =
     (if hexadecimal = 0 then
        (if ui64 \<le> 0xffffffff then sprintf_dec32 (ucast ui64) [] else sprintf_dec64 ui64 [])
      else if hexadecimal = 1 then sprintf_hex hex_lower ui64 []
      else sprintf_hex hex_upper ui64 [])"

definition ngx_sprintf_num ::
    "ngx_cap \<Rightarrow> ngx_str \<Rightarrow> 64 word \<Rightarrow> u_char \<Rightarrow> nat \<Rightarrow> ngx_uint \<Rightarrow> ngx_str" where
  "ngx_sprintf_num cap buf ui64 zero hexadecimal width =
     (let temp = sprintf_digits ui64 hexadecimal;
          buf' = put cap buf (replicate (unat width - length temp) zero)
      in put cap buf' temp)"

text \<open>
  The arguments: 64-bit and 32-bit integers, \<^verbatim>\<open>ngx_str_t *\<close> (or the variable value,
  which has the same two fields), and pointers, as the bytes from the pointer to the end of
  its object.
\<close>

datatype ngx_arg = Arg64 "64 word" | Arg32 "32 word" | ArgStr ngx_str | ArgPtr ngx_str

record fmt_spec =
  fs_zero :: u_char
  fs_width :: ngx_uint
  fs_sign :: bool
  fs_hex :: nat
  fs_max_width :: bool
  fs_frac_width :: ngx_uint
  fs_slen :: "64 word"

definition fmt_spec_init :: "u_char \<Rightarrow> fmt_spec" where
  "fmt_spec_init c =
     \<lparr>fs_zero = (if c = ch_0 then ch_0 else ch_sp), fs_width = 0, fs_sign = True, fs_hex = 0,
      fs_max_width = False, fs_frac_width = 0, fs_slen = - 1\<rparr>"

text \<open>\<^verbatim>\<open>while (*fmt >= '0' && *fmt <= '9')\<close>, for the width and for the fraction.\<close>

fun fmt_number :: "ngx_uint \<Rightarrow> ngx_str \<Rightarrow> ngx_uint \<times> ngx_str" where
  "fmt_number w [] = (w, [])"
| "fmt_number w (c # fmt) =
     (if c \<ge> ch_0 \<and> c \<le> ch_9 then fmt_number (w * 10 + ucast c - 0x30) fmt else (w, c # fmt))"

text \<open>The \<^verbatim>\<open>for ( ;; ) switch (*fmt)\<close> over the modifiers.\<close>

fun fmt_flags :: "fmt_spec \<Rightarrow> ngx_str \<Rightarrow> ngx_arg list \<Rightarrow> (fmt_spec \<times> ngx_str \<times> ngx_arg list) option" where
  "fmt_flags sp [] args = Some (sp, [], args)"
| "fmt_flags sp (c # fmt) args =
     (if c = ch_u then fmt_flags (sp\<lparr>fs_sign := False\<rparr>) fmt args
      else if c = ch_m then fmt_flags (sp\<lparr>fs_max_width := True\<rparr>) fmt args
      else if c = ch_X then fmt_flags (sp\<lparr>fs_hex := 2, fs_sign := False\<rparr>) fmt args
      else if c = ch_x then fmt_flags (sp\<lparr>fs_hex := 1, fs_sign := False\<rparr>) fmt args
      else if c = ch_dot then
        (let (w, fmt') = fmt_number (fs_frac_width sp) fmt
         in Some (sp\<lparr>fs_frac_width := w\<rparr>, fmt', args))
      else if c = ch_star then
        (case args of Arg64 n # args' \<Rightarrow> fmt_flags (sp\<lparr>fs_slen := n\<rparr>) fmt args' | _ \<Rightarrow> None)
      else Some (sp, c # fmt, args))"

text \<open>The \<^verbatim>\<open>va_arg\<close> of an integer conversion, widened to 64 bits as the cast does.\<close>

definition arg64 :: "ngx_arg list \<Rightarrow> (64 word \<times> ngx_arg list) option" where
  "arg64 args = (case args of Arg64 n # args' \<Rightarrow> Some (n, args') | _ \<Rightarrow> None)"

definition arg32 :: "bool \<Rightarrow> ngx_arg list \<Rightarrow> (64 word \<times> ngx_arg list) option" where
  "arg32 sign args =
     (case args of Arg32 n # args' \<Rightarrow> Some (if sign then scast n else ucast n, args') | _ \<Rightarrow> None)"

definition NGX_INT_T_LEN :: ngx_uint where "NGX_INT_T_LEN = 20"
definition NGX_ATOMIC_T_LEN :: ngx_uint where "NGX_ATOMIC_T_LEN = 20"

text \<open>
  The integer conversions: the specification after the case (\<^verbatim>\<open>sign\<close>, \<^verbatim>\<open>hex\<close>,
  \<^verbatim>\<open>zero\<close>, \<^verbatim>\<open>width\<close> may change), the value in \<^verbatim>\<open>i64\<close> or
  \<^verbatim>\<open>ui64\<close>, the remaining arguments. \<open>None\<close>: the character is no integer conversion,
  or the argument is missing.
\<close>

definition fmt_integer ::
    "u_char \<Rightarrow> fmt_spec \<Rightarrow> ngx_arg list \<Rightarrow> (fmt_spec \<times> 64 word \<times> ngx_arg list) option" where
  "fmt_integer c sp args =
     (if c = ch_O \<or> c = ch_T \<or> c = ch_r then
        map_option (\<lambda>(v, as). (sp\<lparr>fs_sign := True\<rparr>, v, as)) (arg64 args)
      else if c = ch_P then
        map_option (\<lambda>(v, as). (sp\<lparr>fs_sign := True\<rparr>, v, as)) (arg32 True args)
      else if c = ch_M then
        map_option (\<lambda>(v, as). (sp\<lparr>fs_sign := (v = - 1)\<rparr>, v, as)) (arg64 args)
      else if c = ch_z \<or> c = ch_l \<or> c = ch_L then
        map_option (\<lambda>(v, as). (sp, v, as)) (arg64 args)
      else if c = ch_i then
        map_option (\<lambda>(v, as). (if fs_max_width sp then sp\<lparr>fs_width := NGX_INT_T_LEN\<rparr> else sp, v, as))
          (arg64 args)
      else if c = ch_d \<or> c = ch_D then
        map_option (\<lambda>(v, as). (sp, v, as)) (arg32 (fs_sign sp) args)
      else if c = ch_A then
        map_option (\<lambda>(v, as). (if fs_max_width sp then sp\<lparr>fs_width := NGX_ATOMIC_T_LEN\<rparr> else sp, v, as))
          (arg64 args)
      else if c = ch_p then
        map_option (\<lambda>(v, as). (sp\<lparr>fs_hex := 2, fs_sign := False, fs_zero := ch_0, fs_width := 16\<rparr>, v, as))
          (arg64 args)
      else None)"

definition fmt_is_integer :: "u_char \<Rightarrow> bool" where
  "fmt_is_integer c \<longleftrightarrow>
     c \<in> {ch_O, ch_P, ch_T, ch_M, ch_z, ch_i, ch_d, ch_l, ch_D, ch_L, ch_A, ch_r, ch_p}"

text \<open>The tail of an integer conversion: the sign, then \<^verbatim>\<open>ngx_sprintf_num\<close>.\<close>

definition fmt_put_integer :: "ngx_cap \<Rightarrow> ngx_str \<Rightarrow> fmt_spec \<Rightarrow> 64 word \<Rightarrow> ngx_str" where
  "fmt_put_integer cap buf sp v =
     (if fs_sign sp \<and> v <s 0
      then ngx_sprintf_num cap (buf @ [ch_minus]) (- v) (fs_zero sp) (fs_hex sp) (fs_width sp)
      else ngx_sprintf_num cap buf v (fs_zero sp) (fs_hex sp) (fs_width sp))"

text \<open>
  One conversion: the bytes written and the arguments left. The single bytes
  (\<^verbatim>\<open>%c\<close>, \<^verbatim>\<open>%Z\<close>, \<^verbatim>\<open>%N\<close>, \<^verbatim>\<open>%%\<close>, an unknown letter) are written
  without a check, since the loop guarantees room for one. \<^verbatim>\<open>%s\<close> stops at a NUL or when
  the buffer is full.
\<close>

definition fmt_conv ::
    "ngx_cap \<Rightarrow> ngx_str \<Rightarrow> fmt_spec \<Rightarrow> u_char \<Rightarrow> ngx_arg list \<Rightarrow> (ngx_str \<times> ngx_arg list) option" where
  "fmt_conv cap buf sp c args =
     (if c = ch_V \<or> c = ch_v then
        (case args of ArgStr v # args' \<Rightarrow> Some (put cap buf v, args') | _ \<Rightarrow> None)
      else if c = ch_s then
        (case args of
           ArgPtr p # args' \<Rightarrow>
             (if fs_slen sp = - 1
              then (if 0 \<in> set p \<or> (case cap of None \<Rightarrow> False | Some n \<Rightarrow> n - length buf < length p)
                    then Some (put cap buf (takeWhile (\<lambda>c. c \<noteq> 0) p), args') else None)
              else let len = (case cap of None \<Rightarrow> unat (fs_slen sp)
                              | Some n \<Rightarrow> min (n - length buf) (unat (fs_slen sp)))
                   in if len \<le> length p then Some (buf @ take len p, args') else None)
         | _ \<Rightarrow> None)
      else if c = ch_f then None
      else if c = ch_c then
        (case args of Arg32 d # args' \<Rightarrow> Some (buf @ [ucast (d AND 0xff)], args') | _ \<Rightarrow> None)
      else if c = ch_Z then Some (buf @ [0], args)
      else if c = ch_N then Some (buf @ [LF], args)
      else if c = ch_percent then Some (buf @ [ch_percent], args)
      else if fmt_is_integer c then
        (case fmt_integer c sp args of
           None \<Rightarrow> None
         | Some (sp', v, args') \<Rightarrow> Some (fmt_put_integer cap buf sp' v, args'))
      else Some (buf @ [c], args))"

lemma fmt_number_length: "fmt_number w fmt = (w', fmt') \<Longrightarrow> length fmt' \<le> length fmt"
  by (induction w fmt arbitrary: w' rule: fmt_number.induct) (fastforce split: if_splits)+

lemmas fmt_number_length_sym = fmt_number_length [OF sym]

lemma fmt_flags_length: "fmt_flags sp fmt args = Some (sp', fmt', args') \<Longrightarrow> length fmt' \<le> length fmt"
  by (induction sp fmt args rule: fmt_flags.induct)
    (auto split: if_splits list.splits ngx_arg.splits prod.splits dest: fmt_number_length)

function ngx_vslprintf :: "ngx_cap \<Rightarrow> ngx_str \<Rightarrow> ngx_str \<Rightarrow> ngx_arg list \<Rightarrow> ngx_str option" where
  "ngx_vslprintf cap buf [] args = Some buf"
| "ngx_vslprintf cap buf (c # fmt) args =
     (if \<not> room cap buf then Some buf
      else if c \<noteq> ch_percent then ngx_vslprintf cap (buf @ [c]) fmt args
      else let sp = fmt_spec_init (case fmt of [] \<Rightarrow> 0 | d # _ \<Rightarrow> d);
               (w, fmt1) = fmt_number 0 fmt
           in case fmt_flags (sp\<lparr>fs_width := w\<rparr>) fmt1 args of
                None \<Rightarrow> None
              | Some (sp', fmt2, args') \<Rightarrow>
                  (case fmt2 of
                     [] \<Rightarrow> None
                   | d # fmt3 \<Rightarrow>
                       (case fmt_conv cap buf sp' d args' of
                          None \<Rightarrow> None
                        | Some (buf', args'') \<Rightarrow> ngx_vslprintf cap buf' fmt3 args'')))"
  by pat_completeness auto
termination
  by (relation "measure (\<lambda>(cap, buf, fmt, args). length fmt)")
    (auto dest!: fmt_number_length_sym fmt_flags_length)

definition ngx_sprintf :: "ngx_str \<Rightarrow> ngx_arg list \<Rightarrow> ngx_str option" where
  "ngx_sprintf fmt args = ngx_vslprintf None [] fmt args"

definition ngx_snprintf :: "nat \<Rightarrow> ngx_str \<Rightarrow> ngx_arg list \<Rightarrow> ngx_str option" where
  "ngx_snprintf maxlen fmt args = ngx_vslprintf (Some maxlen) [] fmt args"

definition ngx_slprintf :: "nat \<Rightarrow> ngx_str \<Rightarrow> ngx_arg list \<Rightarrow> ngx_str option" where
  "ngx_slprintf last_minus_buf fmt args = ngx_vslprintf (Some last_minus_buf) [] fmt args"

section \<open>Numerals in a radix\<close>

function base_repr :: "nat \<Rightarrow> ngx_str \<Rightarrow> nat \<Rightarrow> ngx_str" where
  "base_repr b tab n =
     (if b < 2 \<or> n < b then [tab ! n] else base_repr b tab (n div b) @ [tab ! (n mod b)])"
  by pat_completeness auto
termination
  by (relation "measure (\<lambda>(b, tab, n). n)") auto

declare base_repr.simps [simp del]

lemma base_repr_nonempty [simp]: "base_repr b tab n \<noteq> []"
  by (subst base_repr.simps) simp

lemma base_repr_length:
  assumes "2 \<le> b" and "n < b ^ Suc k"
  shows "length (base_repr b tab n) \<le> Suc k"
  using assms
proof (induction k arbitrary: n)
  case 0
  then show ?case by (subst base_repr.simps) simp
next
  case (Suc k)
  have "n div b < b ^ Suc k" using Suc.prems by (simp add: less_mult_imp_div_less mult.commute)
  then have "length (base_repr b tab (n div b)) \<le> Suc k" using Suc by simp
  then show ?case by (subst base_repr.simps) simp
qed

text \<open>A printer and a reader agree when the reader's digit function inverts the table.\<close>

locale radix_table =
  fixes b :: nat and tab :: ngx_str and dg :: "u_char \<Rightarrow> nat option"
  assumes radix: "2 \<le> b" and table: "d < b \<Longrightarrow> dg (tab ! d) = Some d"
begin

lemma repr_value: "digits_value b dg 0 (base_repr b tab n) = Some n"
proof (induction n rule: less_induct)
  case (less n)
  show ?case
  proof (cases "n < b")
    case True
    then show ?thesis using table by (subst base_repr.simps) simp
  next
    case False
    with radix have "digits_value b dg 0 (base_repr b tab (n div b)) = Some (n div b)"
      by (intro less.IH) auto
    with False radix show ?thesis
      using table [of "n mod b"] by (subst base_repr.simps) (simp add: digits_value_append)
  qed
qed

lemma repr_numeral: "numeral_value b dg (base_repr b tab n) = Some n"
  by (simp add: numeral_value_def repr_value)

end

definition dec_table :: ngx_str where "dec_table = bytes ''0123456789''"

lemma table_below:
  "(\<forall>d < n. P d) = list_all P [0..<n]"
  by (auto simp: list_all_iff)

interpretation dec: radix_table 10 dec_table dec_digit
proof unfold_locales
  have "\<forall>d < 10. dec_digit (dec_table ! d) = Some d" unfolding table_below by code_simp
  then show "d < 10 \<Longrightarrow> dec_digit (dec_table ! d) = Some d" for d by blast
qed simp

interpretation hexl: radix_table 16 hex_lower hex_digit
proof unfold_locales
  have "\<forall>d < 16. hex_digit (hex_lower ! d) = Some d" unfolding table_below by code_simp
  then show "d < 16 \<Longrightarrow> hex_digit (hex_lower ! d) = Some d" for d by blast
qed simp

interpretation hexu: radix_table 16 hex_upper hex_digit
proof unfold_locales
  have "\<forall>d < 16. hex_digit (hex_upper ! d) = Some d" unfolding table_below by code_simp
  then show "d < 16 \<Longrightarrow> hex_digit (hex_upper ! d) = Some d" for d by blast
qed simp

section \<open>The digit loops print numerals\<close>

lemma dec_table_nth: "d < 10 \<Longrightarrow> dec_table ! d = of_nat (d + 48)"
proof -
  have "\<forall>d < 10. dec_table ! d = of_nat (d + 48)" unfolding table_below by code_simp
  then show "d < 10 \<Longrightarrow> dec_table ! d = of_nat (d + 48)" by blast
qed

lemma dec_char:
  "(ucast (of_nat (n mod 10 + 48) :: 32 word) :: u_char) = dec_table ! (n mod 10)"
  "(ucast (of_nat (n mod 10 + 48) :: 64 word) :: u_char) = dec_table ! (n mod 10)"
proof -
  have small: "n mod 10 + 48 < 2 ^ 32" "n mod 10 + 48 < 2 ^ 64"
    using mod_less_divisor [of 10 n] by simp_all
  show "(ucast (of_nat (n mod 10 + 48) :: 32 word) :: u_char) = dec_table ! (n mod 10)"
    using small(1) by (simp add: dec_table_nth unsigned_of_nat take_bit_nat_eq_self del: of_nat_add)
  show "(ucast (of_nat (n mod 10 + 48) :: 64 word) :: u_char) = dec_table ! (n mod 10)"
    using small(2) by (simp add: dec_table_nth unsigned_of_nat take_bit_nat_eq_self del: of_nat_add)
qed

lemma sprintf_dec32_repr: "sprintf_dec32 v p = base_repr 10 dec_table (unat v) @ p"
proof (induction v p rule: sprintf_dec32.induct)
  case (1 v p)
  have c: "(ucast (v mod 10 + 0x30) :: u_char) = dec_table ! (unat v mod 10)"
    using dec_char(1) [of "unat v"] by (simp add: word_arith_nat_mod)
  show ?case
  proof (cases "v div 10 = 0")
    case True
    then have "unat v < 10" by (simp flip: unat_eq_zero add: unat_div)
    with True c show ?thesis
      by (subst sprintf_dec32.simps, subst base_repr.simps) simp
  next
    case False
    then have "\<not> unat v < 10" by (simp flip: unat_eq_zero add: unat_div)
    with False "1.IH" [OF refl refl False] c show ?thesis
      by (simp add: sprintf_dec32.simps [of v p] base_repr.simps [of 10 dec_table "unat v"] unat_div)
  qed
qed

lemma sprintf_dec64_repr: "sprintf_dec64 v p = base_repr 10 dec_table (unat v) @ p"
proof (induction v p rule: sprintf_dec64.induct)
  case (1 v p)
  have c: "(ucast (v mod 10 + 0x30) :: u_char) = dec_table ! (unat v mod 10)"
    using dec_char(2) [of "unat v"] by (simp add: word_arith_nat_mod)
  show ?case
  proof (cases "v div 10 = 0")
    case True
    then have "unat v < 10" by (simp flip: unat_eq_zero add: unat_div)
    with True c show ?thesis
      by (subst sprintf_dec64.simps, subst base_repr.simps) simp
  next
    case False
    then have "\<not> unat v < 10" by (simp flip: unat_eq_zero add: unat_div)
    with False "1.IH" [OF refl refl False] c show ?thesis
      by (simp add: sprintf_dec64.simps [of v p] base_repr.simps [of 10 dec_table "unat v"] unat_div)
  qed
qed

lemma unat_and_0xf: "unat ((v :: 64 word) AND 0xf) = unat v mod 16"
proof -
  have "v AND 0xf = take_bit 4 v"
    by (simp add: take_bit_eq_mask mask_eq_exp_minus_1)
  then show ?thesis by (simp add: take_bit_eq_mod unat_mod)
qed

lemma sprintf_hex_repr: "sprintf_hex tab v p = base_repr 16 tab (unat v) @ p"
proof (induction tab v p rule: sprintf_hex.induct)
  case (1 tab v p)
  have u: "unat (drop_bit 4 v) = unat v div 16"
    by (simp add: drop_bit_eq_div unat_div)
  show ?case
  proof (cases "drop_bit 4 v = 0")
    case True
    then have "unat v < 16" using u by simp
    with True show ?thesis
      by (subst sprintf_hex.simps, subst base_repr.simps) (simp add: unat_and_0xf)
  next
    case False
    then have "\<not> unat v < 16" using u by (simp flip: unat_eq_zero)
    with False "1.IH" [OF refl refl False] show ?thesis
      by (simp add: sprintf_hex.simps [of tab v p] base_repr.simps [of 16 tab "unat v"] u unat_and_0xf)
  qed
qed

lemma sprintf_digits_repr:
  "sprintf_digits v h =
     (if h = 0 then base_repr 10 dec_table (unat v)
      else if h = 1 then base_repr 16 hex_lower (unat v)
      else base_repr 16 hex_upper (unat v))"
proof -
  have "unat (ucast v :: 32 word) = unat v" if "v \<le> 0xffffffff"
    using that by (simp add: word_le_nat_alt unsigned_ucast_eq take_bit_nat_eq_self_iff)
  then show ?thesis
    by (simp add: sprintf_digits_def sprintf_dec32_repr sprintf_dec64_repr sprintf_hex_repr)
qed


section \<open>Truncation\<close>

lemma put_None [simp]: "put None out xs = out @ xs"
  by (simp add: put_def)

lemma put_Some [simp]: "put (Some n) (take n out) xs = take n (out @ xs)"
  by (simp add: put_def min_def)

lemma room_None [simp]: "room None out"
  by (simp add: room_def)

lemma room_Some [simp]: "room (Some n) (take n out) = (length out < n)"
  by (auto simp: room_def)

lemma sprintf_num_truncated:
  "ngx_sprintf_num (Some n) (take n out) v z h w = take n (ngx_sprintf_num None out v z h w)"
  by (simp only: ngx_sprintf_num_def Let_def put_Some put_None)

lemma fmt_put_integer_truncated:
  "length out < n \<Longrightarrow>
     fmt_put_integer (Some n) (take n out) sp v = take n (fmt_put_integer None out sp v)"
  using sprintf_num_truncated [of n "out @ [ch_minus]"] sprintf_num_truncated [of n out]
  by (auto simp: fmt_put_integer_def)

lemma fmt_conv_truncated:
  assumes "fmt_conv None out sp c args = Some (out', args')" and "length out < n"
  shows "fmt_conv (Some n) (take n out) sp c args = Some (take n out', args')"
proof -
  have t: "take n out = out" and p: "put (Some n) out xs = take n (out @ xs)" for xs
    using assms(2) put_Some [of n out] by simp_all
  have i: "fmt_put_integer (Some n) out sp' v = take n (fmt_put_integer None out sp' v)" for sp' v
    using fmt_put_integer_truncated [OF assms(2)] by (simp add: t)
  show ?thesis
    using assms unfolding fmt_conv_def
    by (simp add: t p i Let_def split: if_split_asm list.split_asm ngx_arg.split_asm option.split_asm)
      (auto simp: t p i min_def split: prod.split_asm)
qed

lemma fmt_conv_extends:
  "fmt_conv None out sp c args = Some (out', args') \<Longrightarrow> \<exists>xs. out' = out @ xs"
  by (auto simp: fmt_conv_def fmt_put_integer_def ngx_sprintf_num_def Let_def
      split: if_splits list.splits ngx_arg.splits option.splits)

lemma vslprintf_extends:
  "ngx_vslprintf cap out fmt args = Some out' \<Longrightarrow> cap = None \<Longrightarrow> \<exists>xs. out' = out @ xs"
proof (induction cap out fmt args rule: ngx_vslprintf.induct)
  case (1 cap buf args)
  then show ?case by simp
next
  case (2 cap buf c fmt args)
  show ?case
  proof (cases "c = ch_percent")
    case False
    with 2(1) 2(3,4) show ?thesis by fastforce
  next
    case True
    with 2(2-4) show ?thesis
      by (force simp: Let_def split: prod.splits option.splits list.splits dest: fmt_conv_extends)
  qed
qed

lemma vslprintf_truncated:
  assumes "ngx_vslprintf None out fmt args = Some full"
  shows "ngx_vslprintf (Some n) (take n out) fmt args = Some (take n full)"
  using assms
proof (induction "None :: ngx_cap" out fmt args rule: ngx_vslprintf.induct)
  case (1 buf args)
  then show ?case by simp
next
  case (2 buf c fmt args)
  show ?case
  proof (cases "length buf < n")
    case False
    from vslprintf_extends [OF 2(3)] obtain xs where "full = buf @ xs" by blast
    with False show ?thesis by simp
  next
    case room: True
    show ?thesis
    proof (cases "c = ch_percent")
      case False
      with 2(1,3) room show ?thesis by (simp add: room_def)
    next
      case True
      with 2(2,3) room show ?thesis
        by (force simp: Let_def room_def split: prod.splits option.splits list.splits dest: fmt_conv_truncated)
    qed
  qed
qed

section \<open>Bounds\<close>

lemma put_bound: "length out \<le> n \<Longrightarrow> length (put (Some n) out xs) \<le> n"
  by (simp add: put_def)

lemma fmt_put_integer_bound:
  "length out < n \<Longrightarrow> length (fmt_put_integer (Some n) out sp v) \<le> n"
  by (simp add: fmt_put_integer_def ngx_sprintf_num_def Let_def put_bound)

lemma fmt_conv_bound:
  assumes "fmt_conv (Some n) out sp c args = Some (out', args')" and "length out < n"
  shows "length out' \<le> n"
  using assms put_bound [of out n] fmt_put_integer_bound [OF assms(2)] unfolding fmt_conv_def
  by (simp add: Let_def split: if_split_asm list.split_asm ngx_arg.split_asm option.split_asm prod.split_asm)
    auto

lemma vslprintf_bound:
  "ngx_vslprintf cap out fmt args = Some out' \<Longrightarrow> cap = Some n \<Longrightarrow> length out \<le> n \<Longrightarrow> length out' \<le> n"
proof (induction cap out fmt args rule: ngx_vslprintf.induct)
  case (1 cap buf args)
  then show ?case by simp
next
  case (2 cap buf c fmt args)
  show ?case
  proof (cases "room cap buf \<and> c = ch_percent")
    case True
    with 2(2-5) show ?thesis
      by (force simp: Let_def room_def split: prod.splits option.splits list.splits
          dest: fmt_conv_bound)
  next
    case False
    with 2(1,3-5) show ?thesis by (auto simp: room_def split: if_split_asm)
  qed
qed

text \<open>
  C35. The bounded formatter never writes past \<^verbatim>\<open>last\<close>: whatever the format and the
  arguments, at most \<open>n\<close> bytes are written, although several branches of
  \<^verbatim>\<open>ngx_vslprintf\<close> write a byte without a check of their own.
\<close>

theorem snprintf_in_bounds:
  "ngx_snprintf n fmt args = Some out \<Longrightarrow> length out \<le> n"
  by (rule vslprintf_bound) (auto simp: ngx_snprintf_def)

theorem snprintf_in_bounds_witness:
  "ngx_snprintf 5 (bytes ''id=%ui;'') [Arg64 12345] = Some (bytes ''id=12'')
     \<and> length (bytes ''id=12'') \<le> 5"
proof -
  have "ngx_snprintf 5 (bytes ''id=%ui;'') [Arg64 12345] = Some (bytes ''id=12'')" by code_simp
  then show ?thesis using snprintf_in_bounds [of 5] by blast
qed

text \<open>
  \<^verbatim>\<open>ngx_snprintf\<close> is \<^verbatim>\<open>ngx_sprintf\<close> cut at the limit: whenever the
  unbounded formatter produces \<open>full\<close>, the bounded one produces exactly the first
  \<open>n\<close> bytes of it.
\<close>

theorem snprintf_truncates_sprintf:
  "ngx_sprintf fmt args = Some full \<Longrightarrow> ngx_snprintf n fmt args = Some (take n full)"
  using vslprintf_truncated [of "[]" fmt args full n]
  by (simp add: ngx_sprintf_def ngx_snprintf_def)

theorem snprintf_truncates_sprintf_witness:
  "ngx_sprintf (bytes ''%V %4d.'') [ArgStr (bytes ''ab''), Arg32 7] = Some (bytes ''ab    7.'')
   \<and> ngx_snprintf 4 (bytes ''%V %4d.'') [ArgStr (bytes ''ab''), Arg32 7] = Some (take 4 (bytes ''ab    7.''))"
proof -
  have "ngx_sprintf (bytes ''%V %4d.'') [ArgStr (bytes ''ab''), Arg32 7] = Some (bytes ''ab    7.'')"
    by code_simp
  then show ?thesis using snprintf_truncates_sprintf by blast
qed

lemma sprintf_ui: "ngx_sprintf (bytes ''%ui'') [Arg64 v] = Some (base_repr 10 dec_table (unat v))"
  by (simp add: ngx_sprintf_def bytes_def fmt_spec_init_def fmt_conv_def fmt_is_integer_def
      fmt_integer_def arg64_def fmt_put_integer_def ngx_sprintf_num_def sprintf_digits_repr)

lemma sprintf_xi: "ngx_sprintf (bytes ''%xi'') [Arg64 v] = Some (base_repr 16 hex_lower (unat v))"
  by (simp add: ngx_sprintf_def bytes_def fmt_spec_init_def fmt_conv_def fmt_is_integer_def
      fmt_integer_def arg64_def fmt_put_integer_def ngx_sprintf_num_def sprintf_digits_repr)

text \<open>
  Printing and reading back: for a nonnegative \<^verbatim>\<open>ngx_int_t\<close>, what \<^verbatim>\<open>%ui\<close>
  prints is read back by \<^verbatim>\<open>ngx_atoi\<close> and what \<^verbatim>\<open>%xi\<close> prints is read back by
  \<^verbatim>\<open>ngx_hextoi\<close>; the digits always fit the 20 bytes of \<^verbatim>\<open>temp\<close> in
  \<^verbatim>\<open>ngx_sprintf_num\<close>.
\<close>

theorem sprintf_atoi_roundtrip:
  assumes "0 \<le> sint v"
  shows "(\<exists>ds. ngx_sprintf (bytes ''%ui'') [Arg64 v] = Some ds \<and> ngx_atoi ds = v \<and> length ds \<le> 20)
    \<and> (\<exists>hs. ngx_sprintf (bytes ''%xi'') [Arg64 v] = Some hs \<and> ngx_hextoi hs = v \<and> length hs \<le> 16)"
proof -
  have "unat v < 2 ^ 63"
    using assms sless_zero_iff [of v] by (simp add: word_sless_alt)
  then have r: "reader_result (Some (unat v)) = v" by (simp add: reader_result_def)
  have "unat v < 10 ^ Suc 19" "unat v < 16 ^ Suc 15"
    using unat64_less [of v] by (simp_all add: less_trans)
  then show ?thesis
    using base_repr_length [of 10 "unat v" 19] base_repr_length [of 16 "unat v" 15]
    by (simp_all add: sprintf_ui sprintf_xi atoi.reader_correct hextoi.reader_correct
        dec.repr_numeral hexl.repr_numeral r)
qed

theorem sprintf_atoi_roundtrip_witness:
  "(\<exists>ds. ngx_sprintf (bytes ''%ui'') [Arg64 80] = Some ds \<and> ngx_atoi ds = 80 \<and> length ds \<le> 20)
    \<and> (\<exists>hs. ngx_sprintf (bytes ''%xi'') [Arg64 80] = Some hs \<and> ngx_hextoi hs = 80 \<and> length hs \<le> 16)"
  by (rule sprintf_atoi_roundtrip) simp

end
