(* ===== verification/Ngx_Strings.thy ===== *)
theory Ngx_Strings
  imports Ngx_Prelude
begin

text \<open>
  Copying, comparing and searching in \<^verbatim>\<open>src/core/ngx_string.c\<close> and
  \<^verbatim>\<open>ngx_string.h\<close>. A pointer argument is
  the list of bytes from it to the end of its object; reading past that end is \<open>None\<close>.
  A returned pointer is an offset into the first argument, \<open>None\<close> for \<^verbatim>\<open>NULL\<close>.
\<close>

section \<open>Copying\<close>

fun ngx_strlow :: "ngx_str \<Rightarrow> nat \<Rightarrow> ngx_str option" where
  "ngx_strlow src 0 = Some []"
| "ngx_strlow [] (Suc n) = None"
| "ngx_strlow (c # src) (Suc n) = map_option ((#) (ngx_tolower c)) (ngx_strlow src n)"

text \<open>\<^verbatim>\<open>ngx_cpystrn\<close>: the bytes written, terminator included; the returned pointer is
  the position of the terminator, that is one less than the number of bytes written.\<close>

fun ngx_cpystrn_loop :: "ngx_str \<Rightarrow> nat \<Rightarrow> ngx_str option" where
  "ngx_cpystrn_loop src 0 = Some [0]"
| "ngx_cpystrn_loop [] (Suc n) = None"
| "ngx_cpystrn_loop (c # src) (Suc n) =
     (if c = 0 then Some [0] else map_option ((#) c) (ngx_cpystrn_loop src n))"

definition ngx_cpystrn :: "ngx_str \<Rightarrow> nat \<Rightarrow> ngx_str option" where
  "ngx_cpystrn src n = (if n = 0 then Some [] else ngx_cpystrn_loop src (n - 1))"

section \<open>Comparing\<close>

text \<open>The comparisons load bytes into \<^verbatim>\<open>ngx_uint_t\<close>s and fold the case there.\<close>

definition fold_case :: "u_char \<Rightarrow> ngx_uint" where
  "fold_case c = (let c1 = (ucast c :: ngx_uint) in if c1 \<ge> 0x41 \<and> c1 \<le> 0x5a then c1 OR 0x20 else c1)"

fun ngx_strcasecmp :: "ngx_str \<Rightarrow> ngx_str \<Rightarrow> ngx_int option" where
  "ngx_strcasecmp (x # s1) (y # s2) =
     (let c1 = fold_case x; c2 = fold_case y
      in if c1 = c2 then (if c1 \<noteq> 0 then ngx_strcasecmp s1 s2 else Some 0) else Some (c1 - c2))"
| "ngx_strcasecmp s1 s2 = None"

fun ngx_strncasecmp :: "ngx_str \<Rightarrow> ngx_str \<Rightarrow> nat \<Rightarrow> ngx_int option" where
  "ngx_strncasecmp s1 s2 0 = Some 0"
| "ngx_strncasecmp (x # s1) (y # s2) (Suc n) =
     (let c1 = fold_case x; c2 = fold_case y
      in if c1 = c2 then (if c1 \<noteq> 0 then ngx_strncasecmp s1 s2 n else Some 0) else Some (c1 - c2))"
| "ngx_strncasecmp s1 s2 (Suc n) = None"

text \<open>\<^verbatim>\<open>strncmp\<close> and \<^verbatim>\<open>memcmp\<close> of the C library: only the sign of the result matters.\<close>

fun ngx_strncmp :: "ngx_str \<Rightarrow> ngx_str \<Rightarrow> nat \<Rightarrow> int option" where
  "ngx_strncmp s1 s2 0 = Some 0"
| "ngx_strncmp (x # s1) (y # s2) (Suc n) =
     (if x \<noteq> y then Some (uint x - uint y) else if x = 0 then Some 0 else ngx_strncmp s1 s2 n)"
| "ngx_strncmp s1 s2 (Suc n) = None"

fun ngx_memcmp :: "ngx_str \<Rightarrow> ngx_str \<Rightarrow> nat \<Rightarrow> int option" where
  "ngx_memcmp s1 s2 0 = Some 0"
| "ngx_memcmp (x # s1) (y # s2) (Suc n) = (if x \<noteq> y then Some (uint x - uint y) else ngx_memcmp s1 s2 n)"
| "ngx_memcmp s1 s2 (Suc n) = None"

text \<open>\<^verbatim>\<open>ngx_rstrncmp\<close> and \<^verbatim>\<open>ngx_rstrncasecmp\<close> compare from index \<^verbatim>\<open>n - 1\<close> down.\<close>

fun ngx_rstrncmp :: "ngx_str \<Rightarrow> ngx_str \<Rightarrow> nat \<Rightarrow> int option" where
  "ngx_rstrncmp s1 s2 0 = Some 0"
| "ngx_rstrncmp s1 s2 (Suc n) =
     (case (rd s1 n, rd s2 n) of
        (Some x, Some y) \<Rightarrow> if x \<noteq> y then Some (uint x - uint y) else ngx_rstrncmp s1 s2 n
      | _ \<Rightarrow> None)"

definition raise_case :: "u_char \<Rightarrow> u_char" where
  "raise_case c = (if c \<ge> ch_a \<and> c \<le> ch_z then c - (0x61 - 0x41) else c)"

fun ngx_rstrncasecmp :: "ngx_str \<Rightarrow> ngx_str \<Rightarrow> nat \<Rightarrow> int option" where
  "ngx_rstrncasecmp s1 s2 0 = Some 0"
| "ngx_rstrncasecmp s1 s2 (Suc n) =
     (case (rd s1 n, rd s2 n) of
        (Some x, Some y) \<Rightarrow>
          (let c1 = raise_case x; c2 = raise_case y
           in if c1 \<noteq> c2 then Some (uint c1 - uint c2) else ngx_rstrncasecmp s1 s2 n)
      | _ \<Rightarrow> None)"

definition ngx_memn2cmp :: "ngx_str \<Rightarrow> ngx_str \<Rightarrow> nat \<Rightarrow> nat \<Rightarrow> int option" where
  "ngx_memn2cmp s1 s2 n1 n2 =
     (let (n, z) = (if n1 \<le> n2 then (n1, - 1) else (n2, 1))
      in case ngx_memcmp s1 s2 n of
           None \<Rightarrow> None
         | Some m \<Rightarrow> if m \<noteq> 0 \<or> n1 = n2 then Some m else Some z)"

fun ngx_dns_strcmp :: "ngx_str \<Rightarrow> ngx_str \<Rightarrow> ngx_int option" where
  "ngx_dns_strcmp (x # s1) (y # s2) =
     (let c1 = fold_case x; c2 = fold_case y
      in if c1 = c2 then (if c1 \<noteq> 0 then ngx_dns_strcmp s1 s2 else Some 0)
         else let c1' = (if c1 = 0x2e then 0x20 else c1);
                  c2' = (if c2 = 0x2e then 0x20 else c2)
              in Some (c1' - c2'))"
| "ngx_dns_strcmp s1 s2 = None"

section \<open>Searching\<close>

fun ngx_strlchr :: "nat \<Rightarrow> ngx_str \<Rightarrow> u_char \<Rightarrow> nat option" where
  "ngx_strlchr p [] c = None"
| "ngx_strlchr p (x # xs) c = (if x = c then Some p else ngx_strlchr (Suc p) xs c)"

text \<open>
  The search loops. \<open>p\<close> is the offset of \<open>s1\<close> in the string; \<open>c2\<close> and \<open>s2\<close> are the first
  character of the pattern and the rest. The two nested \<^verbatim>\<open>do\<close> loops of the C code read one
  byte per round, and so does the recursion.
\<close>

fun ngx_strnstr_loop :: "nat \<Rightarrow> ngx_str \<Rightarrow> nat \<Rightarrow> u_char \<Rightarrow> ngx_str \<Rightarrow> nat \<Rightarrow> nat option option" where
  "ngx_strnstr_loop p s1 0 c2 s2 n = Some None"
| "ngx_strnstr_loop p [] (Suc len) c2 s2 n = None"
| "ngx_strnstr_loop p (c1 # s1) (Suc len) c2 s2 n =
     (if c1 = 0 then Some None
      else if c1 \<noteq> c2 then ngx_strnstr_loop (Suc p) s1 len c2 s2 n
      else if n > len then Some None
      else case ngx_strncmp s1 s2 n of
             None \<Rightarrow> None
           | Some r \<Rightarrow> if r = 0 then Some (Some p) else ngx_strnstr_loop (Suc p) s1 len c2 s2 n)"

definition strlen :: "ngx_str \<Rightarrow> nat option" where
  "strlen s = (if 0 \<in> set s then Some (length (takeWhile (\<lambda>c. c \<noteq> 0) s)) else None)"

definition ngx_strnstr :: "ngx_str \<Rightarrow> ngx_str \<Rightarrow> nat \<Rightarrow> nat option option" where
  "ngx_strnstr s1 s2 len =
     (case s2 of [] \<Rightarrow> None
      | c2 # s2' \<Rightarrow> (case strlen s2' of None \<Rightarrow> None | Some n \<Rightarrow> ngx_strnstr_loop 0 s1 len c2 s2' n))"

fun ngx_strstrn_loop :: "nat \<Rightarrow> ngx_str \<Rightarrow> u_char \<Rightarrow> ngx_str \<Rightarrow> nat \<Rightarrow> nat option option" where
  "ngx_strstrn_loop p [] c2 s2 n = None"
| "ngx_strstrn_loop p (c1 # s1) c2 s2 n =
     (if c1 = 0 then Some None
      else if c1 \<noteq> c2 then ngx_strstrn_loop (Suc p) s1 c2 s2 n
      else case ngx_strncmp s1 s2 n of
             None \<Rightarrow> None
           | Some r \<Rightarrow> if r = 0 then Some (Some p) else ngx_strstrn_loop (Suc p) s1 c2 s2 n)"

definition ngx_strstrn :: "ngx_str \<Rightarrow> ngx_str \<Rightarrow> nat \<Rightarrow> nat option option" where
  "ngx_strstrn s1 s2 n = (case s2 of [] \<Rightarrow> None | c2 # s2' \<Rightarrow> ngx_strstrn_loop 0 s1 c2 s2' n)"

fun ngx_strcasestrn_loop :: "nat \<Rightarrow> ngx_str \<Rightarrow> ngx_uint \<Rightarrow> ngx_str \<Rightarrow> nat \<Rightarrow> nat option option" where
  "ngx_strcasestrn_loop p [] c2 s2 n = None"
| "ngx_strcasestrn_loop p (c1 # s1) c2 s2 n =
     (if c1 = 0 then Some None
      else if fold_case c1 \<noteq> c2 then ngx_strcasestrn_loop (Suc p) s1 c2 s2 n
      else case ngx_strncasecmp s1 s2 n of
             None \<Rightarrow> None
           | Some r \<Rightarrow> if r = 0 then Some (Some p) else ngx_strcasestrn_loop (Suc p) s1 c2 s2 n)"

definition ngx_strcasestrn :: "ngx_str \<Rightarrow> ngx_str \<Rightarrow> nat \<Rightarrow> nat option option" where
  "ngx_strcasestrn s1 s2 n =
     (case s2 of [] \<Rightarrow> None | c2 # s2' \<Rightarrow> ngx_strcasestrn_loop 0 s1 (fold_case c2) s2' n)"

text \<open>\<^verbatim>\<open>ngx_strlcasestrn\<close>: \<open>s1\<close> is the memory from \<^verbatim>\<open>s1\<close>, \<open>len\<close> is
  \<^verbatim>\<open>last - s1\<close>; after \<^verbatim>\<open>last -= n\<close> the loop stops when fewer than \<open>n + 1\<close> bytes
  are left before the old \<^verbatim>\<open>last\<close>.\<close>

fun ngx_strlcasestrn_loop :: "nat \<Rightarrow> ngx_str \<Rightarrow> nat \<Rightarrow> ngx_uint \<Rightarrow> ngx_str \<Rightarrow> nat \<Rightarrow> nat option option" where
  "ngx_strlcasestrn_loop p s1 0 c2 s2 n = Some None"
| "ngx_strlcasestrn_loop p [] (Suc len) c2 s2 n = (if len < n then Some None else None)"
| "ngx_strlcasestrn_loop p (c1 # s1) (Suc len) c2 s2 n =
     (if len < n then Some None
      else if fold_case c1 \<noteq> c2 then ngx_strlcasestrn_loop (Suc p) s1 len c2 s2 n
      else case ngx_strncasecmp s1 s2 n of
             None \<Rightarrow> None
           | Some r \<Rightarrow> if r = 0 then Some (Some p) else ngx_strlcasestrn_loop (Suc p) s1 len c2 s2 n)"

definition ngx_strlcasestrn :: "ngx_str \<Rightarrow> nat \<Rightarrow> ngx_str \<Rightarrow> nat \<Rightarrow> nat option option" where
  "ngx_strlcasestrn s1 len s2 n =
     (case s2 of [] \<Rightarrow> None | c2 # s2' \<Rightarrow> ngx_strlcasestrn_loop 0 s1 len (fold_case c2) s2' n)"

section \<open>Case folding and lexicographic comparison\<close>

lemma fold_case_tolower: "fold_case c = ucast (ngx_tolower c)"
proof -
  have "\<forall>c. fold_case c = ucast (ngx_tolower c)" unfolding byte_all by code_simp
  then show ?thesis by blast
qed

lemma fold_case_zero [simp]: "fold_case c = 0 \<longleftrightarrow> c = 0"
proof -
  have "\<forall>c. (fold_case c = 0) = (c = 0)" unfolding byte_all by code_simp
  then show ?thesis by blast
qed

lemma fold_case_eq_iff: "fold_case x = fold_case y \<longleftrightarrow> ngx_tolower x = ngx_tolower y"
  by (metis fold_case_tolower unat_ucast_byte(1) word_unat_eq_iff)

lemma fold_case_less: "unat (fold_case c) < 256"
  by (simp add: fold_case_tolower)

lemma sint_diff_small:
  assumes "unat (x :: 64 word) < 256" "unat y < 256"
  shows "sint (x - y) = int (unat x) - int (unat y)"
proof -
  have sx: "sint x = int (unat x)" "sint y = int (unat y)" using assms by (simp_all add: sint64_conv)
  have "sint (x - y) = signed_take_bit 63 (sint x - sint y)"
    using sint_word_diff [of x y] by simp
  also have "\<dots> = sint x - sint y"
  proof (rule signed_take_bit_int_eq_self)
    have p: "(2 :: int) ^ 63 = 9223372036854775808" by simp
    show "- (2 ^ 63) \<le> sint x - sint y" "sint x - sint y < 2 ^ 63"
      unfolding sx p using assms by linarith+
  qed
  finally show ?thesis by (simp only: sx)
qed

text \<open>The reference: lexicographic comparison of key sequences, a missing key counting as 0.\<close>

fun lexcmp :: "ngx_uint list \<Rightarrow> ngx_uint list \<Rightarrow> ngx_int" where
  "lexcmp [] [] = 0"
| "lexcmp [] (y # ys) = - y"
| "lexcmp (x # xs) [] = x"
| "lexcmp (x # xs) (y # ys) = (if x = y then lexcmp xs ys else x - y)"

definition small_keys :: "ngx_uint list \<Rightarrow> bool" where
  "small_keys xs \<longleftrightarrow> (\<forall>x \<in> set xs. 0 < unat x \<and> unat x < 256)"

lemma lexcmp_sign:
  "small_keys xs \<Longrightarrow> small_keys ys \<Longrightarrow> sint (lexcmp xs ys) < 0 \<longleftrightarrow> ord_class.lexordp xs ys"
  "small_keys xs \<Longrightarrow> small_keys ys \<Longrightarrow> lexcmp xs ys = 0 \<longleftrightarrow> xs = ys"
proof (induction xs ys rule: lexcmp.induct)
  case 1
  { case 1 then show ?case by simp }
  { case 2 then show ?case by simp }
next
  case (2 y ys)
  { case 1 then show ?case using sint_diff_small [of 0 y]
      by (simp add: small_keys_def del: of_nat_unat) }
  { case 2 then show ?case by (auto simp: small_keys_def) }
next
  case (3 x xs)
  { case 1 then show ?case using sint_diff_small [of x 0] by (simp add: small_keys_def) }
  { case 2 then show ?case by (auto simp: small_keys_def) }
next
  case (4 x xs y ys)
  { case 1 with 4 show ?case using sint_diff_small [of x y]
      by (auto simp: small_keys_def word_less_nat_alt word_unat_eq_iff simp del: of_nat_unat) }
  { case 2 with 4 show ?case by (auto simp: small_keys_def) }
qed

lemma strcasecmp_lex:
  assumes "0 \<notin> set a" and "0 \<notin> set b"
  shows "ngx_strcasecmp (a @ 0 # r1) (b @ 0 # r2) = Some (lexcmp (map fold_case a) (map fold_case b))"
  using assms
proof (induction "map fold_case a" "map fold_case b" arbitrary: a b rule: lexcmp.induct)
  case 1
  then show ?case by (simp add: Let_def)
next
  case (2 y ys)
  then show ?case by (cases b) (auto simp: Let_def fold_case_def)
next
  case (3 x xs)
  then show ?case by (cases a) (auto simp: Let_def fold_case_def)
next
  case (4 x xs y ys)
  then obtain x' a' y' b' where ab: "a = x' # a'" "b = y' # b'" by (cases a; cases b) auto
  with 4 show ?case by (auto simp: Let_def)
qed


lemma small_keys_fold: "0 \<notin> set a \<Longrightarrow> small_keys (map fold_case a)"
  by (auto simp: small_keys_def fold_case_less unat_gt_0)

lemma map_fold_case_eq_iff: "map fold_case a = map fold_case b \<longleftrightarrow> map ngx_tolower a = map ngx_tolower b"
proof (induction a arbitrary: b)
  case Nil
  then show ?case by auto
next
  case (Cons x a)
  then show ?case by (cases b) (auto simp: fold_case_eq_iff)
qed

lemma lexordp_map_fold: "ord_class.lexordp (map fold_case a) (map fold_case b) \<longleftrightarrow> ord_class.lexordp (map ngx_tolower a) (map ngx_tolower b)"
proof (induction a arbitrary: b)
  case Nil
  then show ?case by auto
next
  case (Cons x a)
  have less: "fold_case u < fold_case v \<longleftrightarrow> ngx_tolower u < ngx_tolower v" for u v
    by (simp add: fold_case_tolower word_less_nat_alt)
  show ?case using Cons by (cases b) (auto simp: less)
qed

text \<open>
  \<^verbatim>\<open>ngx_strcasecmp\<close> on two NUL-terminated strings returns, without reading past
  either terminator, 0 exactly when the strings are equal up to ASCII case, and a negative
  value exactly when the first is lexicographically smaller after folding.
\<close>

theorem strcasecmp_correct:
  assumes "0 \<notin> set a" and "0 \<notin> set b"
  shows "\<exists>r. ngx_strcasecmp (a @ 0 # r1) (b @ 0 # r2) = Some r
      \<and> (r = 0 \<longleftrightarrow> map ngx_tolower a = map ngx_tolower b)
      \<and> (sint r < 0 \<longleftrightarrow> ord_class.lexordp (map ngx_tolower a) (map ngx_tolower b))"
  using strcasecmp_lex [OF assms] lexcmp_sign [OF small_keys_fold small_keys_fold, OF assms]
  by (simp add: map_fold_case_eq_iff lexordp_map_fold)

theorem strcasecmp_correct_witness:
  "\<exists>r. ngx_strcasecmp (bytes ''Host'' @ [0]) (bytes ''hOST'' @ [0]) = Some r
      \<and> (r = 0 \<longleftrightarrow> map ngx_tolower (bytes ''Host'') = map ngx_tolower (bytes ''hOST''))
      \<and> (sint r < 0 \<longleftrightarrow> ord_class.lexordp (map ngx_tolower (bytes ''Host'')) (map ngx_tolower (bytes ''hOST'')))"
  by (rule strcasecmp_correct) (simp_all add: bytes_def)

section \<open>The order used for wildcard names\<close>

definition dns_key :: "u_char \<Rightarrow> ngx_uint" where
  "dns_key c = (if fold_case c = 0x2e then 0x20 else fold_case c)"

lemma dns_strcmp_lex:
  assumes "0 \<notin> set a" "ch_sp \<notin> set a" and "0 \<notin> set b" "ch_sp \<notin> set b"
  shows "ngx_dns_strcmp (a @ 0 # r1) (b @ 0 # r2) = Some (lexcmp (map dns_key a) (map dns_key b))"
  using assms
proof (induction "map dns_key a" "map dns_key b" arbitrary: a b rule: lexcmp.induct)
  case 1
  then show ?case by (simp add: Let_def)
next
  case (2 y ys)
  then show ?case by (cases b) (auto simp: Let_def fold_case_def dns_key_def)
next
  case (3 x xs)
  then show ?case by (cases a) (auto simp: Let_def fold_case_def dns_key_def)
next
  case (4 x xs y ys)
  then obtain x' a' y' b' where ab: "a = x' # a'" "b = y' # b'" by (cases a; cases b) auto
  have sp: "fold_case c = 0x20 \<longleftrightarrow> c = ch_sp" for c
  proof -
    have "\<forall>c. (fold_case c = 0x20) = (c = ch_sp)" unfolding byte_all by code_simp
    then show ?thesis by blast
  qed
  have "dns_key x' = dns_key y' \<longleftrightarrow> fold_case x' = fold_case y'"
    using 4(4-) ab sp [of x'] sp [of y'] by (auto simp: dns_key_def)
  with 4 ab show ?case by (auto simp: Let_def dns_key_def)
qed

section \<open>First occurrence\<close>

text \<open>The specification of a search: the first offset of the text where the pattern starts.\<close>

definition first_occurrence :: "('a list \<Rightarrow> bool) \<Rightarrow> 'a list \<Rightarrow> nat option" where
  "first_occurrence m xs = (case filter (\<lambda>p. m (drop p xs)) [0..<Suc (length xs)] of [] \<Rightarrow> None | p # _ \<Rightarrow> Some p)"

lemma first_occurrence_Some_iff:
  "first_occurrence m xs = Some p \<longleftrightarrow> p \<le> length xs \<and> m (drop p xs) \<and> (\<forall>q<p. \<not> m (drop q xs))"
proof -
  have "(\<exists>us. filter P [a..<b] = p # us) \<longleftrightarrow> a \<le> p \<and> p < b \<and> P p \<and> (\<forall>q. a \<le> q \<and> q < p \<longrightarrow> \<not> P q)"
    for P :: "nat \<Rightarrow> bool" and a b
  proof (induction "b - a" arbitrary: a)
    case 0
    then show ?case by simp
  next
    case (Suc k)
    then have ab: "[a..<b] = a # [Suc a..<b]" "a < b" by (simp_all add: upt_conv_Cons)
    have ih: "(\<exists>us. filter P [Suc a..<b] = p # us) \<longleftrightarrow> Suc a \<le> p \<and> p < b \<and> P p \<and> (\<forall>q. Suc a \<le> q \<and> q < p \<longrightarrow> \<not> P q)"
      by (rule Suc(1)) (use Suc(2) in simp)
    show ?case
    proof (cases "P a")
      case True
      then show ?thesis using ab by (auto simp: le_less)
    next
      case False
      then show ?thesis using ab ih by simp (metis Suc_le_eq le_less)
    qed
  qed
  from this [of "\<lambda>p. m (drop p xs)" 0 "Suc (length xs)"] show ?thesis
    by (auto simp: first_occurrence_def less_Suc_eq_le split: list.splits simp del: upt_Suc)
qed

lemma first_occurrence_Cons:
  "first_occurrence m (x # xs) = (if m (x # xs) then Some 0 else map_option Suc (first_occurrence m xs))"
proof -
  have "[0..<Suc (length (x # xs))] = 0 # map Suc [0..<Suc (length xs)]"
    by (simp add: upt_conv_Cons map_Suc_upt del: upt_Suc)
  then show ?thesis
    by (auto simp: first_occurrence_def filter_map o_def split: list.splits simp del: upt_Suc)
qed

lemma first_occurrence_Nil: "first_occurrence m [] = (if m [] then Some 0 else None)"
  by (simp add: first_occurrence_def)

lemma strncmp_prefix:
  assumes "0 \<notin> set p" and "length p \<le> length s"
  shows "\<exists>r. ngx_strncmp s (p @ 0 # t) (length p) = Some r \<and> (r = 0 \<longleftrightarrow> take (length p) s = p)"
  using assms
proof (induction p arbitrary: s)
  case Nil
  then show ?case by simp
next
  case (Cons x p)
  then obtain y s' where s: "s = y # s'" by (cases s) auto
  have "\<exists>r. ngx_strncmp s' (p @ 0 # t) (length p) = Some r \<and> (r = 0 \<longleftrightarrow> take (length p) s' = p)"
    using Cons s by simp
  then show ?case using s Cons.prems(1) by (auto simp: word_uint_eq_iff)
qed

definition starts_with :: "'a list \<Rightarrow> 'a list \<Rightarrow> bool" where
  "starts_with p xs \<longleftrightarrow> take (length p) xs = p"

lemma starts_with_Cons [simp]: "starts_with (c # p) (x # xs) \<longleftrightarrow> x = c \<and> starts_with p xs"
  by (auto simp: starts_with_def)

lemma starts_with_Nil [simp]: "starts_with (c # p) [] \<longleftrightarrow> False"
  by (simp add: starts_with_def)

lemma first_occurrence_short:
  "length xs < length p \<Longrightarrow> first_occurrence (starts_with p) xs = None"
proof (rule ccontr)
  assume l: "length xs < length p" and "first_occurrence (starts_with p) xs \<noteq> None"
  then obtain q where "take (length p) (drop q xs) = p"
    by (auto simp: first_occurrence_Some_iff starts_with_def)
  then have "length (take (length p) (drop q xs)) = length p" by simp
  with l show False by simp
qed

lemma map_option_plus [simp]:
  "map_option ((+) (0 :: nat)) x = x"
  "map_option ((+) (Suc p)) x = map_option (\<lambda>i. Suc (p + i)) x"
  by (cases x; simp)+

definition c_text :: "nat \<Rightarrow> ngx_str \<Rightarrow> ngx_str" where
  "c_text len s = takeWhile (\<lambda>c. c \<noteq> 0) (take len s)"

lemma take_c_text:
  assumes "0 \<notin> set p" and "length p \<le> len"
  shows "take (length p) s = p \<longleftrightarrow> starts_with p (c_text len s)"
  using assms
proof (induction p arbitrary: s len)
  case Nil
  then show ?case by (simp add: starts_with_def)
next
  case (Cons c p)
  then obtain len' where "len = Suc len'" by (cases len) auto
  with Cons show ?case by (cases s) (auto simp: c_text_def)
qed

lemma strnstr_loop_first:
  assumes "0 \<notin> set (c2 # pat)" and "len \<le> length s1"
  shows "ngx_strnstr_loop p s1 len c2 (pat @ 0 # r) (length pat)
     = Some (map_option ((+) p) (first_occurrence (starts_with (c2 # pat)) (c_text len s1)))"
  using assms
proof (induction len arbitrary: p s1)
  case 0
  then show ?case by (simp add: first_occurrence_Nil c_text_def)
next
  case (Suc len)
  then obtain c1 s1' where s1: "s1 = c1 # s1'" by (cases s1) auto
  have ct: "c_text (Suc len) (c # s1') = (if c = 0 then [] else c # c_text len s1')" for c
    by (simp add: c_text_def)
  have ih: "ngx_strnstr_loop (Suc p) s1' len c2 (pat @ 0 # r) (length pat)
     = Some (map_option ((+) p \<circ> Suc) (first_occurrence (starts_with (c2 # pat)) (c_text len s1')))"
    using Suc s1 by (simp add: o_def)
  have len: "length (c_text len s1') \<le> len"
    unfolding c_text_def by (metis length_takeWhile_le le_trans length_take min.cobounded2)
  show ?case
  proof (cases "c1 \<noteq> 0 \<and> c1 = c2 \<and> length pat \<le> len")
    case True
    moreover have "\<exists>r'. ngx_strncmp s1' (pat @ 0 # r) (length pat) = Some r'
        \<and> (r' = 0 \<longleftrightarrow> starts_with pat (c_text len s1'))"
      using strncmp_prefix [of pat s1'] take_c_text [of pat len s1'] True Suc.prems s1 by auto
    ultimately show ?thesis
      using ih by (auto simp: s1 ct first_occurrence_Cons option.map_comp o_def)
  next
    case False
    then show ?thesis
      using ih len first_occurrence_short [of "c1 # c_text len s1'" "c2 # pat"]
      by (auto simp: s1 ct first_occurrence_Cons first_occurrence_Nil option.map_comp o_def)
  qed
qed

text \<open>
  \<^verbatim>\<open>ngx_strnstr\<close> with a non-empty NUL-terminated pattern never reads outside the
  first \<open>len\<close> bytes and returns exactly the offset of the first occurrence of the pattern in
  the text those bytes hold up to their first NUL, and NULL when there is none.
\<close>

theorem strnstr_first_occurrence:
  assumes "pat \<noteq> []" and "0 \<notin> set pat" and "len \<le> length s1"
  shows "ngx_strnstr s1 (pat @ 0 # r) len
           = Some (first_occurrence (starts_with pat) (takeWhile (\<lambda>c. c \<noteq> 0) (take len s1)))"
proof -
  obtain c2 q where pat: "pat = c2 # q" using assms(1) by (cases pat) auto
  with assms(2) have "strlen (q @ 0 # r) = Some (length q)"
    by (auto simp: strlen_def takeWhile_append)
  with strnstr_loop_first [of c2 q len s1 0 r] assms pat show ?thesis
    by (simp add: ngx_strnstr_def c_text_def)
qed

theorem strnstr_first_occurrence_witness:
  "ngx_strnstr (bytes ''ab MSIE 6'') (bytes ''MSIE '' @ 0 # []) 9
     = Some (first_occurrence (starts_with (bytes ''MSIE '')) (takeWhile (\<lambda>c. c \<noteq> 0) (take 9 (bytes ''ab MSIE 6''))))"
  by (rule strnstr_first_occurrence) (simp_all add: bytes_def)

lemma strncasecmp_prefix:
  assumes "0 \<notin> set p" and "length p \<le> length s" and "length p \<le> length t" and "take (length p) t = p"
  shows "\<exists>r. ngx_strncasecmp s t (length p) = Some r
    \<and> (r = 0 \<longleftrightarrow> map ngx_tolower (take (length p) s) = map ngx_tolower p)"
  using assms
proof (induction p arbitrary: s t)
  case Nil
  then show ?case by simp
next
  case (Cons x p)
  then obtain y s' t' where s: "s = y # s'" "t = x # t'" by (cases s; cases t) auto
  have "\<exists>r. ngx_strncasecmp s' t' (length p) = Some r
      \<and> (r = 0 \<longleftrightarrow> map ngx_tolower (take (length p) s') = map ngx_tolower p)"
    using Cons s by simp
  moreover have "ngx_tolower 0 \<noteq> ngx_tolower x"
    using Cons.prems(1) fold_case_eq_iff [of 0 x] fold_case_zero [of x] by (auto simp: fold_case_def)
  ultimately show ?case using s Cons.prems(1) by (auto simp: Let_def fold_case_eq_iff)
qed

lemma strlcasestrn_loop_first:
  assumes "0 \<notin> set (c2 # pat)" and "len \<le> length s1"
  shows "ngx_strlcasestrn_loop p s1 len (fold_case c2) (pat @ r) (length pat)
     = Some (map_option ((+) p)
         (first_occurrence (starts_with (map ngx_tolower (c2 # pat))) (map ngx_tolower (take len s1))))"
  using assms
proof (induction len arbitrary: p s1)
  case 0
  then show ?case by (simp add: first_occurrence_Nil)
next
  case (Suc len)
  then obtain c1 s1' where s1: "s1 = c1 # s1'" by (cases s1) auto
  let ?m = "starts_with (map ngx_tolower (c2 # pat))"
  have ih: "ngx_strlcasestrn_loop (Suc p) s1' len (fold_case c2) (pat @ r) (length pat)
     = Some (map_option ((+) p \<circ> Suc) (first_occurrence ?m (map ngx_tolower (take len s1'))))"
    using Suc s1 by (simp add: o_def)
  show ?case
  proof (cases "length pat \<le> len")
    case True
    moreover have "\<exists>r'. ngx_strncasecmp s1' (pat @ r) (length pat) = Some r'
        \<and> (r' = 0 \<longleftrightarrow> starts_with (map ngx_tolower pat) (map ngx_tolower (take len s1')))"
      using strncasecmp_prefix [of pat s1' "pat @ r"] True Suc.prems s1
      by (auto simp: starts_with_def take_map min_def)
    ultimately show ?thesis
      using ih by (auto simp: s1 fold_case_eq_iff first_occurrence_Cons option.map_comp o_def)
  next
    case False
    then show ?thesis
      using Suc.prems s1 first_occurrence_short [of "map ngx_tolower (take (Suc len) s1)" "map ngx_tolower (c2 # pat)"]
      by simp
  qed
qed

text \<open>
  \<^verbatim>\<open>ngx_strlcasestrn\<close> called with the pattern length less one, as its callers do,
  reads only the bytes before \<^verbatim>\<open>last\<close> and returns exactly the first offset where the
  pattern occurs up to ASCII case, and NULL when there is none.
\<close>

theorem strlcasestrn_first_occurrence:
  assumes "pat \<noteq> []" and "0 \<notin> set pat" and "len \<le> length s1"
  shows "ngx_strlcasestrn s1 len (pat @ r) (length pat - 1)
           = Some (first_occurrence (starts_with (map ngx_tolower pat)) (map ngx_tolower (take len s1)))"
proof -
  obtain c2 q where pat: "pat = c2 # q" using assms(1) by (cases pat) auto
  with strlcasestrn_loop_first [of c2 q len s1 0 r] assms show ?thesis
    by (simp add: ngx_strlcasestrn_def)
qed

theorem strlcasestrn_first_occurrence_witness:
  "ngx_strlcasestrn (bytes ''x; PATH=/a'') 10 (bytes ''path='' @ []) (length (bytes ''path='') - 1)
     = Some (first_occurrence (starts_with (map ngx_tolower (bytes ''path='')))
              (map ngx_tolower (take 10 (bytes ''x; PATH=/a''))))"
  by (rule strlcasestrn_first_occurrence) (simp_all add: bytes_def)

section \<open>Counted and copied strings\<close>

lemma memcmp_lex:
  "\<exists>r. ngx_memcmp a b (min (length a) (length b)) = Some r
     \<and> (r = 0 \<longleftrightarrow> take (min (length a) (length b)) a = take (min (length a) (length b)) b)
     \<and> (r < 0 \<longleftrightarrow> ord_class.lexordp a b \<and> r \<noteq> 0) \<and> (r > 0 \<longleftrightarrow> ord_class.lexordp b a \<and> r \<noteq> 0)"
proof (induction a arbitrary: b)
  case Nil
  then show ?case by simp
next
  case (Cons x a)
  show ?case
  proof (cases b)
    case (Cons y b')
    with Cons.IH [of b'] show ?thesis
      by (auto simp: word_less_def word_uint_eq_iff)
  qed simp
qed

text \<open>
  \<^verbatim>\<open>ngx_memn2cmp\<close> of two counted strings returns without reading past either of
  them; the result is 0 exactly when they are equal and negative exactly when the first comes
  before the second in the dictionary order of bytes, so the nodes keyed by it are totally ordered.
\<close>

theorem memn2cmp_lexicographic:
  "\<exists>r. ngx_memn2cmp a b (length a) (length b) = Some r
     \<and> (r = 0 \<longleftrightarrow> a = b) \<and> (r < 0 \<longleftrightarrow> ord_class.lexordp a b) \<and> (r > 0 \<longleftrightarrow> ord_class.lexordp b a)"
proof -
  obtain r where r: "ngx_memcmp a b (min (length a) (length b)) = Some r"
    and z: "r = 0 \<longleftrightarrow> take (min (length a) (length b)) a = take (min (length a) (length b)) b"
    and s: "r < 0 \<longleftrightarrow> ord_class.lexordp a b \<and> r \<noteq> 0" "r > 0 \<longleftrightarrow> ord_class.lexordp b a \<and> r \<noteq> 0"
    using memcmp_lex [of a b] by blast
  have pre: "ord_class.lexordp u (u @ v) \<longleftrightarrow> v \<noteq> []" "\<not> ord_class.lexordp (u @ v) u" for u v :: ngx_str
    by (induction u) auto
  show ?thesis
  proof (cases "r = 0")
    case False
    with r z s show ?thesis by (auto simp: ngx_memn2cmp_def min_def)
  next
    case True
    show ?thesis
    proof (cases "length a \<le> length b")
      case le: True
      with z True have "take (length a) b = a" by (simp add: min_def)
      then obtain v where "b = a @ v" by (metis append_take_drop_id)
      with r True show ?thesis by (auto simp: ngx_memn2cmp_def pre)
    next
      case gt: False
      with z True have "take (length b) a = b" by (simp add: min_def)
      then obtain v where "a = b @ v" by (metis append_take_drop_id)
      with r True gt show ?thesis by (auto simp: ngx_memn2cmp_def pre)
    qed
  qed
qed

end
