(* ===== verification/Ngx_Sort.thy ===== *)
theory Ngx_Sort
  imports Ngx_Prelude "HOL-Library.Multiset"
begin

text \<open>
  The stable insertion sort \<^verbatim>\<open>ngx_sort\<close> of \<^verbatim>\<open>src/core/ngx_string.c\<close> and the
  comparison functions of the listen addresses
  (\<^verbatim>\<open>ngx_http.c\<close>, \<^verbatim>\<open>ngx_mail.c\<close>); the one of the upstream servers is in \<open>Ngx_Round_Robin\<close>. The locale \<open>comparator\<close> states what the sort
  needs from a comparison function.
\<close>

section \<open>Sorting\<close>

text \<open>
  \<^verbatim>\<open>ngx_sort\<close> on an array of elements: \<open>xs\<close> is the array, \<open>p1\<close> the index of the outer
  loop, \<open>p2\<close> that of the inner one, \<open>p\<close> the element held in the temporary.
\<close>

fun ngx_sort_inner :: "('a \<Rightarrow> 'a \<Rightarrow> int) \<Rightarrow> 'a \<Rightarrow> nat \<Rightarrow> 'a list \<Rightarrow> 'a list" where
  "ngx_sort_inner cmp p 0 xs = xs[0 := p]"
| "ngx_sort_inner cmp p (Suc p2) xs =
     (if cmp (xs ! p2) p > 0 then ngx_sort_inner cmp p p2 (xs[Suc p2 := xs ! p2])
      else xs[Suc p2 := p])"

function ngx_sort_outer :: "('a \<Rightarrow> 'a \<Rightarrow> int) \<Rightarrow> nat \<Rightarrow> 'a list \<Rightarrow> 'a list" where
  "ngx_sort_outer cmp p1 xs =
     (if p1 < length xs then ngx_sort_outer cmp (Suc p1) (ngx_sort_inner cmp (xs ! p1) p1 xs) else xs)"
  by pat_completeness auto

lemma ngx_sort_inner_length [simp]: "length (ngx_sort_inner cmp p p2 xs) = length xs"
  by (induction p2 arbitrary: xs) auto

termination ngx_sort_outer
  by (relation "measure (\<lambda>(cmp, p1, xs). length xs - p1)") auto

declare ngx_sort_outer.simps [simp del]

text \<open>\<open>alloc\<close>: whether \<^verbatim>\<open>ngx_alloc\<close> of the temporary succeeds; if not, the array is left
  unsorted.\<close>

definition ngx_sort :: "bool \<Rightarrow> ('a \<Rightarrow> 'a \<Rightarrow> int) \<Rightarrow> 'a list \<Rightarrow> 'a list" where
  "ngx_sort alloc cmp base = (if \<not> alloc then base else ngx_sort_outer cmp 1 base)"

text \<open>\<^verbatim>\<open>ngx_http_cmp_conf_addrs\<close> and its twin in the mail module.\<close>

record conf_addr =
  ca_addr :: ngx_str
  ca_wildcard :: bool
  ca_bind :: bool

definition ngx_http_cmp_conf_addrs :: "conf_addr \<Rightarrow> conf_addr \<Rightarrow> int" where
  "ngx_http_cmp_conf_addrs first second =
     (if ca_wildcard first then 1
      else if ca_bind first \<and> \<not> ca_bind second then - 1
      else if \<not> ca_bind first \<and> ca_bind second then 1
      else 0)"

definition ngx_mail_cmp_conf_addrs :: "conf_addr \<Rightarrow> conf_addr \<Rightarrow> int" where
  "ngx_mail_cmp_conf_addrs first second =
     (if ca_wildcard first then 1
      else if ca_bind first \<and> \<not> ca_bind second then - 1
      else if \<not> ca_bind first \<and> ca_bind second then 1
      else 0)"

section \<open>Insertion from the right\<close>

definition ins_right :: "('a \<Rightarrow> 'a \<Rightarrow> int) \<Rightarrow> 'a \<Rightarrow> 'a list \<Rightarrow> 'a list" where
  "ins_right cmp p ys =
     rev (dropWhile (\<lambda>y. cmp y p > 0) (rev ys)) @ [p] @ rev (takeWhile (\<lambda>y. cmp y p > 0) (rev ys))"

lemma sort_inner_insert:
  "ngx_sort_inner cmp p (length ys) (ys @ z # zs) = ins_right cmp p ys @ zs"
proof (induction ys arbitrary: z zs rule: rev_induct)
  case Nil
  then show ?case by (simp add: ins_right_def)
next
  case (snoc y ys)
  show ?case
    using snoc.IH [of y "y # zs"] snoc.IH [of y "p # zs"]
    by (auto simp: ins_right_def list_update_append nth_append)
qed

lemma ins_right_mset: "mset (ins_right cmp p ys) = add_mset p (mset ys)"
proof -
  have "mset ys = mset (rev ys)" by simp
  also have "\<dots> = mset (takeWhile (\<lambda>y. cmp y p > 0) (rev ys) @ dropWhile (\<lambda>y. cmp y p > 0) (rev ys))"
    by (simp only: takeWhile_dropWhile_id)
  finally have "mset ys = mset (takeWhile (\<lambda>y. cmp y p > 0) (rev ys))
      + mset (dropWhile (\<lambda>y. cmp y p > 0) (rev ys))"
    by (simp only: mset_append)
  then show ?thesis by (simp add: ins_right_def)
qed

lemma ins_right_set: "set (ins_right cmp p ys) = insert p (set ys)"
  using ins_right_mset [of cmp p ys] by (metis set_mset_mset set_mset_add_mset_insert)

lemma ins_right_length: "length (ins_right cmp p ys) = Suc (length ys)"
  using ins_right_mset [of cmp p ys] by (metis size_mset size_add_mset)

lemma sort_outer_fold:
  "ngx_sort_outer cmp (length ys) (ys @ zs) = foldl (\<lambda>acc x. ins_right cmp x acc) ys zs"
proof (induction zs arbitrary: ys)
  case Nil
  then show ?case by (simp add: ngx_sort_outer.simps)
next
  case (Cons z zs)
  have "ngx_sort_outer cmp (length ys) (ys @ z # zs)
      = ngx_sort_outer cmp (Suc (length ys)) (ins_right cmp z ys @ zs)"
    by (subst ngx_sort_outer.simps) (simp add: sort_inner_insert)
  also have "\<dots> = foldl (\<lambda>acc x. ins_right cmp x acc) (ins_right cmp z ys) zs"
    using Cons.IH [of "ins_right cmp z ys"] by (simp add: ins_right_length)
  finally show ?case by simp
qed

lemma ngx_sort_fold: "ngx_sort True cmp xs = foldl (\<lambda>acc x. ins_right cmp x acc) [] xs"
proof (cases xs)
  case Nil
  then show ?thesis by (simp add: ngx_sort_def ngx_sort_outer.simps)
next
  case (Cons x ys)
  then show ?thesis
    using sort_outer_fold [of cmp "[x]" ys] by (simp add: ngx_sort_def ins_right_def)
qed

text \<open>A comparison function: a total preorder on the elements it is used for.\<close>

locale comparator =
  fixes cmp :: "'a \<Rightarrow> 'a \<Rightarrow> int" and valid :: "'a \<Rightarrow> bool"
  assumes total_cmp: "valid x \<Longrightarrow> valid y \<Longrightarrow> cmp x y > 0 \<Longrightarrow> cmp y x \<le> 0"
    and trans_cmp: "valid x \<Longrightarrow> valid y \<Longrightarrow> valid z \<Longrightarrow> cmp x y \<le> 0 \<Longrightarrow> cmp y z \<le> 0 \<Longrightarrow> cmp x z \<le> 0"
begin

abbreviation le :: "'a \<Rightarrow> 'a \<Rightarrow> bool" where "le x y \<equiv> cmp x y \<le> 0"

abbreviation same :: "'a \<Rightarrow> 'a \<Rightarrow> bool" where "same x y \<equiv> le x y \<and> le y x"

text \<open>The elements that stay in front are not greater than the inserted one; those moved
  behind it are.\<close>

lemma ins_right_sorted:
  assumes "sorted_wrt le ys" and "list_all valid (p # ys)"
  shows "sorted_wrt le (ins_right cmp p ys)"
  using assms
proof (induction ys rule: rev_induct)
  case Nil
  then show ?case by (simp add: ins_right_def)
next
  case (snoc y ys)
  show ?case
  proof (cases "cmp y p > 0")
    case True
    then have eq: "ins_right cmp p (ys @ [y]) = ins_right cmp p ys @ [y]"
      by (simp add: ins_right_def)
    have "le p y" using True snoc.prems by (intro total_cmp) auto
    with snoc show ?thesis by (auto simp: eq sorted_wrt_append ins_right_set)
  next
    case False
    then have eq: "ins_right cmp p (ys @ [y]) = ys @ [y, p]" by (simp add: ins_right_def)
    have "le x p" if "x \<in> set ys" for x
      using that False snoc.prems by (intro trans_cmp [of x y p]) (auto simp: sorted_wrt_append list_all_iff)
    with False snoc.prems show ?thesis by (auto simp: eq sorted_wrt_append)
  qed
qed

lemma ins_right_stable:
  assumes "list_all valid (k # p # ys)"
  shows "filter (same k) (ins_right cmp p ys) = filter (same k) (ys @ [p])"
  using assms
proof (induction ys rule: rev_induct)
  case Nil
  then show ?case by (simp add: ins_right_def)
next
  case (snoc y ys)
  show ?case
  proof (cases "cmp y p > 0")
    case True
    then have "ins_right cmp p (ys @ [y]) = ins_right cmp p ys @ [y]" by (simp add: ins_right_def)
    moreover have "\<not> (same k y \<and> same k p)"
      using True snoc.prems trans_cmp [of y k p] by force
    ultimately show ?thesis using snoc by auto
  next
    case False
    then show ?thesis by (simp add: ins_right_def)
  qed
qed

lemma sort_mset: "mset (ngx_sort True cmp xs) = mset xs"
proof -
  have "mset (foldl (\<lambda>acc x. ins_right cmp x acc) ys xs) = mset ys + mset xs" for ys
    by (induction xs arbitrary: ys) (auto simp: ins_right_mset)
  then show ?thesis by (simp add: ngx_sort_fold)
qed

lemma sort_sorted:
  assumes "list_all valid xs"
  shows "sorted_wrt le (ngx_sort True cmp xs)"
proof -
  have "list_all valid xs \<Longrightarrow> list_all valid ys \<Longrightarrow> sorted_wrt le ys \<Longrightarrow>
      sorted_wrt le (foldl (\<lambda>acc x. ins_right cmp x acc) ys xs)" for ys
    by (induction xs arbitrary: ys) (auto simp: ins_right_sorted list_all_iff ins_right_set)
  with assms show ?thesis by (simp add: ngx_sort_fold)
qed

lemma sort_stable:
  assumes "list_all valid xs" and "valid k"
  shows "filter (same k) (ngx_sort True cmp xs) = filter (same k) xs"
proof -
  have "list_all valid xs \<Longrightarrow> list_all valid ys \<Longrightarrow>
      filter (same k) (foldl (\<lambda>acc x. ins_right cmp x acc) ys xs) = filter (same k) (ys @ xs)" for ys
  proof (induction xs arbitrary: ys)
    case (Cons x xs)
    have "list_all valid (ins_right cmp x ys)"
      using Cons.prems by (auto simp: list_all_iff ins_right_set)
    then show ?case
      using Cons ins_right_stable [of k x ys] assms(2) by (auto simp: list_all_iff)
  qed simp
  with assms show ?thesis by (simp add: ngx_sort_fold)
qed

end

section \<open>The comparison functions of nginx\<close>

text \<open>Addresses other than the wildcard are a total preorder: bound ones first.\<close>

interpretation http_addrs: comparator ngx_http_cmp_conf_addrs "\<lambda>a. \<not> ca_wildcard a"
  by unfold_locales (auto simp: ngx_http_cmp_conf_addrs_def split: if_splits)

interpretation mail_addrs: comparator ngx_mail_cmp_conf_addrs "\<lambda>a. \<not> ca_wildcard a"
  by unfold_locales (auto simp: ngx_mail_cmp_conf_addrs_def split: if_splits)

text \<open>
  A listen address that is both the wildcard and explicitly bound is sorted in front of an
  unbound address, although the comparison function means to shift it to the end.
\<close>

theorem wildcard_bind_sorted_first:
  "ngx_sort True ngx_http_cmp_conf_addrs
     [\<lparr>ca_addr = bytes ''10.0.0.1'', ca_wildcard = False, ca_bind = False\<rparr>,
      \<lparr>ca_addr = bytes ''0.0.0.0'', ca_wildcard = True, ca_bind = True\<rparr>]
   = [\<lparr>ca_addr = bytes ''0.0.0.0'', ca_wildcard = True, ca_bind = True\<rparr>,
      \<lparr>ca_addr = bytes ''10.0.0.1'', ca_wildcard = False, ca_bind = False\<rparr>]"
  by (simp add: ngx_sort_fold ins_right_def ngx_http_cmp_conf_addrs_def)

end
