(* ===== verification/Ngx_Hashing.thy ===== *)
theory Ngx_Hashing
  imports Ngx_Prelude
begin

unbundle bit_operations_syntax

text \<open>
  The checksums and hash functions of \<^verbatim>\<open>src/core\<close>: \<^verbatim>\<open>ngx_crc32.c\<close> and
  \<^verbatim>\<open>ngx_crc32.h\<close> (a 16-entry and a 256-entry table, one-shot and incremental),
  \<^verbatim>\<open>ngx_crc.h\<close>, \<^verbatim>\<open>ngx_murmurhash.c\<close> and the key functions of
  \<^verbatim>\<open>ngx_hash.c\<close>.
\<close>

section \<open>CRC32\<close>

definition ngx_crc32_table16 :: "uint32 list" where
  "ngx_crc32_table16 = [
     0x00000000, 0x1db71064, 0x3b6e20c8, 0x26d930ac, 0x76dc4190, 0x6b6b51f4, 0x4db26158, 0x5005713c,
     0xedb88320, 0xf00f9344, 0xd6d6a3e8, 0xcb61b38c, 0x9b64c2b0, 0x86d3d2d4, 0xa00ae278, 0xbdbdf21c]"

definition ngx_crc32_table256 :: "uint32 list" where
  "ngx_crc32_table256 = [
     0x00000000, 0x77073096, 0xee0e612c, 0x990951ba, 0x076dc419, 0x706af48f, 0xe963a535, 0x9e6495a3,
     0x0edb8832, 0x79dcb8a4, 0xe0d5e91e, 0x97d2d988, 0x09b64c2b, 0x7eb17cbd, 0xe7b82d07, 0x90bf1d91,
     0x1db71064, 0x6ab020f2, 0xf3b97148, 0x84be41de, 0x1adad47d, 0x6ddde4eb, 0xf4d4b551, 0x83d385c7,
     0x136c9856, 0x646ba8c0, 0xfd62f97a, 0x8a65c9ec, 0x14015c4f, 0x63066cd9, 0xfa0f3d63, 0x8d080df5,
     0x3b6e20c8, 0x4c69105e, 0xd56041e4, 0xa2677172, 0x3c03e4d1, 0x4b04d447, 0xd20d85fd, 0xa50ab56b,
     0x35b5a8fa, 0x42b2986c, 0xdbbbc9d6, 0xacbcf940, 0x32d86ce3, 0x45df5c75, 0xdcd60dcf, 0xabd13d59,
     0x26d930ac, 0x51de003a, 0xc8d75180, 0xbfd06116, 0x21b4f4b5, 0x56b3c423, 0xcfba9599, 0xb8bda50f,
     0x2802b89e, 0x5f058808, 0xc60cd9b2, 0xb10be924, 0x2f6f7c87, 0x58684c11, 0xc1611dab, 0xb6662d3d,
     0x76dc4190, 0x01db7106, 0x98d220bc, 0xefd5102a, 0x71b18589, 0x06b6b51f, 0x9fbfe4a5, 0xe8b8d433,
     0x7807c9a2, 0x0f00f934, 0x9609a88e, 0xe10e9818, 0x7f6a0dbb, 0x086d3d2d, 0x91646c97, 0xe6635c01,
     0x6b6b51f4, 0x1c6c6162, 0x856530d8, 0xf262004e, 0x6c0695ed, 0x1b01a57b, 0x8208f4c1, 0xf50fc457,
     0x65b0d9c6, 0x12b7e950, 0x8bbeb8ea, 0xfcb9887c, 0x62dd1ddf, 0x15da2d49, 0x8cd37cf3, 0xfbd44c65,
     0x4db26158, 0x3ab551ce, 0xa3bc0074, 0xd4bb30e2, 0x4adfa541, 0x3dd895d7, 0xa4d1c46d, 0xd3d6f4fb,
     0x4369e96a, 0x346ed9fc, 0xad678846, 0xda60b8d0, 0x44042d73, 0x33031de5, 0xaa0a4c5f, 0xdd0d7cc9,
     0x5005713c, 0x270241aa, 0xbe0b1010, 0xc90c2086, 0x5768b525, 0x206f85b3, 0xb966d409, 0xce61e49f,
     0x5edef90e, 0x29d9c998, 0xb0d09822, 0xc7d7a8b4, 0x59b33d17, 0x2eb40d81, 0xb7bd5c3b, 0xc0ba6cad,
     0xedb88320, 0x9abfb3b6, 0x03b6e20c, 0x74b1d29a, 0xead54739, 0x9dd277af, 0x04db2615, 0x73dc1683,
     0xe3630b12, 0x94643b84, 0x0d6d6a3e, 0x7a6a5aa8, 0xe40ecf0b, 0x9309ff9d, 0x0a00ae27, 0x7d079eb1,
     0xf00f9344, 0x8708a3d2, 0x1e01f268, 0x6906c2fe, 0xf762575d, 0x806567cb, 0x196c3671, 0x6e6b06e7,
     0xfed41b76, 0x89d32be0, 0x10da7a5a, 0x67dd4acc, 0xf9b9df6f, 0x8ebeeff9, 0x17b7be43, 0x60b08ed5,
     0xd6d6a3e8, 0xa1d1937e, 0x38d8c2c4, 0x4fdff252, 0xd1bb67f1, 0xa6bc5767, 0x3fb506dd, 0x48b2364b,
     0xd80d2bda, 0xaf0a1b4c, 0x36034af6, 0x41047a60, 0xdf60efc3, 0xa867df55, 0x316e8eef, 0x4669be79,
     0xcb61b38c, 0xbc66831a, 0x256fd2a0, 0x5268e236, 0xcc0c7795, 0xbb0b4703, 0x220216b9, 0x5505262f,
     0xc5ba3bbe, 0xb2bd0b28, 0x2bb45a92, 0x5cb36a04, 0xc2d7ffa7, 0xb5d0cf31, 0x2cd99e8b, 0x5bdeae1d,
     0x9b64c2b0, 0xec63f226, 0x756aa39c, 0x026d930a, 0x9c0906a9, 0xeb0e363f, 0x72076785, 0x05005713,
     0x95bf4a82, 0xe2b87a14, 0x7bb12bae, 0x0cb61b38, 0x92d28e9b, 0xe5d5be0d, 0x7cdcefb7, 0x0bdbdf21,
     0x86d3d2d4, 0xf1d4e242, 0x68ddb3f8, 0x1fda836e, 0x81be16cd, 0xf6b9265b, 0x6fb077e1, 0x18b74777,
     0x88085ae6, 0xff0f6a70, 0x66063bca, 0x11010b5c, 0x8f659eff, 0xf862ae69, 0x616bffd3, 0x166ccf45,
     0xa00ae278, 0xd70dd2ee, 0x4e048354, 0x3903b3c2, 0xa7672661, 0xd06016f7, 0x4969474d, 0x3e6e77db,
     0xaed16a4a, 0xd9d65adc, 0x40df0b66, 0x37d83bf0, 0xa9bcae53, 0xdebb9ec5, 0x47b2cf7f, 0x30b5ffe9,
     0xbdbdf21c, 0xcabac28a, 0x53b39330, 0x24b4a3a6, 0xbad03605, 0xcdd70693, 0x54de5729, 0x23d967bf,
     0xb3667a2e, 0xc4614ab8, 0x5d681b02, 0x2a6f2b94, 0xb40bbe37, 0xc30c8ea1, 0x5a05df1b, 0x2d02ef8d]"

text \<open>The bodies of the two loops.\<close>

definition crc32_short_step :: "uint32 \<Rightarrow> u_char \<Rightarrow> uint32" where
  "crc32_short_step crc c =
     (let crc = ngx_crc32_table16 ! unat ((crc XOR (ucast c AND 0xf)) AND 0xf) XOR drop_bit 4 crc
      in ngx_crc32_table16 ! unat ((crc XOR ucast (drop_bit 4 c)) AND 0xf) XOR drop_bit 4 crc)"

definition crc32_long_step :: "uint32 \<Rightarrow> u_char \<Rightarrow> uint32" where
  "crc32_long_step crc c = ngx_crc32_table256 ! unat ((crc XOR ucast c) AND 0xff) XOR drop_bit 8 crc"

definition ngx_crc32_short :: "ngx_str \<Rightarrow> uint32" where
  "ngx_crc32_short p = foldl crc32_short_step 0xffffffff p XOR 0xffffffff"

definition ngx_crc32_long :: "ngx_str \<Rightarrow> uint32" where
  "ngx_crc32_long p = foldl crc32_long_step 0xffffffff p XOR 0xffffffff"

definition ngx_crc32_init :: uint32 where "ngx_crc32_init = 0xffffffff"

definition ngx_crc32_update :: "uint32 \<Rightarrow> ngx_str \<Rightarrow> uint32" where
  "ngx_crc32_update crc p = foldl crc32_long_step crc p"

definition ngx_crc32_final :: "uint32 \<Rightarrow> uint32" where "ngx_crc32_final crc = crc XOR 0xffffffff"

section \<open>The other hashes\<close>

definition ngx_crc :: "ngx_str \<Rightarrow> uint32" where
  "ngx_crc data = foldl (\<lambda>sum c. (drop_bit 1 sum OR push_bit 31 sum) + ucast c) 0 data"

definition murmur_m :: uint32 where "murmur_m = 0x5bd1e995"

fun murmur_body :: "uint32 \<Rightarrow> ngx_str \<Rightarrow> uint32" where
  "murmur_body h (d0 # d1 # d2 # d3 # data) =
     (let k = ucast d0 OR push_bit 8 (ucast d1) OR push_bit 16 (ucast d2) OR push_bit 24 (ucast d3);
          k = k * murmur_m;
          k = k XOR drop_bit 24 k;
          k = k * murmur_m;
          h = h * murmur_m;
          h = h XOR k
      in murmur_body h data)"
| "murmur_body h [d0, d1, d2] =
     (let h = h XOR push_bit 16 (ucast d2); h = h XOR push_bit 8 (ucast d1) in (h XOR ucast d0) * murmur_m)"
| "murmur_body h [d0, d1] = (let h = h XOR push_bit 8 (ucast d1) in (h XOR ucast d0) * murmur_m)"
| "murmur_body h [d0] = (h XOR ucast d0) * murmur_m"
| "murmur_body h [] = h"

definition ngx_murmur_hash2 :: "ngx_str \<Rightarrow> uint32" where
  "ngx_murmur_hash2 data =
     (let h = murmur_body (0 XOR of_nat (length data)) data;
          h = h XOR drop_bit 13 h;
          h = h * murmur_m
      in h XOR drop_bit 15 h)"

definition ngx_hash :: "ngx_uint \<Rightarrow> u_char \<Rightarrow> ngx_uint" where
  "ngx_hash key c = key * 31 + ucast c"

definition ngx_hash_key :: "ngx_str \<Rightarrow> ngx_uint" where
  "ngx_hash_key data = foldl ngx_hash 0 data"

definition ngx_hash_key_lc :: "ngx_str \<Rightarrow> ngx_uint" where
  "ngx_hash_key_lc data = foldl (\<lambda>key c. ngx_hash key (ngx_tolower c)) 0 data"

text \<open>\<^verbatim>\<open>ngx_hash_strlow\<close>: the bytes written to \<^verbatim>\<open>dst\<close> and the key; \<open>None\<close> when
  \<open>src\<close> has fewer than \<open>n\<close> bytes.\<close>

fun hash_strlow_loop :: "ngx_uint \<Rightarrow> ngx_str \<Rightarrow> nat \<Rightarrow> (ngx_str \<times> ngx_uint) option" where
  "hash_strlow_loop key src 0 = Some ([], key)"
| "hash_strlow_loop key [] (Suc n) = None"
| "hash_strlow_loop key (c # src) (Suc n) =
     (let d = ngx_tolower c
      in map_option (\<lambda>(dst, k). (d # dst, k)) (hash_strlow_loop (ngx_hash key d) src n))"

definition ngx_hash_strlow :: "ngx_str \<Rightarrow> nat \<Rightarrow> (ngx_str \<times> ngx_uint) option" where
  "ngx_hash_strlow src n = hash_strlow_loop 0 src n"

section \<open>The tables compute the polynomial division\<close>

text \<open>The reference: one step of the bitwise division, eight per byte.\<close>

definition crc_bit :: "uint32 \<Rightarrow> uint32" where
  "crc_bit crc = drop_bit 1 crc XOR (if crc AND 1 = 0 then 0 else 0xedb88320)"

definition crc32_ref :: "ngx_str \<Rightarrow> uint32" where
  "crc32_ref p = foldl (\<lambda>crc c. (crc_bit ^^ 8) (crc XOR ucast c)) 0xffffffff p XOR 0xffffffff"

lemma crc_bit_odd: "crc_bit crc = drop_bit 1 crc XOR (if odd crc then 0xedb88320 else 0)"
proof -
  have "crc AND 1 = 0 \<longleftrightarrow> even crc" by (simp add: and_one_eq even_iff_mod_2_eq_zero)
  then show ?thesis by (simp add: crc_bit_def)
qed

lemma crc_bit_xor: "crc_bit (x XOR y) = crc_bit x XOR crc_bit y"
proof -
  have "odd (x XOR y) \<longleftrightarrow> odd x \<noteq> odd y" by (simp add: even_xor_iff)
  moreover have "drop_bit 1 (x XOR y) = drop_bit 1 x XOR drop_bit 1 y" by (rule drop_bit_xor)
  ultimately show ?thesis
    by (cases "odd x"; cases "odd y") (simp_all add: crc_bit_odd xor.assoc xor.left_commute xor.commute)
qed

lemma crc_bits_xor: "(crc_bit ^^ n) (x XOR y) = (crc_bit ^^ n) x XOR (crc_bit ^^ n) y"
  by (induction n) (simp_all add: crc_bit_xor)

lemma crc_bits_high:
  "take_bit n x = 0 \<Longrightarrow> (crc_bit ^^ n) x = drop_bit n x"
proof (induction n arbitrary: x)
  case (Suc n)
  have "even x" using Suc.prems by (metis even_take_bit_eq dvd_0_right nat.distinct(1))
  moreover have "take_bit n (drop_bit 1 x) = 0"
    using Suc.prems by (metis One_nat_def add.commute drop_bit_of_0 drop_bit_take_bit plus_1_eq_Suc diff_Suc_1 take_bit_drop_bit)
  ultimately show ?case
    using Suc.IH [of "drop_bit 1 x"] by (simp add: funpow_swap1 [symmetric] funpow_Suc_right crc_bit_odd drop_bit_Suc del: funpow.simps)
qed simp

lemma crc_bits_split:
  "(crc_bit ^^ n) x = (crc_bit ^^ n) (take_bit n x) XOR drop_bit n x"
proof -
  have "x = take_bit n x XOR push_bit n (drop_bit n x)"
    by (rule bit_word_eqI) (auto simp: bit_simps)
  then have "(crc_bit ^^ n) x = (crc_bit ^^ n) (take_bit n x) XOR (crc_bit ^^ n) (push_bit n (drop_bit n x))"
    by (metis crc_bits_xor)
  moreover have "take_bit n (push_bit n (drop_bit n x)) = 0" by (simp add: take_bit_push_bit)
  moreover have "drop_bit n (push_bit n (drop_bit n x)) = drop_bit n x"
    by (rule bit_word_eqI) (auto simp: bit_simps dest: bit_imp_le_length)
  ultimately show ?thesis by (simp add: crc_bits_high)
qed

text \<open>
  A table of a linear function of \<open>n\<close> bits is made of the table for \<open>n - 1\<close> bits and that
  table with the value of the top bit added, so that 255 additions check all 256 entries.
\<close>

definition is_table :: "nat \<Rightarrow> nat \<Rightarrow> uint32 list \<Rightarrow> bool" where
  "is_table m n t \<longleftrightarrow> length t = 2 ^ n \<and> (\<forall>k < 2 ^ n. t ! k = (crc_bit ^^ m) (of_nat k))"

definition double_table :: "uint32 list \<Rightarrow> uint32 \<Rightarrow> uint32 list" where
  "double_table t e = t @ map (\<lambda>x. x XOR e) t"

lemma of_nat_top_bit: "k < 2 ^ n \<Longrightarrow> of_nat (k + 2 ^ n) = (of_nat k :: uint32) XOR of_nat (2 ^ n)"
proof -
  assume "k < 2 ^ n"
  then have k: "take_bit n k = k" by (simp add: take_bit_nat_eq_self_iff)
  have "k AND 2 ^ n = 0"
    by (subst k [symmetric]) (rule bit_eqI, auto simp: bit_and_iff bit_take_bit_iff bit_exp_iff)
  then have "k + 2 ^ n = k XOR 2 ^ n" by (rule disjunctive_add_eq_xor)
  then show ?thesis by (simp only: of_nat_xor_eq)
qed

lemma double_table:
  assumes "is_table m n t" and "e = (crc_bit ^^ m) (of_nat (2 ^ n))"
  shows "is_table m (Suc n) (double_table t e)"
proof -
  have len: "length t = 2 ^ n" and ent: "\<And>k. k < 2 ^ n \<Longrightarrow> t ! k = (crc_bit ^^ m) (of_nat k)"
    using assms(1) by (auto simp: is_table_def)
  have "double_table t e ! k = (crc_bit ^^ m) (of_nat k)" if k: "k < 2 ^ Suc n" for k
  proof (cases "k < 2 ^ n")
    case True
    then show ?thesis by (simp add: double_table_def nth_append len ent)
  next
    case False
    then obtain j where j: "k = j + 2 ^ n" by (metis add.commute le_Suc_ex not_less)
    with k have "j < 2 ^ n" by simp
    then show ?thesis
      unfolding j by (simp add: double_table_def nth_append len ent assms(2) of_nat_top_bit crc_bits_xor del: of_nat_add)
  qed
  then show ?thesis by (simp add: is_table_def double_table_def len)
qed

lemma table256_doubled:
  "ngx_crc32_table256 = foldl double_table [0] [0x77073096, 0xee0e612c, 0x076dc419, 0x0edb8832, 0x1db71064,
     0x3b6e20c8, 0x76dc4190, 0xedb88320]"
  by code_simp

lemma table256_is_table: "is_table 8 8 ngx_crc32_table256"
proof -
  have "is_table 8 0 [0]" by (simp add: is_table_def) (simp add: numeral_eq_Suc crc_bit_def)
  moreover have "0x77073096 = (crc_bit ^^ 8) (of_nat (2 ^ 0))" "0xee0e612c = (crc_bit ^^ 8) (of_nat (2 ^ 1))"
    "0x076dc419 = (crc_bit ^^ 8) (of_nat (2 ^ 2))" "0x0edb8832 = (crc_bit ^^ 8) (of_nat (2 ^ 3))"
    "0x1db71064 = (crc_bit ^^ 8) (of_nat (2 ^ 4))" "0x3b6e20c8 = (crc_bit ^^ 8) (of_nat (2 ^ 5))"
    "0x76dc4190 = (crc_bit ^^ 8) (of_nat (2 ^ 6))" "0xedb88320 = (crc_bit ^^ 8) (of_nat (2 ^ 7))"
    by code_simp+
  ultimately have "is_table 8 (Suc (Suc (Suc (Suc (Suc (Suc (Suc (Suc 0)))))))) ngx_crc32_table256"
    unfolding table256_doubled by (simp only: foldl.simps) (intro double_table; simp add: numeral_eq_Suc)
  then show ?thesis by (simp add: numeral_eq_Suc)
qed

lemma table256_entry: "ngx_crc32_table256 ! unat (b :: u_char) = (crc_bit ^^ 8) (ucast b)"
  using table256_is_table unat_byte_less [of b] by (simp add: is_table_def)

lemma table16_entry: "k < 16 \<Longrightarrow> ngx_crc32_table16 ! k = (crc_bit ^^ 4) (of_nat k)"
proof -
  have "list_all (\<lambda>k. ngx_crc32_table16 ! k = (crc_bit ^^ 4) (of_nat k)) [0..<16]" by code_simp
  then show "k < 16 \<Longrightarrow> ?thesis" by (simp add: list_all_iff)
qed

lemma crc_bits_small:
  assumes "drop_bit n x = 0"
  shows "take_bit n x = x"
proof -
  have "push_bit n (drop_bit n x) + take_bit n x = x" by (rule bits_ident)
  then show ?thesis using assms by simp
qed

lemma crc32_long_step_ref: "crc32_long_step crc c = (crc_bit ^^ 8) (crc XOR ucast c)"
proof -
  let ?x = "crc XOR ucast c"
  have m: "(0xff :: uint32) = mask 8" by (simp add: mask_eq_exp_minus_1)
  have low: "take_bit 8 ?x = ucast (ucast ?x :: u_char)"
    by (rule bit_word_eqI) (auto simp: bit_simps)
  have "unat (?x AND 0xff) = unat (ucast ?x :: u_char)"
    unfolding m take_bit_eq_mask [symmetric] low by (rule unat_ucast_byte)
  moreover have "drop_bit 8 ?x = drop_bit 8 crc"
    by (rule bit_word_eqI) (auto simp: bit_simps dest: bit_imp_le_length)
  ultimately show ?thesis
    using crc_bits_split [of 8 ?x] by (simp only: crc32_long_step_def table256_entry low)
qed

lemma table16_step:
  "ngx_crc32_table16 ! unat ((crc XOR n) AND 0xf) XOR drop_bit 4 (crc XOR n) = (crc_bit ^^ 4) (crc XOR n)"
proof -
  have m: "(0xf :: uint32) = mask 4" by (simp add: mask_eq_exp_minus_1)
  have "unat (take_bit 4 (crc XOR n)) < 16"
    by (simp only: unsigned_take_bit_eq) (use take_bit_nat_less_exp [of 4 "unat (crc XOR n)"] in simp)
  then show ?thesis
    using crc_bits_split [of 4 "crc XOR n"]
    by (simp add: m take_bit_eq_mask [symmetric] table16_entry)
qed

lemma crc32_short_step_ref: "crc32_short_step crc c = (crc_bit ^^ 8) (crc XOR ucast c)"
proof -
  let ?lo = "ucast c AND 0xf :: uint32" and ?hi = "ucast (drop_bit 4 c) :: uint32"
  have m: "(0xf :: uint32) = mask 4" by (simp add: mask_eq_exp_minus_1)
  have z: "drop_bit 4 (crc XOR ?lo) = drop_bit 4 crc" for crc
    unfolding m by (rule bit_word_eqI) (auto simp: bit_simps)
  have z': "drop_bit 4 (crc XOR ?hi) = drop_bit 4 crc" for crc
    by (rule bit_word_eqI) (auto simp: bit_simps dest: bit_imp_le_length)
  have one: "ngx_crc32_table16 ! unat ((crc XOR ?lo) AND 0xf) XOR drop_bit 4 crc = (crc_bit ^^ 4) (crc XOR ?lo)"
    using table16_step [of crc ?lo] by (simp only: z)
  have two: "ngx_crc32_table16 ! unat ((y XOR ?hi) AND 0xf) XOR drop_bit 4 y = (crc_bit ^^ 4) (y XOR ?hi)" for y
    using table16_step [of y ?hi] by (simp only: z')
  have hi: "(crc_bit ^^ 4) (push_bit 4 ?hi) = ?hi"
  proof -
    have "take_bit 4 (push_bit 4 ?hi) = 0" by (simp add: take_bit_push_bit)
    moreover have "drop_bit 4 (push_bit 4 ?hi) = ?hi"
      by (rule bit_word_eqI) (auto simp: bit_simps dest: bit_imp_le_length)
    ultimately show ?thesis by (simp add: crc_bits_high)
  qed
  have "crc XOR ucast c = (crc XOR ?lo) XOR push_bit 4 ?hi"
    unfolding m by (rule bit_word_eqI) (auto simp: bit_simps)
  then have "(crc_bit ^^ 4) (crc XOR ucast c) = (crc_bit ^^ 4) (crc XOR ?lo) XOR ?hi"
    by (simp add: crc_bits_xor hi)
  moreover have "(crc_bit ^^ 8) x = (crc_bit ^^ 4) ((crc_bit ^^ 4) x)" for x
    using funpow_add [of 4 4 crc_bit] by (simp add: fun_eq_iff)
  ultimately show ?thesis by (simp add: crc32_short_step_def Let_def one two)
qed

text \<open>
  C34. Both table-driven CRC32 routines compute the bitwise polynomial division of the PNG
  specification on every input, so the short and the long one agree, and so does the
  incremental interface on any way of cutting the input in two.
\<close>

theorem crc32_tables_correct:
  "ngx_crc32_short p = crc32_ref p \<and> ngx_crc32_long p = crc32_ref p
   \<and> ngx_crc32_final (ngx_crc32_update (ngx_crc32_update ngx_crc32_init p) q) = crc32_ref (p @ q)"
proof -
  have "crc32_short_step = (\<lambda>crc c. (crc_bit ^^ 8) (crc XOR ucast c))"
    "crc32_long_step = (\<lambda>crc c. (crc_bit ^^ 8) (crc XOR ucast c))"
    by (simp_all add: fun_eq_iff crc32_short_step_ref crc32_long_step_ref)
  then show ?thesis
    by (simp add: ngx_crc32_short_def ngx_crc32_long_def ngx_crc32_final_def ngx_crc32_update_def
        ngx_crc32_init_def crc32_ref_def)
qed

section \<open>Hash keys\<close>

fun poly31 :: "ngx_str \<Rightarrow> nat" where
  "poly31 [] = 0"
| "poly31 (c # data) = unat c * 31 ^ length data + poly31 data"

lemma foldl_ngx_hash: "foldl ngx_hash key data = key * 31 ^ length data + of_nat (poly31 data)"
proof (induction data arbitrary: key)
  case (Cons c data)
  have "(ucast c :: ngx_uint) = of_nat (unat c)" by simp
  then show ?case using Cons by (simp add: ngx_hash_def algebra_simps)
qed simp

lemma foldl_hash_lc: "foldl (\<lambda>key c. ngx_hash key (ngx_tolower c)) key data = foldl ngx_hash key (map ngx_tolower data)"
  by (induction data arbitrary: key) auto

lemma hash_strlow_loop_correct:
  "n \<le> length src \<Longrightarrow> hash_strlow_loop key src n
     = Some (map ngx_tolower (take n src), foldl ngx_hash key (map ngx_tolower (take n src)))"
  by (induction key src n rule: hash_strlow_loop.induct) (auto simp: Let_def)

text \<open>
  The hash keys: \<^verbatim>\<open>ngx_hash_key\<close> is the base-31 polynomial of the bytes modulo
  \<open>2 ^ 64\<close>; \<^verbatim>\<open>ngx_hash_key_lc\<close> is the key of the lowercased bytes; and
  \<^verbatim>\<open>ngx_hash_strlow\<close> writes the lowercased bytes and returns that same key, so a name
  hashed while it is copied is found under the key computed from the copy.
\<close>

theorem hash_keys_agree:
  "ngx_hash_key data = of_nat (poly31 data)
   \<and> ngx_hash_key_lc data = ngx_hash_key (map ngx_tolower data)
   \<and> ngx_hash_strlow data (length data) = Some (map ngx_tolower data, ngx_hash_key_lc data)"
  by (simp add: ngx_hash_key_def ngx_hash_key_lc_def ngx_hash_strlow_def foldl_ngx_hash foldl_hash_lc
      hash_strlow_loop_correct)

end
