(* ===== verification/Ngx_Http_Scan.thy ===== *)
theory Ngx_Http_Scan
  imports Ngx_Prelude
begin

text \<open>
  What the streaming parsers of \<^verbatim>\<open>src/http/ngx_http_parse.c\<close> share: the request fields
  they fill in (\<^verbatim>\<open>ngx_http_request_t\<close>), the return codes, the byte loop
  \<^verbatim>\<open>for (p = b->pos; p < b->last; p++)\<close> and the contract that makes a parser resumable.
  A pointer into the buffer is its offset from the start of the memory, \<open>None\<close> is
  \<^verbatim>\<open>NULL\<close>. The memory of the buffer is a byte list.
\<close>

section \<open>Codes and request fields\<close>

definition NGX_HTTP_PARSE_HEADER_DONE :: ngx_int where [ngx_rc]: "NGX_HTTP_PARSE_HEADER_DONE = 1"
definition NGX_HTTP_PARSE_INVALID_METHOD :: ngx_int where [ngx_rc]: "NGX_HTTP_PARSE_INVALID_METHOD = 10"
definition NGX_HTTP_PARSE_INVALID_REQUEST :: ngx_int where [ngx_rc]: "NGX_HTTP_PARSE_INVALID_REQUEST = 11"
definition NGX_HTTP_PARSE_INVALID_09_METHOD :: ngx_int where [ngx_rc]: "NGX_HTTP_PARSE_INVALID_09_METHOD = 12"
definition NGX_HTTP_PARSE_INVALID_HEADER :: ngx_int where [ngx_rc]: "NGX_HTTP_PARSE_INVALID_HEADER = 13"

definition NGX_HTTP_UNKNOWN :: ngx_uint where "NGX_HTTP_UNKNOWN = 0x0001"
definition NGX_HTTP_GET :: ngx_uint where "NGX_HTTP_GET = 0x0002"
definition NGX_HTTP_HEAD :: ngx_uint where "NGX_HTTP_HEAD = 0x0004"
definition NGX_HTTP_POST :: ngx_uint where "NGX_HTTP_POST = 0x0008"
definition NGX_HTTP_PUT :: ngx_uint where "NGX_HTTP_PUT = 0x0010"
definition NGX_HTTP_DELETE :: ngx_uint where "NGX_HTTP_DELETE = 0x0020"
definition NGX_HTTP_MKCOL :: ngx_uint where "NGX_HTTP_MKCOL = 0x0040"
definition NGX_HTTP_COPY :: ngx_uint where "NGX_HTTP_COPY = 0x0080"
definition NGX_HTTP_MOVE :: ngx_uint where "NGX_HTTP_MOVE = 0x0100"
definition NGX_HTTP_OPTIONS :: ngx_uint where "NGX_HTTP_OPTIONS = 0x0200"
definition NGX_HTTP_PROPFIND :: ngx_uint where "NGX_HTTP_PROPFIND = 0x0400"
definition NGX_HTTP_PROPPATCH :: ngx_uint where "NGX_HTTP_PROPPATCH = 0x0800"
definition NGX_HTTP_LOCK :: ngx_uint where "NGX_HTTP_LOCK = 0x1000"
definition NGX_HTTP_UNLOCK :: ngx_uint where "NGX_HTTP_UNLOCK = 0x2000"
definition NGX_HTTP_PATCH :: ngx_uint where "NGX_HTTP_PATCH = 0x4000"
definition NGX_HTTP_TRACE :: ngx_uint where "NGX_HTTP_TRACE = 0x8000"

definition NGX_HTTP_LC_HEADER_LEN :: nat where "NGX_HTTP_LC_HEADER_LEN = 32"

record http_request =
  r_state :: nat
  r_method :: ngx_uint
  r_http_version :: ngx_uint
  r_request_start :: "nat option"
  r_request_end :: "nat option"
  r_method_end :: "nat option"
  r_schema_start :: "nat option"
  r_schema_end :: "nat option"
  r_host_start :: "nat option"
  r_host_end :: "nat option"
  r_port_end :: "nat option"
  r_uri_start :: "nat option"
  r_uri_end :: "nat option"
  r_uri_ext :: "nat option"
  r_args_start :: "nat option"
  r_http_protocol :: "nat option"
  r_http_minor :: "16 word"
  r_http_major :: "16 word"
  r_complex_uri :: bool
  r_quoted_uri :: bool
  r_plus_in_uri :: bool
  r_space_in_uri :: bool
  r_invalid_header :: bool
  r_upstream :: bool
  r_header_hash :: ngx_uint
  r_lowcase_index :: nat
  r_lowcase_header :: ngx_str
  r_header_name_start :: "nat option"
  r_header_name_end :: "nat option"
  r_header_start :: "nat option"
  r_header_end :: "nat option"

text \<open>
  A request as \<^verbatim>\<open>ngx_http_init_request\<close> leaves it: \<^verbatim>\<open>ngx_pcalloc\<close> zeroes the
  structure, then the method is set to \<^verbatim>\<open>NGX_HTTP_UNKNOWN\<close>.
\<close>

definition ngx_http_new_request :: http_request where
  "ngx_http_new_request =
     \<lparr>r_state = 0, r_method = NGX_HTTP_UNKNOWN, r_http_version = 0, r_request_start = None,
      r_request_end = None, r_method_end = None, r_schema_start = None, r_schema_end = None,
      r_host_start = None, r_host_end = None, r_port_end = None, r_uri_start = None, r_uri_end = None,
      r_uri_ext = None, r_args_start = None, r_http_protocol = None, r_http_minor = 0, r_http_major = 0,
      r_complex_uri = False, r_quoted_uri = False, r_plus_in_uri = False, r_space_in_uri = False,
      r_invalid_header = False, r_upstream = False, r_header_hash = 0, r_lowcase_index = 0,
      r_lowcase_header = replicate NGX_HTTP_LC_HEADER_LEN 0, r_header_name_start = None,
      r_header_name_end = None, r_header_start = None, r_header_end = None\<rparr>"

section \<open>The byte loop\<close>

text \<open>
  How the body of the loop ends: with \<^verbatim>\<open>break\<close> out of the \<^verbatim>\<open>switch\<close>, by
  \<^verbatim>\<open>goto done\<close> or \<^verbatim>\<open>goto header_done\<close>, or with a \<^verbatim>\<open>return\<close>. The value is what
  the local variables and the request have become.
\<close>

datatype 'x scan_step = Break 'x | Goto_done 'x | Goto_header_done 'x | Return ngx_int 'x

fun scan :: "(nat \<Rightarrow> u_char \<Rightarrow> 'x \<Rightarrow> 'x scan_step) \<Rightarrow> nat \<Rightarrow> ngx_str \<Rightarrow> 'x \<Rightarrow> nat \<times> 'x scan_step" where
  "scan f p [] x = (p, Break x)"
| "scan f p (ch # s) x = (case f p ch x of Break x' \<Rightarrow> scan f (Suc p) s x' | a \<Rightarrow> (p, a))"

text \<open>The bytes from offset \<open>a\<close> up to \<open>b\<close>.\<close>

definition window :: "ngx_str \<Rightarrow> nat \<Rightarrow> nat \<Rightarrow> ngx_str" where
  "window mem a b = take (b - a) (drop a mem)"

lemma window_length [simp]: "b \<le> length mem \<Longrightarrow> length (window mem a b) = b - a"
  by (simp add: window_def)

lemma window_nth: "b \<le> length mem \<Longrightarrow> a + i < b \<Longrightarrow> window mem a b ! i = mem ! (a + i)"
  by (simp add: window_def)

lemma window_append:
  assumes "a \<le> n" "n \<le> b"
  shows "window mem a b = window mem a n @ window mem n b"
proof -
  have "take ((n - a) + (b - n)) (drop a mem) = take (n - a) (drop a mem) @ take (b - n) (drop (n - a) (drop a mem))"
    by (rule take_add)
  moreover have "(n - a) + (b - n) = b - a" "drop (n - a) (drop a mem) = drop n mem"
    using assms by simp_all
  ultimately show ?thesis by (simp only: window_def)
qed

lemma window_take [simp]: "b \<le> n \<Longrightarrow> window (take n mem) a b = window mem a b"
  by (simp add: window_def drop_take min_def)

lemma window_empty [simp]: "window mem a a = []" "b \<le> a \<Longrightarrow> window mem a b = []"
  by (simp_all add: window_def)

lemma scan_append:
  "scan f p (s @ t) x = (case scan f p s x of (q, Break x') \<Rightarrow> scan f q t x' | r \<Rightarrow> r)"
  by (induction f p s x rule: scan.induct) (auto split: scan_step.splits)

lemma scan_end: "scan f p s x = (q, Break y) \<Longrightarrow> q = p + length s"
  by (induction f p s x rule: scan.induct) (auto split: scan_step.splits)

text \<open>Invariants of the loop: \<open>I\<close> before every byte, \<open>J\<close> where the loop is left.\<close>

lemma scan_invariant:
  assumes "I p x"
    and "\<And>q y. I q y \<Longrightarrow> p \<le> q \<Longrightarrow> q < p + length s \<Longrightarrow>
          (case f q (s ! (q - p)) y of Break y' \<Rightarrow> I (Suc q) y' | a \<Rightarrow> J q a)"
  shows "case scan f p s x of (q, Break y) \<Rightarrow> q = p + length s \<and> I q y
         | (q, a) \<Rightarrow> p \<le> q \<and> q < p + length s \<and> J q a"
  using assms
proof (induction f p s x rule: scan.induct)
  case (1 f p x)
  then show ?case by simp
next
  case (2 f p ch s x)
  have st: "case f p ch x of Break y' \<Rightarrow> I (Suc p) y' | a \<Rightarrow> J p a"
    using 2(3) [of p x] 2(2) by simp
  show ?case
  proof (cases "f p ch x")
    case (Break y)
    have "case scan f (Suc p) s y of (q, Break y) \<Rightarrow> q = Suc p + length s \<and> I q y
         | (q, a) \<Rightarrow> Suc p \<le> q \<and> q < Suc p + length s \<and> J q a"
    proof (rule 2(1) [OF Break])
      show "I (Suc p) y" using st Break by simp
      fix q z assume q: "I q z" "Suc p \<le> q" "q < Suc p + length s"
      then have "(ch # s) ! (q - p) = s ! (q - Suc p)" by (simp add: nth_Cons')
      then show "case f q (s ! (q - Suc p)) z of Break y' \<Rightarrow> I (Suc q) y' | a \<Rightarrow> J q a"
        using 2(3) [of q z] q by simp
    qed
    then show ?thesis using Break by (auto split: scan_step.splits prod.splits)
  qed (use st in simp_all)
qed

text \<open>The same over a window of the memory.\<close>

lemma scan_window_invariant:
  assumes "I a x" and "a \<le> b" and "b \<le> length mem"
    and "\<And>q y. I q y \<Longrightarrow> a \<le> q \<Longrightarrow> q < b \<Longrightarrow>
          (case f q (mem ! q) y of Break y' \<Rightarrow> I (Suc q) y' | s \<Rightarrow> J q s)"
  shows "case scan f a (window mem a b) x of (q, Break y) \<Rightarrow> q = b \<and> I q y
         | (q, s) \<Rightarrow> a \<le> q \<and> q < b \<and> J q s"
proof -
  have "case scan f a (window mem a b) x of (q, Break y) \<Rightarrow> q = a + length (window mem a b) \<and> I q y
         | (q, s) \<Rightarrow> a \<le> q \<and> q < a + length (window mem a b) \<and> J q s"
    by (rule scan_invariant) (use assms in \<open>auto simp: window_nth\<close>)
  then show ?thesis using assms by (auto split: scan_step.splits prod.splits)
qed

section \<open>Resumable parsers\<close>

text \<open>
  The contract of a parser body: it looks at the memory up to the current byte only. Then a
  parser may be stopped at the end of the received bytes and go on when more have come.
\<close>

locale resumable =
  fixes body :: "ngx_str \<Rightarrow> nat \<Rightarrow> u_char \<Rightarrow> 'x \<Rightarrow> 'x scan_step"
  assumes body_local: "take (Suc p) m = take (Suc p) m' \<Longrightarrow> body m p ch x = body m' p ch x"
begin

lemma scan_local:
  "take n m = take n m' \<Longrightarrow> p + length s \<le> n \<Longrightarrow> scan (body m) p s x = scan (body m') p s x"
proof (induction s arbitrary: p x)
  case (Cons ch s)
  have "take (Suc p) m = take (Suc p) (take n m)" "take (Suc p) m' = take (Suc p) (take n m')"
    using Cons.prems(2) by (simp_all add: min_def)
  then have "body m p ch x = body m' p ch x"
    using Cons.prems(1) by (metis body_local)
  with Cons show ?case by (simp split: scan_step.splits)
qed simp

lemma scan_resume:
  assumes "a \<le> n" "n \<le> b" "b \<le> length mem"
  shows "scan (body mem) a (window mem a b) x
     = (case scan (body (take n mem)) a (window (take n mem) a n) x of
          (q, Break y) \<Rightarrow> scan (body mem) n (window mem n b) y | r \<Rightarrow> r)"
proof -
  have "scan (body (take n mem)) a (window mem a n) x = scan (body mem) a (window mem a n) x"
    by (rule scan_local [of n]) (use assms in auto)
  moreover have "q = n" if "scan (body mem) a (window mem a n) x = (q, Break y)" for q y
    using scan_end [OF that] assms by simp
  ultimately show ?thesis
    using assms by (auto simp: window_append [of a n b] scan_append split: scan_step.splits prod.splits)
qed

end

text \<open>
  A parser that keeps its local variables in the request between two calls: \<open>save\<close> is what it
  stores when it runs out of bytes, \<open>load\<close> what it starts from. \<open>view\<close> forgets the fields that
  hold stale copies while the loop runs; the body never looks at them.
\<close>

locale stored_parser = resumable body
  for body :: "ngx_str \<Rightarrow> nat \<Rightarrow> u_char \<Rightarrow> 'x \<Rightarrow> 'x scan_step" +
  fixes load :: "'r \<Rightarrow> 'x" and save :: "'x \<Rightarrow> 'r" and view :: "'x \<Rightarrow> 'x"
  assumes load_save: "view (load (save x)) = view x"
    and body_view: "map_scan_step view (body m p ch (view x)) = map_scan_step view (body m p ch x)"
begin

abbreviation run :: "ngx_str \<Rightarrow> nat \<Rightarrow> nat \<Rightarrow> 'x \<Rightarrow> nat \<times> 'x scan_step" where
  "run mem a b x \<equiv> map_prod id (map_scan_step view) (scan (body mem) a (window mem a b) x)"

lemma scan_view:
  "view x = view y \<Longrightarrow> map_prod id (map_scan_step view) (scan (body m) p s x)
     = map_prod id (map_scan_step view) (scan (body m) p s y)"
proof (induction s arbitrary: p x y)
  case (Cons ch s)
  have eq: "map_scan_step view (body m p ch x) = map_scan_step view (body m p ch y)"
    using body_view [of m p ch x] body_view [of m p ch y] Cons.prems by simp
  show ?case
  proof (cases "body m p ch x")
    case (Break x')
    with eq obtain y' where y: "body m p ch y = Break y'" and v: "view x' = view y'"
      by (cases "body m p ch y") auto
    show ?thesis using Cons.IH [OF v] by (simp add: Break y)
  qed (use eq in \<open>cases "body m p ch y"; simp\<close>)+
qed simp

lemma run_resume:
  assumes "a \<le> n" "n \<le> b" "b \<le> length mem"
  shows "run mem a b x
     = (case scan (body (take n mem)) a (window (take n mem) a n) x of
          (q, Break y) \<Rightarrow> run mem n b (load (save y))
        | r \<Rightarrow> map_prod id (map_scan_step view) r)"
proof -
  have "run mem n b (load (save y)) = run mem n b y" for y
    by (rule scan_view) (rule load_save)
  then show ?thesis
    by (subst scan_resume [OF assms]) (auto split: scan_step.splits prod.splits)
qed

end

lemma scan_Return: "scan f p s x = (q, Return rc y) \<Longrightarrow> \<exists>p ch x. f p ch x = Return rc y"
  by (induction f p s x rule: scan.induct) (auto split: scan_step.splits)

lemma window_drop_take: "window mem a b = drop a (take b mem)"
  by (simp add: window_def drop_take)

end
