(* ===== verification/Ngx_Http_Request_Line.thy ===== *)
theory Ngx_Http_Request_Line
  imports Ngx_Http_Scan
begin

unbundle bit_operations_syntax

text \<open>
  \<^verbatim>\<open>ngx_http_parse_request_line\<close> of \<^verbatim>\<open>src/http/ngx_http_parse.c\<close>: one definition for
  each state of its \<^verbatim>\<open>switch\<close>, the dispatch on the state, and the loop with its exits.
  The build modelled is not Windows.
\<close>

section \<open>Character table and method names\<close>

definition usual :: "uint32 list" where
  "usual = [0xffffdbfe, 0x7fff37d6, 0xffffffff, 0xffffffff, 0xffffffff, 0xffffffff, 0xffffffff, 0xffffffff]"

definition is_usual :: "u_char \<Rightarrow> bool" where
  "is_usual ch \<longleftrightarrow> (usual ! unat (drop_bit 5 ch)) AND push_bit (unat (ch AND 0x1f)) 1 \<noteq> 0"

text \<open>
  The comparison macros, byte by byte and (for little-endian machines) by 32-bit loads.
  \<open>m\<close> is the memory from the start of the method name.
\<close>

definition ngx_str3_cmp :: "ngx_str \<Rightarrow> u_char \<Rightarrow> u_char \<Rightarrow> u_char \<Rightarrow> u_char \<Rightarrow> bool" where
  "ngx_str3_cmp m c0 c1 c2 c3 \<longleftrightarrow> rd m 0 = Some c0 \<and> rd m 1 = Some c1 \<and> rd m 2 = Some c2"

definition ngx_str3Ocmp :: "ngx_str \<Rightarrow> u_char \<Rightarrow> u_char \<Rightarrow> u_char \<Rightarrow> u_char \<Rightarrow> bool" where
  "ngx_str3Ocmp m c0 c1 c2 c3 \<longleftrightarrow> rd m 0 = Some c0 \<and> rd m 2 = Some c2 \<and> rd m 3 = Some c3"

definition ngx_str4cmp :: "ngx_str \<Rightarrow> u_char \<Rightarrow> u_char \<Rightarrow> u_char \<Rightarrow> u_char \<Rightarrow> bool" where
  "ngx_str4cmp m c0 c1 c2 c3 \<longleftrightarrow>
     rd m 0 = Some c0 \<and> rd m 1 = Some c1 \<and> rd m 2 = Some c2 \<and> rd m 3 = Some c3"

definition ngx_str5cmp :: "ngx_str \<Rightarrow> u_char \<Rightarrow> u_char \<Rightarrow> u_char \<Rightarrow> u_char \<Rightarrow> u_char \<Rightarrow> bool" where
  "ngx_str5cmp m c0 c1 c2 c3 c4 \<longleftrightarrow>
     rd m 0 = Some c0 \<and> rd m 1 = Some c1 \<and> rd m 2 = Some c2 \<and> rd m 3 = Some c3 \<and> rd m 4 = Some c4"

definition ngx_str6cmp ::
    "ngx_str \<Rightarrow> u_char \<Rightarrow> u_char \<Rightarrow> u_char \<Rightarrow> u_char \<Rightarrow> u_char \<Rightarrow> u_char \<Rightarrow> bool" where
  "ngx_str6cmp m c0 c1 c2 c3 c4 c5 \<longleftrightarrow>
     rd m 0 = Some c0 \<and> rd m 1 = Some c1 \<and> rd m 2 = Some c2 \<and> rd m 3 = Some c3
     \<and> rd m 4 = Some c4 \<and> rd m 5 = Some c5"

definition ngx_str7_cmp ::
    "ngx_str \<Rightarrow> u_char \<Rightarrow> u_char \<Rightarrow> u_char \<Rightarrow> u_char \<Rightarrow> u_char \<Rightarrow> u_char \<Rightarrow> u_char \<Rightarrow> u_char \<Rightarrow> bool" where
  "ngx_str7_cmp m c0 c1 c2 c3 c4 c5 c6 c7 \<longleftrightarrow>
     rd m 0 = Some c0 \<and> rd m 1 = Some c1 \<and> rd m 2 = Some c2 \<and> rd m 3 = Some c3
     \<and> rd m 4 = Some c4 \<and> rd m 5 = Some c5 \<and> rd m 6 = Some c6"

definition ngx_str8cmp ::
    "ngx_str \<Rightarrow> u_char \<Rightarrow> u_char \<Rightarrow> u_char \<Rightarrow> u_char \<Rightarrow> u_char \<Rightarrow> u_char \<Rightarrow> u_char \<Rightarrow> u_char \<Rightarrow> bool" where
  "ngx_str8cmp m c0 c1 c2 c3 c4 c5 c6 c7 \<longleftrightarrow>
     rd m 0 = Some c0 \<and> rd m 1 = Some c1 \<and> rd m 2 = Some c2 \<and> rd m 3 = Some c3
     \<and> rd m 4 = Some c4 \<and> rd m 5 = Some c5 \<and> rd m 6 = Some c6 \<and> rd m 7 = Some c7"

definition ngx_str9cmp ::
    "ngx_str \<Rightarrow> u_char \<Rightarrow> u_char \<Rightarrow> u_char \<Rightarrow> u_char \<Rightarrow> u_char \<Rightarrow> u_char \<Rightarrow> u_char \<Rightarrow> u_char \<Rightarrow> u_char \<Rightarrow> bool" where
  "ngx_str9cmp m c0 c1 c2 c3 c4 c5 c6 c7 c8 \<longleftrightarrow>
     rd m 0 = Some c0 \<and> rd m 1 = Some c1 \<and> rd m 2 = Some c2 \<and> rd m 3 = Some c3
     \<and> rd m 4 = Some c4 \<and> rd m 5 = Some c5 \<and> rd m 6 = Some c6 \<and> rd m 7 = Some c7
     \<and> rd m 8 = Some c8"

definition le32 :: "u_char \<Rightarrow> u_char \<Rightarrow> u_char \<Rightarrow> u_char \<Rightarrow> uint32" where
  "le32 c0 c1 c2 c3 = push_bit 24 (ucast c3) OR push_bit 16 (ucast c2) OR push_bit 8 (ucast c1) OR ucast c0"

text \<open>\<^verbatim>\<open>((uint32_t *) m)[k]\<close> on a little-endian machine; \<open>None\<close> outside the object.\<close>

definition load32 :: "ngx_str \<Rightarrow> nat \<Rightarrow> uint32 option" where
  "load32 m k =
     (if 4 * k + 3 < length m then Some (le32 (m ! (4 * k)) (m ! (4 * k + 1)) (m ! (4 * k + 2)) (m ! (4 * k + 3)))
      else None)"

definition ngx_str4cmp_le :: "ngx_str \<Rightarrow> u_char \<Rightarrow> u_char \<Rightarrow> u_char \<Rightarrow> u_char \<Rightarrow> bool" where
  "ngx_str4cmp_le m c0 c1 c2 c3 \<longleftrightarrow> load32 m 0 = Some (le32 c0 c1 c2 c3)"

definition ngx_str6cmp_le ::
    "ngx_str \<Rightarrow> u_char \<Rightarrow> u_char \<Rightarrow> u_char \<Rightarrow> u_char \<Rightarrow> u_char \<Rightarrow> u_char \<Rightarrow> bool" where
  "ngx_str6cmp_le m c0 c1 c2 c3 c4 c5 \<longleftrightarrow>
     load32 m 0 = Some (le32 c0 c1 c2 c3)
     \<and> map_option (\<lambda>w. w AND 0xffff) (load32 m 1) = Some (push_bit 8 (ucast c5) OR ucast c4)"

definition ngx_str8cmp_le ::
    "ngx_str \<Rightarrow> u_char \<Rightarrow> u_char \<Rightarrow> u_char \<Rightarrow> u_char \<Rightarrow> u_char \<Rightarrow> u_char \<Rightarrow> u_char \<Rightarrow> u_char \<Rightarrow> bool" where
  "ngx_str8cmp_le m c0 c1 c2 c3 c4 c5 c6 c7 \<longleftrightarrow>
     load32 m 0 = Some (le32 c0 c1 c2 c3) \<and> load32 m 1 = Some (le32 c4 c5 c6 c7)"

text \<open>The \<^verbatim>\<open>switch (p - m)\<close>: the method after it; an unknown name leaves \<^verbatim>\<open>r->method\<close>.\<close>

definition rl_method_name :: "ngx_str \<Rightarrow> nat \<Rightarrow> ngx_uint \<Rightarrow> ngx_uint" where
  "rl_method_name m n method =
     (if n = 3 then
        (if ngx_str3_cmp m ch_G ch_E ch_T ch_sp then NGX_HTTP_GET
         else if ngx_str3_cmp m ch_P ch_U ch_T ch_sp then NGX_HTTP_PUT
         else method)
      else if n = 4 then
        (if rd m 1 = Some ch_O then
           (if ngx_str3Ocmp m ch_P ch_O ch_S ch_T then NGX_HTTP_POST
            else if ngx_str3Ocmp m ch_C ch_O ch_P ch_Y then NGX_HTTP_COPY
            else if ngx_str3Ocmp m ch_M ch_O ch_V ch_E then NGX_HTTP_MOVE
            else if ngx_str3Ocmp m ch_L ch_O ch_C ch_K then NGX_HTTP_LOCK
            else method)
         else if ngx_str4cmp m ch_H ch_E ch_A ch_D then NGX_HTTP_HEAD
         else method)
      else if n = 5 then
        (let method1 = (if ngx_str5cmp m ch_M ch_K ch_C ch_O ch_L then NGX_HTTP_MKCOL else method);
             method2 = (if ngx_str5cmp m ch_P ch_A ch_T ch_C ch_H then NGX_HTTP_PATCH else method1)
         in if ngx_str5cmp m ch_T ch_R ch_A ch_C ch_E then NGX_HTTP_TRACE else method2)
      else if n = 6 then
        (if ngx_str6cmp m ch_D ch_E ch_L ch_E ch_T ch_E then NGX_HTTP_DELETE
         else if ngx_str6cmp m ch_U ch_N ch_L ch_O ch_C ch_K then NGX_HTTP_UNLOCK
         else method)
      else if n = 7 then
        (if ngx_str7_cmp m ch_O ch_P ch_T ch_I ch_O ch_N ch_S ch_sp then NGX_HTTP_OPTIONS else method)
      else if n = 8 then
        (if ngx_str8cmp m ch_P ch_R ch_O ch_P ch_F ch_I ch_N ch_D then NGX_HTTP_PROPFIND else method)
      else if n = 9 then
        (if ngx_str9cmp m ch_P ch_R ch_O ch_P ch_P ch_A ch_T ch_C ch_H then NGX_HTTP_PROPPATCH else method)
      else method)"

section \<open>The states\<close>

abbreviation (input) rl_start :: nat where "rl_start \<equiv> 0"
abbreviation (input) rl_method :: nat where "rl_method \<equiv> 1"
abbreviation (input) rl_spaces_before_uri :: nat where "rl_spaces_before_uri \<equiv> 2"
abbreviation (input) rl_schema :: nat where "rl_schema \<equiv> 3"
abbreviation (input) rl_schema_slash :: nat where "rl_schema_slash \<equiv> 4"
abbreviation (input) rl_schema_slash_slash :: nat where "rl_schema_slash_slash \<equiv> 5"
abbreviation (input) rl_host :: nat where "rl_host \<equiv> 6"
abbreviation (input) rl_port :: nat where "rl_port \<equiv> 7"
abbreviation (input) rl_host_http_09 :: nat where "rl_host_http_09 \<equiv> 8"
abbreviation (input) rl_after_slash_in_uri :: nat where "rl_after_slash_in_uri \<equiv> 9"
abbreviation (input) rl_check_uri :: nat where "rl_check_uri \<equiv> 10"
abbreviation (input) rl_check_uri_http_09 :: nat where "rl_check_uri_http_09 \<equiv> 11"
abbreviation (input) rl_uri :: nat where "rl_uri \<equiv> 12"
abbreviation (input) rl_http_09 :: nat where "rl_http_09 \<equiv> 13"
abbreviation (input) rl_http_H :: nat where "rl_http_H \<equiv> 14"
abbreviation (input) rl_http_HT :: nat where "rl_http_HT \<equiv> 15"
abbreviation (input) rl_http_HTT :: nat where "rl_http_HTT \<equiv> 16"
abbreviation (input) rl_http_HTTP :: nat where "rl_http_HTTP \<equiv> 17"
abbreviation (input) rl_first_major_digit :: nat where "rl_first_major_digit \<equiv> 18"
abbreviation (input) rl_major_digit :: nat where "rl_major_digit \<equiv> 19"
abbreviation (input) rl_first_minor_digit :: nat where "rl_first_minor_digit \<equiv> 20"
abbreviation (input) rl_minor_digit :: nat where "rl_minor_digit \<equiv> 21"
abbreviation (input) rl_spaces_after_digit :: nat where "rl_spaces_after_digit \<equiv> 22"
abbreviation (input) rl_almost_done :: nat where "rl_almost_done \<equiv> 23"

type_synonym rl_vars = "nat \<times> http_request"

definition is_alpha :: "u_char \<Rightarrow> bool" where
  "is_alpha ch \<longleftrightarrow> (ch OR 0x20) \<ge> ch_a \<and> (ch OR 0x20) \<le> ch_z"

definition is_digit :: "u_char \<Rightarrow> bool" where
  "is_digit ch \<longleftrightarrow> ch \<ge> ch_0 \<and> ch \<le> ch_9"

definition is_method_char :: "u_char \<Rightarrow> bool" where
  "is_method_char ch \<longleftrightarrow> \<not> ((ch < ch_A \<or> ch > ch_Z) \<and> ch \<noteq> ch_under)"

definition rl_sw_start :: "nat \<Rightarrow> u_char \<Rightarrow> http_request \<Rightarrow> rl_vars scan_step" where
  "rl_sw_start p ch r =
     (let r = r\<lparr>r_request_start := Some p\<rparr>
      in if ch = CR \<or> ch = LF then Break (rl_start, r)
         else if \<not> is_method_char ch then Return NGX_HTTP_PARSE_INVALID_METHOD (rl_start, r)
         else Break (rl_method, r))"

definition rl_sw_method :: "ngx_str \<Rightarrow> nat \<Rightarrow> u_char \<Rightarrow> http_request \<Rightarrow> rl_vars scan_step" where
  "rl_sw_method mem p ch r =
     (if ch = ch_sp then
        (case r_request_start r of
           Some m \<Rightarrow> Break (rl_spaces_before_uri,
                       r\<lparr>r_method_end := Some (p - 1),
                         r_method := rl_method_name (window mem m (Suc p)) (p - m) (r_method r)\<rparr>)
         | None \<Rightarrow> Break (rl_spaces_before_uri, r\<lparr>r_method_end := Some (p - 1)\<rparr>))
      else if \<not> is_method_char ch then Return NGX_HTTP_PARSE_INVALID_METHOD (rl_method, r)
      else Break (rl_method, r))"

definition rl_sw_spaces_before_uri :: "nat \<Rightarrow> u_char \<Rightarrow> http_request \<Rightarrow> rl_vars scan_step" where
  "rl_sw_spaces_before_uri p ch r =
     (if ch = ch_slash then Break (rl_after_slash_in_uri, r\<lparr>r_uri_start := Some p\<rparr>)
      else if is_alpha ch then Break (rl_schema, r\<lparr>r_schema_start := Some p\<rparr>)
      else if ch = ch_sp then Break (rl_spaces_before_uri, r)
      else Return NGX_HTTP_PARSE_INVALID_REQUEST (rl_spaces_before_uri, r))"

definition rl_sw_schema :: "nat \<Rightarrow> u_char \<Rightarrow> http_request \<Rightarrow> rl_vars scan_step" where
  "rl_sw_schema p ch r =
     (if is_alpha ch then Break (rl_schema, r)
      else if ch = ch_colon then Break (rl_schema_slash, r\<lparr>r_schema_end := Some p\<rparr>)
      else Return NGX_HTTP_PARSE_INVALID_REQUEST (rl_schema, r))"

definition rl_sw_schema_slash :: "nat \<Rightarrow> u_char \<Rightarrow> http_request \<Rightarrow> rl_vars scan_step" where
  "rl_sw_schema_slash p ch r =
     (if ch = ch_slash then Break (rl_schema_slash_slash, r)
      else Return NGX_HTTP_PARSE_INVALID_REQUEST (rl_schema_slash, r))"

definition rl_sw_schema_slash_slash :: "nat \<Rightarrow> u_char \<Rightarrow> http_request \<Rightarrow> rl_vars scan_step" where
  "rl_sw_schema_slash_slash p ch r =
     (if ch = ch_slash then Break (rl_host, r\<lparr>r_host_start := Some (p + 1)\<rparr>)
      else Return NGX_HTTP_PARSE_INVALID_REQUEST (rl_schema_slash_slash, r))"

text \<open>\<^verbatim>\<open>r->uri_start = r->schema_end + 1; r->uri_end = r->schema_end + 2;\<close>\<close>

definition rl_single_slash :: "http_request \<Rightarrow> http_request" where
  "rl_single_slash r =
     r\<lparr>r_uri_start := map_option (\<lambda>e. e + 1) (r_schema_end r),
       r_uri_end := map_option (\<lambda>e. e + 2) (r_schema_end r)\<rparr>"

definition rl_sw_host :: "nat \<Rightarrow> u_char \<Rightarrow> http_request \<Rightarrow> rl_vars scan_step" where
  "rl_sw_host p ch r =
     (if is_alpha ch then Break (rl_host, r)
      else if is_digit ch \<or> ch = ch_dot \<or> ch = ch_minus then Break (rl_host, r)
      else let r = r\<lparr>r_host_end := Some p\<rparr>
           in if ch = ch_colon then Break (rl_port, r)
              else if ch = ch_slash then Break (rl_after_slash_in_uri, r\<lparr>r_uri_start := Some p\<rparr>)
              else if ch = ch_sp then Break (rl_host_http_09, rl_single_slash r)
              else Return NGX_HTTP_PARSE_INVALID_REQUEST (rl_host, r))"

definition rl_sw_port :: "nat \<Rightarrow> u_char \<Rightarrow> http_request \<Rightarrow> rl_vars scan_step" where
  "rl_sw_port p ch r =
     (if is_digit ch then Break (rl_port, r)
      else if ch = ch_slash then
        Break (rl_after_slash_in_uri, r\<lparr>r_port_end := Some p, r_uri_start := Some p\<rparr>)
      else if ch = ch_sp then Break (rl_host_http_09, rl_single_slash (r\<lparr>r_port_end := Some p\<rparr>))
      else Return NGX_HTTP_PARSE_INVALID_REQUEST (rl_port, r))"

definition rl_sw_host_http_09 :: "nat \<Rightarrow> u_char \<Rightarrow> http_request \<Rightarrow> rl_vars scan_step" where
  "rl_sw_host_http_09 p ch r =
     (if ch = ch_sp then Break (rl_host_http_09, r)
      else if ch = CR then Break (rl_almost_done, r\<lparr>r_http_minor := 9\<rparr>)
      else if ch = LF then Goto_done (rl_host_http_09, r\<lparr>r_http_minor := 9\<rparr>)
      else if ch = ch_H then Break (rl_http_H, r\<lparr>r_http_protocol := Some p\<rparr>)
      else Return NGX_HTTP_PARSE_INVALID_REQUEST (rl_host_http_09, r))"

definition rl_sw_after_slash_in_uri :: "nat \<Rightarrow> u_char \<Rightarrow> http_request \<Rightarrow> rl_vars scan_step" where
  "rl_sw_after_slash_in_uri p ch r =
     (if is_usual ch then Break (rl_check_uri, r)
      else if ch = ch_sp then Break (rl_check_uri_http_09, r\<lparr>r_uri_end := Some p\<rparr>)
      else if ch = CR then Break (rl_almost_done, r\<lparr>r_uri_end := Some p, r_http_minor := 9\<rparr>)
      else if ch = LF then Goto_done (rl_after_slash_in_uri, r\<lparr>r_uri_end := Some p, r_http_minor := 9\<rparr>)
      else if ch = ch_dot then Break (rl_uri, r\<lparr>r_complex_uri := True\<rparr>)
      else if ch = ch_percent then Break (rl_uri, r\<lparr>r_quoted_uri := True\<rparr>)
      else if ch = ch_slash then Break (rl_uri, r\<lparr>r_complex_uri := True\<rparr>)
      else if ch = ch_question then Break (rl_uri, r\<lparr>r_args_start := Some (p + 1)\<rparr>)
      else if ch = ch_hash then Break (rl_uri, r\<lparr>r_complex_uri := True\<rparr>)
      else if ch = ch_plus then Break (rl_after_slash_in_uri, r\<lparr>r_plus_in_uri := True\<rparr>)
      else if ch = 0 then Return NGX_HTTP_PARSE_INVALID_REQUEST (rl_after_slash_in_uri, r)
      else Break (rl_check_uri, r))"

definition rl_sw_check_uri :: "nat \<Rightarrow> u_char \<Rightarrow> http_request \<Rightarrow> rl_vars scan_step" where
  "rl_sw_check_uri p ch r =
     (if is_usual ch then Break (rl_check_uri, r)
      else if ch = ch_slash then Break (rl_after_slash_in_uri, r\<lparr>r_uri_ext := None\<rparr>)
      else if ch = ch_dot then Break (rl_check_uri, r\<lparr>r_uri_ext := Some (p + 1)\<rparr>)
      else if ch = ch_sp then Break (rl_check_uri_http_09, r\<lparr>r_uri_end := Some p\<rparr>)
      else if ch = CR then Break (rl_almost_done, r\<lparr>r_uri_end := Some p, r_http_minor := 9\<rparr>)
      else if ch = LF then Goto_done (rl_check_uri, r\<lparr>r_uri_end := Some p, r_http_minor := 9\<rparr>)
      else if ch = ch_percent then Break (rl_uri, r\<lparr>r_quoted_uri := True\<rparr>)
      else if ch = ch_question then Break (rl_uri, r\<lparr>r_args_start := Some (p + 1)\<rparr>)
      else if ch = ch_hash then Break (rl_uri, r\<lparr>r_complex_uri := True\<rparr>)
      else if ch = ch_plus then Break (rl_check_uri, r\<lparr>r_plus_in_uri := True\<rparr>)
      else if ch = 0 then Return NGX_HTTP_PARSE_INVALID_REQUEST (rl_check_uri, r)
      else Break (rl_check_uri, r))"

definition rl_sw_check_uri_http_09 :: "nat \<Rightarrow> u_char \<Rightarrow> http_request \<Rightarrow> rl_vars scan_step" where
  "rl_sw_check_uri_http_09 p ch r =
     (if ch = ch_sp then Break (rl_check_uri_http_09, r)
      else if ch = CR then Break (rl_almost_done, r\<lparr>r_http_minor := 9\<rparr>)
      else if ch = LF then Goto_done (rl_check_uri_http_09, r\<lparr>r_http_minor := 9\<rparr>)
      else if ch = ch_H then Break (rl_http_H, r\<lparr>r_http_protocol := Some p\<rparr>)
      else Break (rl_check_uri, r\<lparr>r_space_in_uri := True\<rparr>))"

definition rl_sw_uri :: "nat \<Rightarrow> u_char \<Rightarrow> http_request \<Rightarrow> rl_vars scan_step" where
  "rl_sw_uri p ch r =
     (if is_usual ch then Break (rl_uri, r)
      else if ch = ch_sp then Break (rl_http_09, r\<lparr>r_uri_end := Some p\<rparr>)
      else if ch = CR then Break (rl_almost_done, r\<lparr>r_uri_end := Some p, r_http_minor := 9\<rparr>)
      else if ch = LF then Goto_done (rl_uri, r\<lparr>r_uri_end := Some p, r_http_minor := 9\<rparr>)
      else if ch = ch_hash then Break (rl_uri, r\<lparr>r_complex_uri := True\<rparr>)
      else if ch = 0 then Return NGX_HTTP_PARSE_INVALID_REQUEST (rl_uri, r)
      else Break (rl_uri, r))"

definition rl_sw_http_09 :: "nat \<Rightarrow> u_char \<Rightarrow> http_request \<Rightarrow> rl_vars scan_step" where
  "rl_sw_http_09 p ch r =
     (if ch = ch_sp then Break (rl_http_09, r)
      else if ch = CR then Break (rl_almost_done, r\<lparr>r_http_minor := 9\<rparr>)
      else if ch = LF then Goto_done (rl_http_09, r\<lparr>r_http_minor := 9\<rparr>)
      else if ch = ch_H then Break (rl_http_H, r\<lparr>r_http_protocol := Some p\<rparr>)
      else Break (rl_uri, r\<lparr>r_space_in_uri := True\<rparr>))"

text \<open>The four states that expect one given byte.\<close>

definition rl_expect :: "u_char \<Rightarrow> nat \<Rightarrow> nat \<Rightarrow> u_char \<Rightarrow> http_request \<Rightarrow> rl_vars scan_step" where
  "rl_expect c state nstate ch r =
     (if ch = c then Break (nstate, r) else Return NGX_HTTP_PARSE_INVALID_REQUEST (state, r))"

definition rl_sw_first_major_digit :: "u_char \<Rightarrow> http_request \<Rightarrow> rl_vars scan_step" where
  "rl_sw_first_major_digit ch r =
     (if ch < ch_1 \<or> ch > ch_9 then Return NGX_HTTP_PARSE_INVALID_REQUEST (rl_first_major_digit, r)
      else Break (rl_major_digit, r\<lparr>r_http_major := ucast ch - 0x30\<rparr>))"

definition rl_sw_major_digit :: "u_char \<Rightarrow> http_request \<Rightarrow> rl_vars scan_step" where
  "rl_sw_major_digit ch r =
     (if ch = ch_dot then Break (rl_first_minor_digit, r)
      else if ch < ch_0 \<or> ch > ch_9 then Return NGX_HTTP_PARSE_INVALID_REQUEST (rl_major_digit, r)
      else Break (rl_major_digit, r\<lparr>r_http_major := r_http_major r * 10 + ucast ch - 0x30\<rparr>))"

definition rl_sw_first_minor_digit :: "u_char \<Rightarrow> http_request \<Rightarrow> rl_vars scan_step" where
  "rl_sw_first_minor_digit ch r =
     (if ch < ch_0 \<or> ch > ch_9 then Return NGX_HTTP_PARSE_INVALID_REQUEST (rl_first_minor_digit, r)
      else Break (rl_minor_digit, r\<lparr>r_http_minor := ucast ch - 0x30\<rparr>))"

definition rl_sw_minor_digit :: "u_char \<Rightarrow> http_request \<Rightarrow> rl_vars scan_step" where
  "rl_sw_minor_digit ch r =
     (if ch = CR then Break (rl_almost_done, r)
      else if ch = LF then Goto_done (rl_minor_digit, r)
      else if ch = ch_sp then Break (rl_spaces_after_digit, r)
      else if ch < ch_0 \<or> ch > ch_9 then Return NGX_HTTP_PARSE_INVALID_REQUEST (rl_minor_digit, r)
      else Break (rl_minor_digit, r\<lparr>r_http_minor := r_http_minor r * 10 + ucast ch - 0x30\<rparr>))"

definition rl_sw_spaces_after_digit :: "u_char \<Rightarrow> http_request \<Rightarrow> rl_vars scan_step" where
  "rl_sw_spaces_after_digit ch r =
     (if ch = ch_sp then Break (rl_spaces_after_digit, r)
      else if ch = CR then Break (rl_almost_done, r)
      else if ch = LF then Goto_done (rl_spaces_after_digit, r)
      else Return NGX_HTTP_PARSE_INVALID_REQUEST (rl_spaces_after_digit, r))"

definition rl_sw_almost_done :: "nat \<Rightarrow> u_char \<Rightarrow> http_request \<Rightarrow> rl_vars scan_step" where
  "rl_sw_almost_done p ch r =
     (let r = r\<lparr>r_request_end := Some (p - 1)\<rparr>
      in if ch = LF then Goto_done (rl_almost_done, r)
         else Return NGX_HTTP_PARSE_INVALID_REQUEST (rl_almost_done, r))"

section \<open>Dispatch and loop\<close>

fun rl_body :: "ngx_str \<Rightarrow> nat \<Rightarrow> u_char \<Rightarrow> rl_vars \<Rightarrow> rl_vars scan_step" where
  "rl_body mem p ch (state, r) =
     (if state = rl_start then rl_sw_start p ch r
      else if state = rl_method then rl_sw_method mem p ch r
      else if state = rl_spaces_before_uri then rl_sw_spaces_before_uri p ch r
      else if state = rl_schema then rl_sw_schema p ch r
      else if state = rl_schema_slash then rl_sw_schema_slash p ch r
      else if state = rl_schema_slash_slash then rl_sw_schema_slash_slash p ch r
      else if state = rl_host then rl_sw_host p ch r
      else if state = rl_port then rl_sw_port p ch r
      else if state = rl_host_http_09 then rl_sw_host_http_09 p ch r
      else if state = rl_after_slash_in_uri then rl_sw_after_slash_in_uri p ch r
      else if state = rl_check_uri then rl_sw_check_uri p ch r
      else if state = rl_check_uri_http_09 then rl_sw_check_uri_http_09 p ch r
      else if state = rl_uri then rl_sw_uri p ch r
      else if state = rl_http_09 then rl_sw_http_09 p ch r
      else if state = rl_http_H then rl_expect ch_T rl_http_H rl_http_HT ch r
      else if state = rl_http_HT then rl_expect ch_T rl_http_HT rl_http_HTT ch r
      else if state = rl_http_HTT then rl_expect ch_P rl_http_HTT rl_http_HTTP ch r
      else if state = rl_http_HTTP then rl_expect ch_slash rl_http_HTTP rl_first_major_digit ch r
      else if state = rl_first_major_digit then rl_sw_first_major_digit ch r
      else if state = rl_major_digit then rl_sw_major_digit ch r
      else if state = rl_first_minor_digit then rl_sw_first_minor_digit ch r
      else if state = rl_minor_digit then rl_sw_minor_digit ch r
      else if state = rl_spaces_after_digit then rl_sw_spaces_after_digit ch r
      else if state = rl_almost_done then rl_sw_almost_done p ch r
      else Break (state, r))"

text \<open>\<^verbatim>\<open>done:\<close> with the position \<open>p\<close> of the last byte.\<close>

definition rl_done :: "nat \<Rightarrow> http_request \<Rightarrow> ngx_int \<times> http_request \<times> nat" where
  "rl_done p r =
     (let r = (if r_request_end r = None then r\<lparr>r_request_end := Some p\<rparr> else r);
          r = r\<lparr>r_http_version := ucast (r_http_major r) * 1000 + ucast (r_http_minor r)\<rparr>;
          r = r\<lparr>r_state := rl_start\<rparr>
      in (if r_http_version r = 9 \<and> r_method r \<noteq> NGX_HTTP_GET then NGX_HTTP_PARSE_INVALID_09_METHOD
          else NGX_OK, r, p + 1))"

text \<open>The result: the return code, the request and \<^verbatim>\<open>b->pos\<close>.\<close>

definition ngx_http_parse_request_line ::
    "ngx_str \<Rightarrow> http_request \<Rightarrow> nat \<Rightarrow> nat \<Rightarrow> ngx_int \<times> http_request \<times> nat" where
  "ngx_http_parse_request_line mem r pos lst =
     (case scan (rl_body mem) pos (window mem pos lst) (r_state r, r) of
        (p, Break (state, r)) \<Rightarrow> (NGX_AGAIN, r\<lparr>r_state := state\<rparr>, p)
      | (p, Return rc (state, r)) \<Rightarrow> (rc, r, pos)
      | (p, Goto_done (state, r)) \<Rightarrow> rl_done p r
      | (p, Goto_header_done (state, r)) \<Rightarrow> rl_done p r)"

section \<open>Resuming\<close>

lemmas rl_states = rl_sw_start_def rl_sw_method_def rl_sw_spaces_before_uri_def rl_sw_schema_def
  rl_sw_schema_slash_def rl_sw_schema_slash_slash_def rl_sw_host_def rl_sw_port_def
  rl_sw_host_http_09_def rl_sw_after_slash_in_uri_def rl_sw_check_uri_def
  rl_sw_check_uri_http_09_def rl_sw_uri_def rl_sw_http_09_def rl_expect_def
  rl_sw_first_major_digit_def rl_sw_major_digit_def rl_sw_first_minor_digit_def
  rl_sw_minor_digit_def rl_sw_spaces_after_digit_def rl_sw_almost_done_def rl_single_slash_def


text \<open>What relates the code of every state on two requests relates the body on them.\<close>

lemma rl_body_rel:
  assumes "Q (rl_sw_start p ch r) (rl_sw_start p ch r')"
    "Q (rl_sw_method mem p ch r) (rl_sw_method mem p ch r')"
    "Q (rl_sw_spaces_before_uri p ch r) (rl_sw_spaces_before_uri p ch r')"
    "Q (rl_sw_schema p ch r) (rl_sw_schema p ch r')"
    "Q (rl_sw_schema_slash p ch r) (rl_sw_schema_slash p ch r')"
    "Q (rl_sw_schema_slash_slash p ch r) (rl_sw_schema_slash_slash p ch r')"
    "Q (rl_sw_host p ch r) (rl_sw_host p ch r')"
    "Q (rl_sw_port p ch r) (rl_sw_port p ch r')"
    "Q (rl_sw_host_http_09 p ch r) (rl_sw_host_http_09 p ch r')"
    "Q (rl_sw_after_slash_in_uri p ch r) (rl_sw_after_slash_in_uri p ch r')"
    "Q (rl_sw_check_uri p ch r) (rl_sw_check_uri p ch r')"
    "Q (rl_sw_check_uri_http_09 p ch r) (rl_sw_check_uri_http_09 p ch r')"
    "Q (rl_sw_uri p ch r) (rl_sw_uri p ch r')"
    "Q (rl_sw_http_09 p ch r) (rl_sw_http_09 p ch r')"
    "\<And>c st st'. Q (rl_expect c st st' ch r) (rl_expect c st st' ch r')"
    "Q (rl_sw_first_major_digit ch r) (rl_sw_first_major_digit ch r')"
    "Q (rl_sw_major_digit ch r) (rl_sw_major_digit ch r')"
    "Q (rl_sw_first_minor_digit ch r) (rl_sw_first_minor_digit ch r')"
    "Q (rl_sw_minor_digit ch r) (rl_sw_minor_digit ch r')"
    "Q (rl_sw_spaces_after_digit ch r) (rl_sw_spaces_after_digit ch r')"
    "Q (rl_sw_almost_done p ch r) (rl_sw_almost_done p ch r')"
    "\<And>st. Q (Break (st, r)) (Break (st, r'))"
  shows "Q (rl_body mem p ch (st, r)) (rl_body mem p ch (st, r'))"
proof -
  have if_rel: "Q a a' \<Longrightarrow> Q b b' \<Longrightarrow> Q (if c then a else b) (if c then a' else b')" for a b c a' b' by simp
  show ?thesis unfolding rl_body.simps by (intro if_rel assms)
qed

definition rl_codes :: "rl_vars scan_step \<Rightarrow> bool" where
  "rl_codes s \<longleftrightarrow> (case s of Return rc y \<Rightarrow> rc = NGX_HTTP_PARSE_INVALID_METHOD \<or> rc = NGX_HTTP_PARSE_INVALID_REQUEST
     | Goto_header_done y \<Rightarrow> False | _ \<Rightarrow> True)"

lemma rl_codes_simps [simp]:
  "rl_codes (Break x)" "rl_codes (Goto_done x)" "\<not> rl_codes (Goto_header_done x)"
  "rl_codes (Return rc x) \<longleftrightarrow> rc = NGX_HTTP_PARSE_INVALID_METHOD \<or> rc = NGX_HTTP_PARSE_INVALID_REQUEST"
  by (simp_all add: rl_codes_def)

lemma rl_body_codes: "rl_codes (rl_body mem p ch x)"
  by (cases x, hypsubst, rule rl_body_rel [where Q = "\<lambda>a b. rl_codes a"])
    (simp_all add: rl_states Let_def split: option.split)

definition rl_view :: "rl_vars \<Rightarrow> rl_vars" where
  "rl_view x = (fst x, (snd x)\<lparr>r_state := 0\<rparr>)"

definition rl_load :: "http_request \<Rightarrow> rl_vars" where
  "rl_load r = (r_state r, r)"

definition rl_save :: "rl_vars \<Rightarrow> http_request" where
  "rl_save x = (snd x)\<lparr>r_state := fst x\<rparr>"

lemma rl_body_local:
  assumes "take (Suc p) m = take (Suc p) m'"
  shows "rl_body m p ch x = rl_body m' p ch x"
proof -
  have "rl_sw_method m p ch = rl_sw_method m' p ch"
    using assms by (auto simp: fun_eq_iff rl_sw_method_def window_drop_take split: option.splits)
  then have "rl_body m p ch (st, r) = rl_body m' p ch (st, r)" for st r by (simp only: rl_body.simps)
  then show ?thesis by (cases x) metis
qed


lemma rl_body_view: "map_scan_step rl_view (rl_body m p ch (rl_view x)) = map_scan_step rl_view (rl_body m p ch x)"
proof -
  obtain st r where x: "x = (st, r)" by (cases x)
  have "map_scan_step rl_view (rl_body m p ch (st, r\<lparr>r_state := 0\<rparr>)) = map_scan_step rl_view (rl_body m p ch (st, r))"
    by (rule rl_body_rel [where Q = "\<lambda>a b. map_scan_step rl_view a = map_scan_step rl_view b"])
      (simp_all add: rl_states rl_view_def Let_def split: option.split)
  then show ?thesis by (simp only: x rl_view_def fst_conv snd_conv)
qed

interpretation rl: stored_parser rl_body rl_load rl_save rl_view
  by unfold_locales (erule rl_body_local, simp add: rl_view_def rl_load_def rl_save_def, rule rl_body_view)

text \<open>
  What a caller uses of a result: after an error it closes the request, and neither the saved
  state nor the position matters.
\<close>

fun settled :: "ngx_int \<times> http_request \<times> nat \<Rightarrow> ngx_int \<times> http_request \<times> nat option" where
  "settled (rc, r, pos) =
     (if rc = NGX_HTTP_PARSE_INVALID_METHOD \<or> rc = NGX_HTTP_PARSE_INVALID_REQUEST
      then (rc, r\<lparr>r_state := 0\<rparr>, None) else (rc, r, Some pos))"

text \<open>The result of the parser as a function of how its loop ended, seen through \<^const>\<open>rl_view\<close>.\<close>

fun rl_result :: "nat \<times> rl_vars scan_step \<Rightarrow> ngx_int \<times> http_request \<times> nat option" where
  "rl_result (p, Break (state, r)) = (NGX_AGAIN, r\<lparr>r_state := state\<rparr>, Some p)"
| "rl_result (p, Return rc (state, r)) = (rc, r, None)"
| "rl_result (p, Goto_done (state, r)) = (case rl_done p r of (rc, r, q) \<Rightarrow> (rc, r, Some q))"
| "rl_result (p, Goto_header_done (state, r)) = (case rl_done p r of (rc, r, q) \<Rightarrow> (rc, r, Some q))"

lemma rl_done_state: "rl_done p (r\<lparr>r_state := s\<rparr>) = rl_done p r"
  by (auto simp: rl_done_def Let_def)

lemma rl_done_code: "rl_done p r = (rc, r', q) \<Longrightarrow> rc = NGX_OK \<or> rc = NGX_HTTP_PARSE_INVALID_09_METHOD"
  by (auto simp: rl_done_def Let_def split: if_splits)

lemma settled_parse:
  "settled (ngx_http_parse_request_line mem r pos lst) = rl_result (rl.run mem pos lst (r_state r, r))"
proof -
  obtain p s where sc: "scan (rl_body mem) pos (window mem pos lst) (r_state r, r) = (p, s)" by force
  show ?thesis
  proof (cases s)
    case (Return rc x)
    with sc have "rl_codes s" using scan_Return [of _ _ _ _ p rc x] by (metis rl_body_codes)
    with sc Return show ?thesis
      by (cases x) (auto simp: ngx_http_parse_request_line_def rl_view_def)
  next
    case (Goto_done x)
    obtain rc r' q where "rl_done p (snd x) = (rc, r', q)" by (metis prod_cases3)
    with sc Goto_done rl_done_code [OF this] show ?thesis
      by (cases x) (auto simp: ngx_http_parse_request_line_def rl_view_def rl_done_state ngx_rc)
  next
    case (Goto_header_done x)
    obtain rc r' q where "rl_done p (snd x) = (rc, r', q)" by (metis prod_cases3)
    with sc Goto_header_done rl_done_code [OF this] show ?thesis
      by (cases x) (auto simp: ngx_http_parse_request_line_def rl_view_def rl_done_state ngx_rc)
  next
    case (Break x)
    with sc show ?thesis by (cases x) (auto simp: ngx_http_parse_request_line_def rl_view_def ngx_rc)
  qed
qed

text \<open>
  C17. Parsing the request line does not depend on how the bytes arrive. Let the first \<open>n\<close>
  bytes of the buffer be there at the first call. If it answers \<^verbatim>\<open>NGX_AGAIN\<close>, it has
  consumed them all, and the second call from there gives the result of one call on all
  bytes; if it answers anything else, that is already the result of one call on all bytes.
\<close>

theorem request_line_resumable:
  assumes "pos \<le> n" and "n \<le> lst" and "lst \<le> length mem"
    and "ngx_http_parse_request_line (take n mem) r pos n = (rc, r1, pos1)"
  shows "if rc = NGX_AGAIN
         then pos1 = n \<and> settled (ngx_http_parse_request_line mem r1 pos1 lst)
                           = settled (ngx_http_parse_request_line mem r pos lst)
         else settled (ngx_http_parse_request_line mem r pos lst) = settled (rc, r1, pos1)"
proof -
  obtain q s where sc: "scan (rl_body (take n mem)) pos (window (take n mem) pos n) (r_state r, r) = (q, s)"
    by force
  have whole: "rl.run mem pos lst (r_state r, r)
     = (case s of Break y \<Rightarrow> rl.run mem n lst (rl_load (rl_save y)) | _ \<Rightarrow> map_prod id (map_scan_step rl_view) (q, s))"
    using rl.run_resume [OF assms(1-3), of "(r_state r, r)"] sc by (auto split: scan_step.splits)
  show ?thesis
  proof (cases "\<exists>y. s = Break y")
    case True
    then obtain st r' where s: "s = Break (st, r')" by auto
    have "q = n" using scan_end [OF sc [unfolded s]] assms by simp
    with assms(4) sc s have r1: "rc = NGX_AGAIN" "r1 = r'\<lparr>r_state := st\<rparr>" "pos1 = n"
      by (auto simp: ngx_http_parse_request_line_def)
    then have "rl_load (rl_save (st, r')) = (r_state r1, r1)" by (simp add: rl_load_def rl_save_def)
    with r1 whole s show ?thesis by (simp add: settled_parse)
  next
    case False
    then have "rl.run mem pos lst (r_state r, r) = rl.run (take n mem) pos n (r_state r, r)"
      using whole sc by (cases s) auto
    then have eq: "settled (ngx_http_parse_request_line mem r pos lst) = settled (rc, r1, pos1)"
      using settled_parse [of "take n mem" r pos n] assms(4) by (simp only: settled_parse)
    have "rc \<noteq> NGX_AGAIN"
    proof -
      have "rl_codes s" if "s = Return c x" for c x
        using sc scan_Return [of _ _ _ _ q c x] that by (metis rl_body_codes)
      moreover have "rl_done p r \<noteq> (NGX_AGAIN, r', q')" for p r r' q'
        by (simp add: rl_done_def Let_def ngx_rc)
      ultimately show ?thesis using assms(4) sc False
        by (cases s) (auto simp: ngx_http_parse_request_line_def ngx_rc split: prod.splits)
    qed
    with eq show ?thesis by simp
  qed
qed

theorem request_line_resumable_witness:
  "ngx_http_parse_request_line (take 9 (bytes ''GET /a HTTP/1.0'' @ [CR, LF])) ngx_http_new_request 0 9
     = (NGX_AGAIN, ngx_http_new_request\<lparr>r_state := rl_http_HT, r_method := NGX_HTTP_GET,
          r_request_start := Some 0, r_method_end := Some 2, r_uri_start := Some 4, r_uri_end := Some 6,
          r_http_protocol := Some 7\<rparr>, 9)
   \<and> settled (ngx_http_parse_request_line (bytes ''GET /a HTTP/1.0'' @ [CR, LF])
          (ngx_http_new_request\<lparr>r_state := rl_http_HT, r_method := NGX_HTTP_GET, r_request_start := Some 0,
             r_method_end := Some 2, r_uri_start := Some 4, r_uri_end := Some 6, r_http_protocol := Some 7\<rparr>) 9 17)
     = settled (ngx_http_parse_request_line (bytes ''GET /a HTTP/1.0'' @ [CR, LF]) ngx_http_new_request 0 17)"
proof -
  let ?m = "bytes ''GET /a HTTP/1.0'' @ [CR, LF]"
  let ?r = "ngx_http_new_request\<lparr>r_state := rl_http_HT, r_method := NGX_HTTP_GET, r_request_start := Some 0,
     r_method_end := Some 2, r_uri_start := Some 4, r_uri_end := Some 6, r_http_protocol := Some 7\<rparr>"
  have len: "17 \<le> length ?m" by (simp add: bytes_def)
  have first: "ngx_http_parse_request_line (take 9 ?m) ngx_http_new_request 0 9 = (NGX_AGAIN, ?r, 9)"
    by code_simp
  show ?thesis using request_line_resumable [OF _ _ len first] first by simp
qed

section \<open>What the flags say about the URI\<close>

text \<open>
  A plain path starts with a slash, no slash is followed by a slash or a dot, and it holds no
  byte that ends the path or needs decoding.
\<close>

fun no_dot_slash :: "ngx_str \<Rightarrow> bool" where
  "no_dot_slash (x # y # zs) \<longleftrightarrow> \<not> (x = ch_slash \<and> (y = ch_dot \<or> y = ch_slash)) \<and> no_dot_slash (y # zs)"
| "no_dot_slash xs \<longleftrightarrow> True"

definition path_char :: "u_char \<Rightarrow> bool" where
  "path_char c \<longleftrightarrow> c \<notin> {0, LF, CR, ch_sp, ch_hash, ch_percent, ch_question}"

definition plain_path :: "ngx_str \<Rightarrow> bool" where
  "plain_path xs \<longleftrightarrow> (case xs of [] \<Rightarrow> False | x # _ \<Rightarrow> x = ch_slash) \<and> list_all path_char xs \<and> no_dot_slash xs"

lemma no_dot_slash_snoc:
  "no_dot_slash (xs @ [c]) \<longleftrightarrow>
     no_dot_slash xs \<and> (xs \<noteq> [] \<longrightarrow> \<not> (last xs = ch_slash \<and> (c = ch_dot \<or> c = ch_slash)))"
  by (induction xs rule: no_dot_slash.induct) auto

lemma plain_path_snoc:
  "xs \<noteq> [] \<Longrightarrow> plain_path (xs @ [c]) \<longleftrightarrow>
     plain_path xs \<and> path_char c \<and> \<not> (last xs = ch_slash \<and> (c = ch_dot \<or> c = ch_slash))"
  using no_dot_slash_snoc [of xs c] by (cases xs) (auto simp: plain_path_def)

lemma plain_path_slash: "plain_path [ch_slash]"
  by (simp add: plain_path_def path_char_def)

lemma is_usual_iff:
  "is_usual c \<longleftrightarrow> c \<notin> {0, LF, CR, ch_sp, ch_hash, ch_percent, ch_plus, ch_dot, ch_slash, ch_question}"
proof -
  have "\<forall>c. is_usual c = (c \<notin> {0, LF, CR, ch_sp, ch_hash, ch_percent, ch_plus, ch_dot, ch_slash, ch_question})"
    unfolding byte_all by code_simp
  then show ?thesis by blast
qed

lemma window_snoc: "a \<le> q \<Longrightarrow> q < length mem \<Longrightarrow> window mem a (Suc q) = window mem a q @ [mem ! q]"
  by (simp add: window_def Suc_diff_le take_Suc_conv_app_nth)

lemma window_single: "q < length mem \<Longrightarrow> window mem q (Suc q) = [mem ! q]"
  by (simp add: window_snoc)

lemma window_eq_Nil_iff: "b \<le> length mem \<Longrightarrow> window mem a b = [] \<longleftrightarrow> b \<le> a"
  by (metis diff_is_0_eq length_0_conv window_length)

lemma last_window: "a < b \<Longrightarrow> b \<le> length mem \<Longrightarrow> last (window mem a b) = mem ! (b - 1)"
  by (simp add: last_conv_nth window_eq_Nil_iff window_nth)

definition in_range :: "nat \<Rightarrow> nat \<Rightarrow> nat option \<Rightarrow> bool" where
  "in_range a b x = (case x of None \<Rightarrow> True | Some v \<Rightarrow> a \<le> v \<and> v \<le> b)"

lemma in_range_simps [simp]: "in_range a b None" "in_range a b (Some v) \<longleftrightarrow> a \<le> v \<and> v \<le> b"
  by (simp_all add: in_range_def)

lemma in_range_Suc: "in_range a b x \<Longrightarrow> in_range a (Suc b) x"
  by (cases x) auto

definition rl_pointers :: "nat \<Rightarrow> nat \<Rightarrow> http_request \<Rightarrow> bool" where
  "rl_pointers a b r \<longleftrightarrow> list_all (in_range a b)
     [r_request_start r, r_request_end r, r_method_end r, r_schema_start r, r_schema_end r, r_host_start r,
      r_host_end r, r_port_end r, r_uri_start r, r_uri_end r, r_uri_ext r, r_args_start r, r_http_protocol r]"

text \<open>The URI is complete and its path is plain.\<close>

definition uri_plain :: "ngx_str \<Rightarrow> nat \<Rightarrow> http_request \<Rightarrow> bool" where
  "uri_plain mem q r =
     (case (r_uri_start r, r_uri_end r) of
        (Some us, Some ue) \<Rightarrow>
          (let e = (case r_args_start r of None \<Rightarrow> ue | Some a \<Rightarrow> a - 1)
           in us < e \<and> e \<le> ue \<and> ue \<le> q \<and> plain_path (window mem us e)
              \<and> (r_args_start r \<noteq> None \<longrightarrow> e < ue \<and> mem ! e = ch_question))
      | _ \<Rightarrow> False)"

definition rl_flagged :: "http_request \<Rightarrow> bool" where
  "rl_flagged r \<longleftrightarrow> r_complex_uri r \<or> r_quoted_uri r \<or> r_space_in_uri r"

definition rl_uri_inv :: "ngx_str \<Rightarrow> nat \<Rightarrow> nat \<Rightarrow> http_request \<Rightarrow> bool" where
  "rl_uri_inv mem q st r =
     (if st < rl_after_slash_in_uri \<and> st \<noteq> rl_host_http_09 then r_args_start r = None
      else rl_flagged r \<or>
        (if st = rl_after_slash_in_uri \<or> st = rl_check_uri then
           r_args_start r = None \<and>
           (case r_uri_start r of None \<Rightarrow> False
            | Some us \<Rightarrow> us < q \<and> plain_path (window mem us q) \<and> (st = rl_check_uri \<longrightarrow> mem ! (q - 1) \<noteq> ch_slash))
         else if st = rl_uri then
           (case (r_uri_start r, r_args_start r) of
              (Some us, Some a) \<Rightarrow> us < a - 1 \<and> a \<le> q \<and> mem ! (a - 1) = ch_question \<and> plain_path (window mem us (a - 1))
            | _ \<Rightarrow> False)
         else uri_plain mem q r \<and> (st = rl_check_uri_http_09 \<longrightarrow> r_args_start r = None)))"

definition rl_schema_inv :: "ngx_str \<Rightarrow> nat \<Rightarrow> nat \<Rightarrow> http_request \<Rightarrow> bool" where
  "rl_schema_inv mem q st r =
     (if st = rl_schema_slash then r_schema_end r = Some (q - 1)
      else if st = rl_schema_slash_slash \<or> st = rl_host \<or> st = rl_port then
        (case r_schema_end r of None \<Rightarrow> False | Some e \<Rightarrow> e + 2 \<le> q \<and> mem ! (e + 1) = ch_slash)
      else True)"

fun rl_inv :: "ngx_str \<Rightarrow> nat \<Rightarrow> nat \<Rightarrow> rl_vars \<Rightarrow> bool" where
  "rl_inv mem a q (st, r) \<longleftrightarrow>
     st < 24 \<and> (st \<noteq> rl_start \<longrightarrow> a < q) \<and> rl_pointers a q r \<and> rl_schema_inv mem q st r \<and> rl_uri_inv mem q st r"

fun rl_post :: "ngx_str \<Rightarrow> nat \<Rightarrow> nat \<Rightarrow> rl_vars scan_step \<Rightarrow> bool" where
  "rl_post mem a q (Goto_done (st, r)) \<longleftrightarrow> rl_pointers a q r \<and> (rl_flagged r \<or> uri_plain mem q r)"
| "rl_post mem a q (Return rc (st, r)) \<longleftrightarrow> rl_pointers a (Suc q) r"
| "rl_post mem a q _ \<longleftrightarrow> False"

lemma rl_pointers_Suc: "rl_pointers a q r \<Longrightarrow> rl_pointers a (Suc q) r"
  by (auto simp: rl_pointers_def intro: in_range_Suc)

lemma uri_plain_Suc: "uri_plain mem q r \<Longrightarrow> uri_plain mem (Suc q) r"
  by (auto simp: uri_plain_def Let_def split: option.splits)

lemma less_24_cases:
  assumes "st < (24 :: nat)"
  obtains "st = 0" | "st = 1" | "st = 2" | "st = 3" | "st = 4" | "st = 5" | "st = 6" | "st = 7"
    | "st = 8" | "st = 9" | "st = 10" | "st = 11" | "st = 12" | "st = 13" | "st = 14" | "st = 15"
    | "st = 16" | "st = 17" | "st = 18" | "st = 19" | "st = 20" | "st = 21" | "st = 22" | "st = 23"
proof -
  have "st \<in> set [0, 1, 2, 3, 4, 5, 6, 7, 8, 9, 10, 11, 12, 13, 14, 15, 16, 17, 18, 19, 20, 21, 22, 23]"
    using assms by (simp add: numeral_eq_Suc less_Suc_eq)
  then show ?thesis using that by (simp only: list.set) blast
qed


lemmas rl_inv_defs = rl_schema_inv_def rl_uri_inv_def rl_flagged_def
lemmas rl_pointer_simps = rl_pointers_def in_range_Suc rl_single_slash_def Let_def
lemmas rl_path_simps = uri_plain_def window_snoc window_single plain_path_slash plain_path_snoc window_eq_Nil_iff
  last_window is_usual_iff path_char_def

text \<open>The dispatch, state by state.\<close>

lemma rl_body_states [simp]:
  "rl_body mem p ch (0, r) = rl_sw_start p ch r"
  "rl_body mem p ch (Suc 0, r) = rl_sw_method mem p ch r"
  "rl_body mem p ch (2, r) = rl_sw_spaces_before_uri p ch r"
  "rl_body mem p ch (3, r) = rl_sw_schema p ch r"
  "rl_body mem p ch (4, r) = rl_sw_schema_slash p ch r"
  "rl_body mem p ch (5, r) = rl_sw_schema_slash_slash p ch r"
  "rl_body mem p ch (6, r) = rl_sw_host p ch r"
  "rl_body mem p ch (7, r) = rl_sw_port p ch r"
  "rl_body mem p ch (8, r) = rl_sw_host_http_09 p ch r"
  "rl_body mem p ch (9, r) = rl_sw_after_slash_in_uri p ch r"
  "rl_body mem p ch (10, r) = rl_sw_check_uri p ch r"
  "rl_body mem p ch (11, r) = rl_sw_check_uri_http_09 p ch r"
  "rl_body mem p ch (12, r) = rl_sw_uri p ch r"
  "rl_body mem p ch (13, r) = rl_sw_http_09 p ch r"
  "rl_body mem p ch (14, r) = rl_expect ch_T 14 15 ch r"
  "rl_body mem p ch (15, r) = rl_expect ch_T 15 16 ch r"
  "rl_body mem p ch (16, r) = rl_expect ch_P 16 17 ch r"
  "rl_body mem p ch (17, r) = rl_expect ch_slash 17 18 ch r"
  "rl_body mem p ch (18, r) = rl_sw_first_major_digit ch r"
  "rl_body mem p ch (19, r) = rl_sw_major_digit ch r"
  "rl_body mem p ch (20, r) = rl_sw_first_minor_digit ch r"
  "rl_body mem p ch (21, r) = rl_sw_minor_digit ch r"
  "rl_body mem p ch (22, r) = rl_sw_spaces_after_digit ch r"
  "rl_body mem p ch (23, r) = rl_sw_almost_done p ch r"
  by simp_all

declare rl_body.simps [simp del]

definition rl_step_ok :: "ngx_str \<Rightarrow> nat \<Rightarrow> nat \<Rightarrow> rl_vars scan_step \<Rightarrow> bool" where
  "rl_step_ok mem a q s = (case s of Break y \<Rightarrow> rl_inv mem a (Suc q) y | _ \<Rightarrow> rl_post mem a q s)"

lemma rl_step_ok_simps [simp]:
  "rl_step_ok mem a q (Break y) = rl_inv mem a (Suc q) y"
  "rl_step_ok mem a q (Goto_done y) = rl_post mem a q (Goto_done y)"
  "rl_step_ok mem a q (Return rc y) = rl_post mem a q (Return rc y)"
  by (simp_all add: rl_step_ok_def)

lemma rl_inv_start:
  "rl_inv mem a q (0, r) \<Longrightarrow> q < length mem \<Longrightarrow> a \<le> q \<Longrightarrow> rl_step_ok mem a q (rl_sw_start q (mem ! q) r)"
  by (auto simp: rl_sw_start_def rl_inv_defs rl_pointer_simps rl_path_simps split: option.splits)

lemma rl_inv_method:
  "rl_inv mem a q (1, r) \<Longrightarrow> q < length mem \<Longrightarrow> a \<le> q \<Longrightarrow> rl_step_ok mem a q (rl_sw_method mem q (mem ! q) r)"
  by (auto simp: rl_sw_method_def rl_inv_defs rl_pointer_simps rl_path_simps split: option.splits)

lemma rl_inv_spaces_before_uri:
  "rl_inv mem a q (2, r) \<Longrightarrow> q < length mem \<Longrightarrow> a \<le> q \<Longrightarrow> rl_step_ok mem a q (rl_sw_spaces_before_uri q (mem ! q) r)"
  by (auto simp: rl_sw_spaces_before_uri_def rl_inv_defs rl_pointer_simps rl_path_simps split: option.splits)

lemma rl_inv_schema:
  "rl_inv mem a q (3, r) \<Longrightarrow> q < length mem \<Longrightarrow> a \<le> q \<Longrightarrow> rl_step_ok mem a q (rl_sw_schema q (mem ! q) r)"
  by (auto simp: rl_sw_schema_def rl_inv_defs rl_pointer_simps rl_path_simps split: option.splits)

lemma rl_inv_schema_slash:
  "rl_inv mem a q (4, r) \<Longrightarrow> q < length mem \<Longrightarrow> a \<le> q \<Longrightarrow> rl_step_ok mem a q (rl_sw_schema_slash q (mem ! q) r)"
  by (auto simp: rl_sw_schema_slash_def rl_inv_defs rl_pointer_simps rl_path_simps split: option.splits)

lemma rl_inv_schema_slash_slash:
  "rl_inv mem a q (5, r) \<Longrightarrow> q < length mem \<Longrightarrow> a \<le> q \<Longrightarrow> rl_step_ok mem a q (rl_sw_schema_slash_slash q (mem ! q) r)"
  by (auto simp: rl_sw_schema_slash_slash_def rl_inv_defs rl_pointer_simps rl_path_simps split: option.splits)

lemma rl_inv_host:
  "rl_inv mem a q (6, r) \<Longrightarrow> q < length mem \<Longrightarrow> a \<le> q \<Longrightarrow> rl_step_ok mem a q (rl_sw_host q (mem ! q) r)"
  by (auto simp: rl_sw_host_def rl_inv_defs rl_pointer_simps rl_path_simps split: option.splits)

lemma rl_inv_port:
  "rl_inv mem a q (7, r) \<Longrightarrow> q < length mem \<Longrightarrow> a \<le> q \<Longrightarrow> rl_step_ok mem a q (rl_sw_port q (mem ! q) r)"
  by (auto simp: rl_sw_port_def rl_inv_defs rl_pointer_simps rl_path_simps split: option.splits)

lemma rl_inv_host_http_09:
  "rl_inv mem a q (8, r) \<Longrightarrow> q < length mem \<Longrightarrow> a \<le> q \<Longrightarrow> rl_step_ok mem a q (rl_sw_host_http_09 q (mem ! q) r)"
  by (auto simp: rl_sw_host_http_09_def rl_inv_defs rl_pointer_simps rl_path_simps split: option.splits)

lemma rl_inv_after_slash_in_uri:
  "rl_inv mem a q (9, r) \<Longrightarrow> q < length mem \<Longrightarrow> a \<le> q \<Longrightarrow> rl_step_ok mem a q (rl_sw_after_slash_in_uri q (mem ! q) r)"
  by (auto simp: rl_sw_after_slash_in_uri_def rl_inv_defs rl_pointer_simps rl_path_simps split: option.splits)

lemma rl_inv_check_uri:
  "rl_inv mem a q (10, r) \<Longrightarrow> q < length mem \<Longrightarrow> a \<le> q \<Longrightarrow> rl_step_ok mem a q (rl_sw_check_uri q (mem ! q) r)"
  by (auto simp: rl_sw_check_uri_def rl_inv_defs rl_pointer_simps rl_path_simps split: option.splits)

lemma rl_inv_check_uri_http_09:
  "rl_inv mem a q (11, r) \<Longrightarrow> q < length mem \<Longrightarrow> a \<le> q \<Longrightarrow> rl_step_ok mem a q (rl_sw_check_uri_http_09 q (mem ! q) r)"
  by (auto simp: rl_sw_check_uri_http_09_def rl_inv_defs rl_pointer_simps rl_path_simps split: option.splits)

lemma rl_inv_uri:
  "rl_inv mem a q (12, r) \<Longrightarrow> q < length mem \<Longrightarrow> a \<le> q \<Longrightarrow> rl_step_ok mem a q (rl_sw_uri q (mem ! q) r)"
  by (auto simp: rl_sw_uri_def rl_inv_defs rl_pointer_simps rl_path_simps split: option.splits)

lemma rl_inv_http_09:
  "rl_inv mem a q (13, r) \<Longrightarrow> q < length mem \<Longrightarrow> a \<le> q \<Longrightarrow> rl_step_ok mem a q (rl_sw_http_09 q (mem ! q) r)"
  by (auto simp: rl_sw_http_09_def rl_inv_defs rl_pointer_simps rl_path_simps split: option.splits)

lemma rl_inv_first_major_digit:
  "rl_inv mem a q (18, r) \<Longrightarrow> q < length mem \<Longrightarrow> a \<le> q \<Longrightarrow> rl_step_ok mem a q (rl_sw_first_major_digit (mem ! q) r)"
  by (auto simp: rl_sw_first_major_digit_def rl_inv_defs rl_pointer_simps rl_path_simps split: option.splits)

lemma rl_inv_major_digit:
  "rl_inv mem a q (19, r) \<Longrightarrow> q < length mem \<Longrightarrow> a \<le> q \<Longrightarrow> rl_step_ok mem a q (rl_sw_major_digit (mem ! q) r)"
  by (auto simp: rl_sw_major_digit_def rl_inv_defs rl_pointer_simps rl_path_simps split: option.splits)

lemma rl_inv_first_minor_digit:
  "rl_inv mem a q (20, r) \<Longrightarrow> q < length mem \<Longrightarrow> a \<le> q \<Longrightarrow> rl_step_ok mem a q (rl_sw_first_minor_digit (mem ! q) r)"
  by (auto simp: rl_sw_first_minor_digit_def rl_inv_defs rl_pointer_simps rl_path_simps split: option.splits)

lemma rl_inv_minor_digit:
  "rl_inv mem a q (21, r) \<Longrightarrow> q < length mem \<Longrightarrow> a \<le> q \<Longrightarrow> rl_step_ok mem a q (rl_sw_minor_digit (mem ! q) r)"
  by (auto simp: rl_sw_minor_digit_def rl_inv_defs rl_pointer_simps rl_path_simps split: option.splits)

lemma rl_inv_spaces_after_digit:
  "rl_inv mem a q (22, r) \<Longrightarrow> q < length mem \<Longrightarrow> a \<le> q \<Longrightarrow> rl_step_ok mem a q (rl_sw_spaces_after_digit (mem ! q) r)"
  by (auto simp: rl_sw_spaces_after_digit_def rl_inv_defs rl_pointer_simps rl_path_simps split: option.splits)

lemma rl_inv_almost_done:
  "rl_inv mem a q (23, r) \<Longrightarrow> q < length mem \<Longrightarrow> a \<le> q \<Longrightarrow> rl_step_ok mem a q (rl_sw_almost_done q (mem ! q) r)"
  by (auto simp: rl_sw_almost_done_def rl_inv_defs rl_pointer_simps rl_path_simps split: option.splits)

lemma rl_inv_expect:
  "rl_inv mem a q (14, r) \<Longrightarrow> rl_step_ok mem a q (rl_expect c 14 15 ch r)"
  "rl_inv mem a q (15, r) \<Longrightarrow> rl_step_ok mem a q (rl_expect c 15 16 ch r)"
  "rl_inv mem a q (16, r) \<Longrightarrow> rl_step_ok mem a q (rl_expect c 16 17 ch r)"
  "rl_inv mem a q (17, r) \<Longrightarrow> rl_step_ok mem a q (rl_expect c 17 18 ch r)"
  by (auto simp: rl_expect_def rl_inv_defs rl_pointer_simps intro: uri_plain_Suc)

lemmas rl_inv_states = rl_inv_start rl_inv_method rl_inv_spaces_before_uri rl_inv_schema rl_inv_schema_slash
  rl_inv_schema_slash_slash rl_inv_host rl_inv_port rl_inv_host_http_09 rl_inv_after_slash_in_uri
  rl_inv_check_uri rl_inv_check_uri_http_09 rl_inv_uri rl_inv_http_09 rl_inv_first_major_digit
  rl_inv_major_digit rl_inv_first_minor_digit rl_inv_minor_digit rl_inv_spaces_after_digit rl_inv_almost_done

lemma rl_inv_step:
  assumes inv: "rl_inv mem a q (st, r)" and q: "q < length mem" and a: "a \<le> q"
  shows "rl_step_ok mem a q (rl_body mem q (mem ! q) (st, r))"
proof -
  have "st < 24" using inv by simp
  then show ?thesis
    by (cases rule: less_24_cases)
      (use inv in \<open>simp_all only: rl_body_states One_nat_def\<close>,
       (rule rl_inv_states [OF _ q a] rl_inv_expect, simp only: One_nat_def)+)
qed

lemma rl_inv_scan:
  assumes "a \<le> b" and "b \<le> length mem"
  shows "case scan (rl_body mem) a (window mem a b) (0, ngx_http_new_request) of
      (q, Break y) \<Rightarrow> q = b \<and> rl_inv mem a q y
    | (q, s) \<Rightarrow> a \<le> q \<and> q < b \<and> rl_post mem a q s"
proof (rule scan_window_invariant [where I = "rl_inv mem a", OF _ assms])
  show "rl_inv mem a a (0, ngx_http_new_request)"
    by (simp add: rl_inv_defs rl_pointers_def ngx_http_new_request_def)
  fix q y assume "rl_inv mem a q y" "a \<le> q" "q < b"
  then show "case rl_body mem q (mem ! q) y of Break y' \<Rightarrow> rl_inv mem a (Suc q) y' | s \<Rightarrow> rl_post mem a q s"
    using rl_inv_step [of mem a q "fst y" "snd y"] assms(2)
    by (auto simp: rl_step_ok_def split: scan_step.splits)
qed

lemma rl_pointers_mono: "rl_pointers a q r \<Longrightarrow> q \<le> b \<Longrightarrow> rl_pointers a b r"
  unfolding rl_pointers_def by (erule list.pred_mono_strong) (auto simp: in_range_def split: option.splits)

lemma rl_pointers_upd [simp]:
  "rl_pointers a b (r\<lparr>r_state := s\<rparr>) = rl_pointers a b r"
  "rl_pointers a b (r\<lparr>r_http_version := v\<rparr>) = rl_pointers a b r"
  "rl_pointers a b r \<Longrightarrow> a \<le> p \<Longrightarrow> p \<le> b \<Longrightarrow> rl_pointers a b (r\<lparr>r_request_end := Some p\<rparr>)"
  by (auto simp: rl_pointers_def)

lemma rl_done_fields:
  assumes "rl_done p r = (rc, r', q)"
  shows "q = p + 1" "r_uri_start r' = r_uri_start r" "r_uri_end r' = r_uri_end r" "r_args_start r' = r_args_start r"
    "rl_flagged r' = rl_flagged r" "rl_pointers a b r \<Longrightarrow> a \<le> p \<Longrightarrow> p \<le> b \<Longrightarrow> rl_pointers a b r'"
  using assms by (auto simp: rl_done_def Let_def rl_flagged_def split: if_splits)

text \<open>
  C30. Whatever bytes a client sends, every pointer that parsing a new request's line stores
  in the request, and the new buffer position, lie between the old position and the end of
  the received bytes, on success, on an error and when more bytes are needed.
\<close>

theorem request_line_pointers_in_buffer:
  assumes "pos \<le> lst" and "lst \<le> length mem"
    and "ngx_http_parse_request_line mem ngx_http_new_request pos lst = (rc, r, pos')"
  shows "rl_pointers pos lst r \<and> pos \<le> pos' \<and> pos' \<le> lst"
proof -
  obtain q s where sc: "scan (rl_body mem) pos (window mem pos lst) (0, ngx_http_new_request) = (q, s)"
    by force
  have st: "r_state ngx_http_new_request = 0" by (simp add: ngx_http_new_request_def)
  note inv = rl_inv_scan [OF assms(1,2), unfolded sc]
  show ?thesis
  proof (cases s)
    case (Break x)
    with inv sc st assms show ?thesis
      by (cases x) (auto simp: ngx_http_parse_request_line_def)
  next
    case (Return c x)
    with inv sc st assms show ?thesis
      by (cases x) (auto simp: ngx_http_parse_request_line_def intro: rl_pointers_mono)
  next
    case (Goto_done x)
    with sc st assms(3) have d: "rl_done q (snd x) = (rc, r, pos')"
      by (cases x) (simp add: ngx_http_parse_request_line_def)
    have "rl_pointers pos lst (snd x)" "pos \<le> q" "q < lst"
      using inv Goto_done by (cases x; auto intro: rl_pointers_mono)+
    then show ?thesis using rl_done_fields [OF d] by auto
  next
    case (Goto_header_done x)
    then show ?thesis using inv by simp
  qed
qed





text \<open>A request line to evaluate the two theorems on.\<close>

definition sample_line :: ngx_str where
  "sample_line = bytes ''PUT /dir/file.txt?a=%20 HTTP/1.1'' @ [CR, LF]"

definition sample_request :: http_request where
  "sample_request = ngx_http_new_request\<lparr>r_method := NGX_HTTP_PUT, r_http_version := 1001,
     r_request_start := Some 0, r_request_end := Some 32, r_method_end := Some 2, r_uri_start := Some 4,
     r_uri_end := Some 23, r_uri_ext := Some 14, r_args_start := Some 18, r_http_protocol := Some 24,
     r_http_minor := 1, r_http_major := 1\<rparr>"

lemma sample_line_parsed:
  "ngx_http_parse_request_line sample_line ngx_http_new_request 0 34 = (NGX_OK, sample_request, 34)"
  by code_simp

theorem request_line_pointers_in_buffer_witness:
  "rl_pointers 0 34 sample_request \<and> 0 \<le> (34 :: nat) \<and> 34 \<le> (34 :: nat)"
  by (rule request_line_pointers_in_buffer [OF _ _ sample_line_parsed]) (simp_all add: sample_line_def bytes_def)



section \<open>Reading back a request line\<close>

definition method_table :: "(ngx_str \<times> ngx_uint) list" where
  "method_table =
     [(bytes ''GET'', NGX_HTTP_GET), (bytes ''HEAD'', NGX_HTTP_HEAD), (bytes ''POST'', NGX_HTTP_POST),
      (bytes ''PUT'', NGX_HTTP_PUT), (bytes ''DELETE'', NGX_HTTP_DELETE), (bytes ''MKCOL'', NGX_HTTP_MKCOL),
      (bytes ''COPY'', NGX_HTTP_COPY), (bytes ''MOVE'', NGX_HTTP_MOVE), (bytes ''OPTIONS'', NGX_HTTP_OPTIONS),
      (bytes ''PROPFIND'', NGX_HTTP_PROPFIND), (bytes ''PROPPATCH'', NGX_HTTP_PROPPATCH),
      (bytes ''LOCK'', NGX_HTTP_LOCK), (bytes ''UNLOCK'', NGX_HTTP_UNLOCK), (bytes ''PATCH'', NGX_HTTP_PATCH),
      (bytes ''TRACE'', NGX_HTTP_TRACE), (bytes ''BREW'', NGX_HTTP_UNKNOWN), (bytes ''GE_'', NGX_HTTP_UNKNOWN)]"

lemma method_table_scan:
  assumes "(name, code) \<in> set method_table"
  shows "scan (rl_body (name @ [ch_sp])) 0 (name @ [ch_sp]) (0, ngx_http_new_request)
     = (length name + 1, Break (rl_spaces_before_uri,
          ngx_http_new_request\<lparr>r_request_start := Some 0, r_method_end := Some (length name - 1), r_method := code\<rparr>))"
proof -
  have "list_all (\<lambda>(name, code). scan (rl_body (name @ [ch_sp])) 0 (name @ [ch_sp]) (0, ngx_http_new_request)
     = (length name + 1, Break (rl_spaces_before_uri,
          ngx_http_new_request\<lparr>r_request_start := Some 0, r_method_end := Some (length name - 1), r_method := code\<rparr>)))
     method_table"
    by code_simp
  then show ?thesis using assms by (auto simp: list_all_iff)
qed

definition uri_char :: "u_char \<Rightarrow> bool" where
  "uri_char c \<longleftrightarrow> c \<notin> {0, LF, CR, ch_sp}"

text \<open>The fields that reading the URI leaves alone.\<close>

definition rl_frame :: "http_request \<Rightarrow> http_request" where
  "rl_frame r = r\<lparr>r_complex_uri := False, r_quoted_uri := False, r_plus_in_uri := False, r_uri_ext := None,
     r_args_start := None\<rparr>"

lemma uri_char_step:
  assumes "uri_char c" and "st \<in> {9, 10, 12}"
  shows "\<exists>st' r'. rl_body mem p c (st, r) = Break (st', r') \<and> st' \<in> {9, 10, 12} \<and> rl_frame r' = rl_frame r"
proof -
  have frame: "rl_frame (r\<lparr>r_complex_uri := True\<rparr>) = rl_frame r" "rl_frame (r\<lparr>r_quoted_uri := True\<rparr>) = rl_frame r"
    "rl_frame (r\<lparr>r_plus_in_uri := True\<rparr>) = rl_frame r" "rl_frame (r\<lparr>r_uri_ext := e\<rparr>) = rl_frame r"
    "rl_frame (r\<lparr>r_args_start := e\<rparr>) = rl_frame r" for e
    by (simp_all add: rl_frame_def)
  consider "st = 9" | "st = 10" | "st = 12" using assms(2) by blast
  then show ?thesis
    using assms(1)
    by cases (simp_all add: rl_sw_after_slash_in_uri_def rl_sw_check_uri_def rl_sw_uri_def uri_char_def frame)
qed

lemma uri_scan:
  assumes "list_all uri_char u" and "st \<in> {9, 10, 12}"
  shows "\<exists>st' r'. scan (rl_body mem) p u (st, r) = (p + length u, Break (st', r')) \<and> st' \<in> {9, 10, 12}
     \<and> rl_frame r' = rl_frame r"
  using assms
proof (induction u arbitrary: p st r)
  case Nil
  then show ?case by auto
next
  case (Cons c u)
  from Cons.prems obtain st1 r1 where
    one: "rl_body mem p c (st, r) = Break (st1, r1)" "st1 \<in> {9, 10, 12}" "rl_frame r1 = rl_frame r"
    using uri_char_step [of c st mem p r] by auto
  obtain st' r' where
    "scan (rl_body mem) (Suc p) u (st1, r1) = (Suc p + length u, Break (st', r'))" "st' \<in> {9, 10, 12}"
    "rl_frame r' = rl_frame r1"
    using Cons.IH [of st1 "Suc p" r1] Cons.prems one(2) by auto
  with one show ?case by auto
qed

definition version_text :: "u_char \<Rightarrow> u_char \<Rightarrow> ngx_str" where
  "version_text d1 d2 = ch_H # ch_T # ch_T # ch_P # ch_slash # d1 # ch_dot # d2 # CR # LF # []"

lemma version_scan:
  assumes "ch_1 \<le> d1" "d1 \<le> ch_9" "ch_0 \<le> d2" "d2 \<le> ch_9" and "st \<in> {11, 13}"
  shows "scan (rl_body mem) p (version_text d1 d2) (st, r)
     = (p + 9, Goto_done (rl_almost_done, r\<lparr>r_http_protocol := Some p, r_http_major := ucast d1 - 0x30,
          r_http_minor := ucast d2 - 0x30, r_request_end := Some (p + 8)\<rparr>))"
proof -
  have "\<not> d1 < ch_1" "\<not> d1 > ch_9" "\<not> d2 < ch_0" "\<not> d2 > ch_9"
    using assms by (simp_all add: not_less)
  then show ?thesis
    using assms(5) by (auto simp: version_text_def rl_sw_check_uri_http_09_def rl_sw_http_09_def rl_expect_def
        rl_sw_first_major_digit_def rl_sw_major_digit_def rl_sw_first_minor_digit_def rl_sw_minor_digit_def
        rl_sw_almost_done_def Let_def)
qed


lemma request_line_scan:
  assumes "(name, code) \<in> set method_table" and "list_all uri_char u"
    and d: "ch_1 \<le> d1" "d1 \<le> ch_9" "ch_0 \<le> d2" "d2 \<le> ch_9"
    and mem: "mem = (name @ [ch_sp]) @ (ch_slash # u) @ ch_sp # version_text d1 d2"
  shows "\<exists>r. scan (rl_body mem) 0 mem (0, ngx_http_new_request)
      = (length mem - 1, Goto_done (rl_almost_done, r\<lparr>r_uri_end := Some (length name + 2 + length u),
          r_http_protocol := Some (length name + 3 + length u), r_http_major := ucast d1 - 0x30,
          r_http_minor := ucast d2 - 0x30, r_request_end := Some (length mem - 2)\<rparr>))
    \<and> rl_frame r = ngx_http_new_request\<lparr>r_request_start := Some 0, r_method_end := Some (length name - 1),
          r_method := code, r_uri_start := Some (length name + 1)\<rparr>"
proof -
  let ?r1 = "ngx_http_new_request\<lparr>r_request_start := Some 0, r_method_end := Some (length name - 1), r_method := code\<rparr>"
  let ?r2 = "?r1\<lparr>r_uri_start := Some (length name + 1)\<rparr>"
  have one: "scan (rl_body mem) 0 (name @ [ch_sp]) (0, ngx_http_new_request) = (length name + 1, Break (2, ?r1))"
    using method_table_scan [OF assms(1)] rl.scan_local [of "length name + 1" mem "name @ [ch_sp]" 0 "name @ [ch_sp]"]
    by (simp add: mem)
  obtain st r where two: "scan (rl_body mem) (length name + 2) u (9, ?r2)
      = (length name + 2 + length u, Break (st, r))" "st \<in> {9, 10, 12}" "rl_frame r = rl_frame ?r2"
    using uri_scan [OF assms(2), of 9 mem "length name + 2" ?r2] by auto
  obtain st' where sp: "rl_body mem (length name + 2 + length u) ch_sp (st, r)
      = Break (st', r\<lparr>r_uri_end := Some (length name + 2 + length u)\<rparr>)" "st' \<in> {11, 13}"
    using two(2) by (auto simp: rl_sw_after_slash_in_uri_def rl_sw_check_uri_def rl_sw_uri_def is_usual_iff)
  have "scan (rl_body mem) 0 ((name @ [ch_sp]) @ (ch_slash # u) @ ch_sp # version_text d1 d2) (0, ngx_http_new_request)
      = scan (rl_body mem) (length name + 1) ((ch_slash # u) @ ch_sp # version_text d1 d2) (2, ?r1)"
    by (subst scan_append) (simp only: one prod.case scan_step.case)
  also have "\<dots> = scan (rl_body mem) (length name + 3 + length u) (version_text d1 d2)
      (st', r\<lparr>r_uri_end := Some (length name + 2 + length u)\<rparr>)"
    using two(1) sp(1) by (simp add: scan_append rl_sw_spaces_before_uri_def numeral_3_eq_3)
  finally have "scan (rl_body mem) 0 mem (0, ngx_http_new_request) = scan (rl_body mem) (length name + 3 + length u)
      (version_text d1 d2) (st', r\<lparr>r_uri_end := Some (length name + 2 + length u)\<rparr>)"
    by (simp only: mem [symmetric])
  moreover have "length mem = length name + length u + 13" by (simp add: mem version_text_def)
  moreover have "rl_frame ?r2 = ?r2" by (simp add: rl_frame_def ngx_http_new_request_def)
  ultimately show ?thesis
    using version_scan [OF d sp(2), of mem] two(3) by (intro exI [of _ r]) (simp add: ac_simps)
qed


lemma digit_value:
  assumes "ch_0 \<le> d" "d \<le> ch_9"
  shows "(ucast (ucast d - 0x30 :: 16 word) :: ngx_uint) = of_nat (unat d - 48)"
proof -
  have "\<forall>d. ch_0 \<le> d \<and> d \<le> ch_9 \<longrightarrow> (ucast (ucast d - 0x30 :: 16 word) :: ngx_uint) = of_nat (unat d - 48)"
    unfolding byte_all by code_simp
  then show ?thesis using assms by blast
qed

lemma version_value:
  assumes "ch_1 \<le> d1" "d1 \<le> ch_9" "ch_0 \<le> d2" "d2 \<le> ch_9"
  shows "(ucast (ucast d1 - 0x30 :: 16 word) * 1000 + ucast (ucast d2 - 0x30 :: 16 word) :: ngx_uint)
           = of_nat ((unat d1 - 48) * 1000 + (unat d2 - 48))"
    and "(of_nat ((unat d1 - 48) * 1000 + (unat d2 - 48)) :: ngx_uint) \<noteq> 9"
proof -
  have d: "49 \<le> unat d1" "unat d1 \<le> 57" "unat d2 \<le> 57"
    using assms by (simp_all add: word_le_nat_alt)
  have "ch_0 \<le> d1" using d by (simp add: word_le_nat_alt)
  then show "(ucast (ucast d1 - 0x30 :: 16 word) * 1000 + ucast (ucast d2 - 0x30 :: 16 word) :: ngx_uint)
      = of_nat ((unat d1 - 48) * 1000 + (unat d2 - 48))"
    using assms by (simp add: digit_value)
  have "unat (of_nat ((unat d1 - 48) * 1000 + (unat d2 - 48)) :: ngx_uint) = (unat d1 - 48) * 1000 + (unat d2 - 48)"
    unfolding unat_of_nat by (rule mod_less) (use d in simp)
  moreover have "1000 \<le> (unat d1 - 48) * 1000 + (unat d2 - 48)" using d by simp
  ultimately have "unat (of_nat ((unat d1 - 48) * 1000 + (unat d2 - 48)) :: ngx_uint) \<noteq> unat (9 :: ngx_uint)"
    by simp
  then show "(of_nat ((unat d1 - 48) * 1000 + (unat d2 - 48)) :: ngx_uint) \<noteq> 9" by metis
qed

text \<open>
  C18. Reading back a request line: for every method name of the table with its code (two
  unknown names included), every URI that starts with a slash and holds no NUL, CR, LF or
  space, and every version \<open>HTTP/d.d\<close> with a major digit from 1 on, parsing the written line
  succeeds, consumes exactly the line, and the request gets the method code, the version
  number and pointers that delimit exactly the URI.
\<close>

theorem request_line_roundtrip:
  assumes "(name, code) \<in> set method_table" and "list_all uri_char u"
    and "ch_1 \<le> d1" and "d1 \<le> ch_9" and "ch_0 \<le> d2" and "d2 \<le> ch_9"
    and "line = name @ [ch_sp] @ (ch_slash # u) @ [ch_sp] @ bytes ''HTTP/'' @ [d1, ch_dot, d2, CR, LF]"
  shows "\<exists>r us ue. ngx_http_parse_request_line line ngx_http_new_request 0 (length line) = (NGX_OK, r, length line)
      \<and> r_method r = code \<and> r_http_version r = of_nat ((unat d1 - 48) * 1000 + (unat d2 - 48))
      \<and> r_uri_start r = Some us \<and> r_uri_end r = Some ue \<and> window line us ue = ch_slash # u
      \<and> r_request_end r = Some (length line - 2) \<and> r_state r = 0"
proof -
  have line: "line = (name @ [ch_sp]) @ (ch_slash # u) @ ch_sp # version_text d1 d2"
    unfolding assms(7) version_text_def by (simp add: bytes_def)
  obtain r where sc: "scan (rl_body line) 0 line (0, ngx_http_new_request)
      = (length line - 1, Goto_done (rl_almost_done, r\<lparr>r_uri_end := Some (length name + 2 + length u),
          r_http_protocol := Some (length name + 3 + length u), r_http_major := ucast d1 - 0x30,
          r_http_minor := ucast d2 - 0x30, r_request_end := Some (length line - 2)\<rparr>))"
    and fr: "rl_frame r = ngx_http_new_request\<lparr>r_request_start := Some 0, r_method_end := Some (length name - 1),
          r_method := code, r_uri_start := Some (length name + 1)\<rparr>"
    using request_line_scan [OF assms(1-6) line] by auto
  have frm: "r_method r = r_method (rl_frame r)" "r_uri_start r = r_uri_start (rl_frame r)"
    by (simp_all add: rl_frame_def)
  have w: "window line 0 (length line) = line" by (simp add: window_def)
  have win: "window line (length name + 1) (length name + 2 + length u) = ch_slash # u"
    by (simp add: window_def line)
  have "0 < length line" by (simp add: line)
  then show ?thesis
    using sc w win version_value [OF assms(3-6)] frm fr
    by (auto simp: ngx_http_parse_request_line_def rl_done_def Let_def ngx_http_new_request_def
        simp del: of_nat_add of_nat_mult)
qed

theorem request_line_roundtrip_witness:
  "\<exists>r us ue. ngx_http_parse_request_line (bytes ''HEAD /x//y?z HTTP/1.1'' @ [CR, LF]) ngx_http_new_request 0 23
        = (NGX_OK, r, 23)
      \<and> r_method r = NGX_HTTP_HEAD \<and> r_http_version r = 1001
      \<and> r_uri_start r = Some us \<and> r_uri_end r = Some ue
      \<and> window (bytes ''HEAD /x//y?z HTTP/1.1'' @ [CR, LF]) us ue = bytes ''/x//y?z''
      \<and> r_request_end r = Some 21 \<and> r_state r = 0"
proof -
  let ?u = "bytes ''x//y?z''"
  have t: "(bytes ''HEAD'', NGX_HTTP_HEAD) \<in> set method_table" by (simp add: method_table_def)
  have u: "list_all uri_char ?u" by (simp add: uri_char_def bytes_def)
  have line: "bytes ''HEAD /x//y?z HTTP/1.1'' @ [CR, LF]
      = bytes ''HEAD'' @ [ch_sp] @ (ch_slash # ?u) @ [ch_sp] @ bytes ''HTTP/'' @ [0x31, ch_dot, 0x31, CR, LF]"
    by (simp add: bytes_def)
  have "length (bytes ''HEAD /x//y?z HTTP/1.1'' @ [CR, LF]) = 23" "bytes ''/x//y?z'' = ch_slash # ?u"
    by (simp_all add: bytes_def)
  then show ?thesis
    using request_line_roundtrip [OF t u _ _ _ _ line] by simp
qed

section \<open>Comparing by 32-bit loads\<close>

lemma le32_bytes:
  "(ucast (le32 c0 c1 c2 c3) :: u_char) = c0" "(ucast (drop_bit 8 (le32 c0 c1 c2 c3)) :: u_char) = c1"
  "(ucast (drop_bit 16 (le32 c0 c1 c2 c3)) :: u_char) = c2" "(ucast (drop_bit 24 (le32 c0 c1 c2 c3)) :: u_char) = c3"
  by (rule bit_word_eqI; auto simp: le32_def bit_simps dest: bit_imp_le_length)+

lemma le32_eq_iff: "le32 c0 c1 c2 c3 = le32 b0 b1 b2 b3 \<longleftrightarrow> c0 = b0 \<and> c1 = b1 \<and> c2 = b2 \<and> c3 = b3"
  by (metis le32_bytes)

lemma le32_low_half: "le32 c0 c1 c2 c3 AND 0xffff = le32 c0 c1 0 0"
proof (rule bit_word_eqI)
  fix n assume "n < LENGTH(32)"
  have m: "(0xffff :: uint32) = mask 16" by (simp add: mask_eq_exp_minus_1)
  show "bit (le32 c0 c1 c2 c3 AND 0xffff) n = bit (le32 c0 c1 0 0) n"
    unfolding m by (auto simp: le32_def bit_simps dest: bit_imp_le_length)
qed

lemma le32_two: "push_bit 8 (ucast c5) OR ucast c4 = le32 c4 c5 0 0"
  by (simp add: le32_def)

text \<open>
  The comparison macros for little-endian machines, which load 32 bits at a time, decide
  the same as the byte-by-byte ones wherever their loads stay inside the object (the six-byte
  macro loads eight bytes and masks two of them away).
\<close>

theorem str_cmp_loads_equal_bytes:
  assumes "8 \<le> length m"
  shows "ngx_str4cmp_le m c0 c1 c2 c3 = ngx_str4cmp m c0 c1 c2 c3
    \<and> ngx_str6cmp_le m c0 c1 c2 c3 c4 c5 = ngx_str6cmp m c0 c1 c2 c3 c4 c5
    \<and> ngx_str8cmp_le m c0 c1 c2 c3 c4 c5 c6 c7 = ngx_str8cmp m c0 c1 c2 c3 c4 c5 c6 c7"
proof -
  have rd: "rd m k = Some (m ! k)" if "k < 8" for k using assms that by simp
  have ld: "load32 m 0 = Some (le32 (m ! 0) (m ! 1) (m ! 2) (m ! 3))"
    "load32 m 1 = Some (le32 (m ! 4) (m ! 5) (m ! 6) (m ! 7))"
    using assms by (simp_all add: load32_def numeral_2_eq_2)
  show ?thesis
    by (auto simp: ngx_str4cmp_le_def ngx_str6cmp_le_def ngx_str8cmp_le_def ngx_str4cmp_def ngx_str6cmp_def
        ngx_str8cmp_def rd ld le32_eq_iff le32_low_half le32_two simp del: One_nat_def)
qed

theorem str_cmp_loads_equal_bytes_witness:
  "ngx_str4cmp_le (bytes ''PROPFIND'') ch_P ch_R ch_O ch_P = ngx_str4cmp (bytes ''PROPFIND'') ch_P ch_R ch_O ch_P
    \<and> ngx_str6cmp_le (bytes ''PROPFIND'') ch_P ch_R ch_O ch_P ch_F ch_I = ngx_str6cmp (bytes ''PROPFIND'') ch_P ch_R ch_O ch_P ch_F ch_I
    \<and> ngx_str8cmp_le (bytes ''PROPFIND'') ch_P ch_R ch_O ch_P ch_F ch_I ch_N ch_D
      = ngx_str8cmp (bytes ''PROPFIND'') ch_P ch_R ch_O ch_P ch_F ch_I ch_N ch_D"
  by (rule str_cmp_loads_equal_bytes) (simp add: bytes_def)

end
