(* ===== verification/Ngx_Http_Header.thy ===== *)
theory Ngx_Http_Header
  imports Ngx_Http_Scan Ngx_Hashing
begin

unbundle bit_operations_syntax

text \<open>
  \<^verbatim>\<open>ngx_http_parse_header_line\<close> of \<^verbatim>\<open>src/http/ngx_http_parse.c\<close>: one definition for
  each state of its \<^verbatim>\<open>switch\<close>, the dispatch and the loop with its three exits. The local
  variables of the loop are the state, the hash, the index into \<^verbatim>\<open>lowcase_header\<close> and
  the request.
\<close>

section \<open>The states\<close>

definition lowcase :: "u_char list" where
  "lowcase =
     replicate 32 0
     @ replicate 13 0 @ [ch_minus] @ replicate 2 0 @ bytes ''0123456789'' @ replicate 6 0
     @ [0] @ bytes ''abcdefghijklmnopqrstuvwxyz'' @ replicate 5 0
     @ [0] @ bytes ''abcdefghijklmnopqrstuvwxyz'' @ replicate 5 0
     @ replicate 128 0"

abbreviation (input) hl_start :: nat where "hl_start \<equiv> 0"
abbreviation (input) hl_name :: nat where "hl_name \<equiv> 1"
abbreviation (input) hl_space_before_value :: nat where "hl_space_before_value \<equiv> 2"
abbreviation (input) hl_value :: nat where "hl_value \<equiv> 3"
abbreviation (input) hl_space_after_value :: nat where "hl_space_after_value \<equiv> 4"
abbreviation (input) hl_ignore_line :: nat where "hl_ignore_line \<equiv> 5"
abbreviation (input) hl_almost_done :: nat where "hl_almost_done \<equiv> 6"
abbreviation (input) hl_header_almost_done :: nat where "hl_header_almost_done \<equiv> 7"

type_synonym hl_vars = "nat \<times> ngx_uint \<times> nat \<times> http_request"

text \<open>\<^verbatim>\<open>hash = ngx_hash(hash, c); r->lowcase_header[i++] = c; i &= NGX_HTTP_LC_HEADER_LEN - 1\<close>\<close>

definition hl_put :: "u_char \<Rightarrow> nat \<Rightarrow> ngx_uint \<Rightarrow> nat \<Rightarrow> http_request \<Rightarrow> hl_vars" where
  "hl_put c state hash i r =
     (state, ngx_hash hash c, (i + 1) AND (NGX_HTTP_LC_HEADER_LEN - 1),
      r\<lparr>r_lowcase_header := (r_lowcase_header r)[i := c]\<rparr>)"

definition hl_sw_start :: "nat \<Rightarrow> u_char \<Rightarrow> ngx_uint \<Rightarrow> nat \<Rightarrow> http_request \<Rightarrow> hl_vars scan_step" where
  "hl_sw_start p ch hash i r =
     (let r = r\<lparr>r_header_name_start := Some p, r_invalid_header := False\<rparr>
      in if ch = CR then Break (hl_header_almost_done, hash, i, r\<lparr>r_header_end := Some p\<rparr>)
         else if ch = LF then Goto_header_done (hl_start, hash, i, r\<lparr>r_header_end := Some p\<rparr>)
         else let c = lowcase ! unat ch
              in if c \<noteq> 0 then
                   Break (hl_name, ngx_hash 0 c, 1, r\<lparr>r_lowcase_header := (r_lowcase_header r)[0 := c]\<rparr>)
                 else if ch = 0 then Return NGX_HTTP_PARSE_INVALID_HEADER (hl_name, hash, i, r)
                 else Break (hl_name, hash, i, r\<lparr>r_invalid_header := True\<rparr>))"

text \<open>IIS may send the duplicate \<^verbatim>\<open>"HTTP/1.1 ..."\<close> lines.\<close>

definition hl_duplicate_status :: "ngx_str \<Rightarrow> nat \<Rightarrow> http_request \<Rightarrow> bool" where
  "hl_duplicate_status mem p r \<longleftrightarrow>
     r_upstream r \<and> (case r_header_name_start r of None \<Rightarrow> False
                     | Some s \<Rightarrow> p - s = 4 \<and> window mem s p = bytes ''HTTP'')"

definition hl_sw_name ::
    "bool \<Rightarrow> ngx_str \<Rightarrow> nat \<Rightarrow> u_char \<Rightarrow> ngx_uint \<Rightarrow> nat \<Rightarrow> http_request \<Rightarrow> hl_vars scan_step" where
  "hl_sw_name allow_underscores mem p ch hash i r =
     (let c = lowcase ! unat ch
      in if c \<noteq> 0 then Break (hl_put c hl_name hash i r)
         else if ch = ch_under then
           (if allow_underscores then Break (hl_put ch hl_name hash i r)
            else Break (hl_name, hash, i, r\<lparr>r_invalid_header := True\<rparr>))
         else if ch = ch_colon then
           Break (hl_space_before_value, hash, i, r\<lparr>r_header_name_end := Some p\<rparr>)
         else if ch = CR then
           Break (hl_almost_done, hash, i,
             r\<lparr>r_header_name_end := Some p, r_header_start := Some p, r_header_end := Some p\<rparr>)
         else if ch = LF then
           Goto_done (hl_name, hash, i,
             r\<lparr>r_header_name_end := Some p, r_header_start := Some p, r_header_end := Some p\<rparr>)
         else if ch = ch_slash \<and> hl_duplicate_status mem p r then
           Break (hl_ignore_line, hash, i, r)
         else if ch = 0 then Return NGX_HTTP_PARSE_INVALID_HEADER (hl_name, hash, i, r)
         else Break (hl_name, hash, i, r\<lparr>r_invalid_header := True\<rparr>))"

definition hl_sw_space_before_value ::
    "nat \<Rightarrow> u_char \<Rightarrow> ngx_uint \<Rightarrow> nat \<Rightarrow> http_request \<Rightarrow> hl_vars scan_step" where
  "hl_sw_space_before_value p ch hash i r =
     (if ch = ch_sp then Break (hl_space_before_value, hash, i, r)
      else if ch = CR then
        Break (hl_almost_done, hash, i, r\<lparr>r_header_start := Some p, r_header_end := Some p\<rparr>)
      else if ch = LF then
        Goto_done (hl_space_before_value, hash, i, r\<lparr>r_header_start := Some p, r_header_end := Some p\<rparr>)
      else if ch = 0 then Return NGX_HTTP_PARSE_INVALID_HEADER (hl_space_before_value, hash, i, r)
      else Break (hl_value, hash, i, r\<lparr>r_header_start := Some p\<rparr>))"

definition hl_sw_value :: "nat \<Rightarrow> u_char \<Rightarrow> ngx_uint \<Rightarrow> nat \<Rightarrow> http_request \<Rightarrow> hl_vars scan_step" where
  "hl_sw_value p ch hash i r =
     (if ch = ch_sp then Break (hl_space_after_value, hash, i, r\<lparr>r_header_end := Some p\<rparr>)
      else if ch = CR then Break (hl_almost_done, hash, i, r\<lparr>r_header_end := Some p\<rparr>)
      else if ch = LF then Goto_done (hl_value, hash, i, r\<lparr>r_header_end := Some p\<rparr>)
      else if ch = 0 then Return NGX_HTTP_PARSE_INVALID_HEADER (hl_value, hash, i, r)
      else Break (hl_value, hash, i, r))"

definition hl_sw_space_after_value :: "u_char \<Rightarrow> ngx_uint \<Rightarrow> nat \<Rightarrow> http_request \<Rightarrow> hl_vars scan_step" where
  "hl_sw_space_after_value ch hash i r =
     (if ch = ch_sp then Break (hl_space_after_value, hash, i, r)
      else if ch = CR then Break (hl_almost_done, hash, i, r)
      else if ch = LF then Goto_done (hl_space_after_value, hash, i, r)
      else if ch = 0 then Return NGX_HTTP_PARSE_INVALID_HEADER (hl_space_after_value, hash, i, r)
      else Break (hl_value, hash, i, r))"

definition hl_sw_ignore_line :: "u_char \<Rightarrow> ngx_uint \<Rightarrow> nat \<Rightarrow> http_request \<Rightarrow> hl_vars scan_step" where
  "hl_sw_ignore_line ch hash i r =
     (if ch = LF then Break (hl_start, hash, i, r) else Break (hl_ignore_line, hash, i, r))"

definition hl_sw_almost_done :: "u_char \<Rightarrow> ngx_uint \<Rightarrow> nat \<Rightarrow> http_request \<Rightarrow> hl_vars scan_step" where
  "hl_sw_almost_done ch hash i r =
     (if ch = LF then Goto_done (hl_almost_done, hash, i, r)
      else if ch = CR then Break (hl_almost_done, hash, i, r)
      else Return NGX_HTTP_PARSE_INVALID_HEADER (hl_almost_done, hash, i, r))"

definition hl_sw_header_almost_done :: "u_char \<Rightarrow> ngx_uint \<Rightarrow> nat \<Rightarrow> http_request \<Rightarrow> hl_vars scan_step" where
  "hl_sw_header_almost_done ch hash i r =
     (if ch = LF then Goto_header_done (hl_header_almost_done, hash, i, r)
      else Return NGX_HTTP_PARSE_INVALID_HEADER (hl_header_almost_done, hash, i, r))"

section \<open>Dispatch and loop\<close>

fun hl_body :: "bool \<Rightarrow> ngx_str \<Rightarrow> nat \<Rightarrow> u_char \<Rightarrow> hl_vars \<Rightarrow> hl_vars scan_step" where
  "hl_body allow_underscores mem p ch (state, hash, i, r) =
     (if state = hl_start then hl_sw_start p ch hash i r
      else if state = hl_name then hl_sw_name allow_underscores mem p ch hash i r
      else if state = hl_space_before_value then hl_sw_space_before_value p ch hash i r
      else if state = hl_value then hl_sw_value p ch hash i r
      else if state = hl_space_after_value then hl_sw_space_after_value ch hash i r
      else if state = hl_ignore_line then hl_sw_ignore_line ch hash i r
      else if state = hl_almost_done then hl_sw_almost_done ch hash i r
      else if state = hl_header_almost_done then hl_sw_header_almost_done ch hash i r
      else Break (state, hash, i, r))"

definition ngx_http_parse_header_line ::
    "bool \<Rightarrow> ngx_str \<Rightarrow> http_request \<Rightarrow> nat \<Rightarrow> nat \<Rightarrow> ngx_int \<times> http_request \<times> nat" where
  "ngx_http_parse_header_line allow_underscores mem r pos lst =
     (case scan (hl_body allow_underscores mem) pos (window mem pos lst)
             (r_state r, r_header_hash r, r_lowcase_index r, r) of
        (p, Break (state, hash, i, r)) \<Rightarrow>
          (NGX_AGAIN, r\<lparr>r_state := state, r_header_hash := hash, r_lowcase_index := i\<rparr>, p)
      | (p, Goto_done (state, hash, i, r)) \<Rightarrow>
          (NGX_OK, r\<lparr>r_state := hl_start, r_header_hash := hash, r_lowcase_index := i\<rparr>, p + 1)
      | (p, Goto_header_done (state, hash, i, r)) \<Rightarrow>
          (NGX_HTTP_PARSE_HEADER_DONE, r\<lparr>r_state := hl_start\<rparr>, p + 1)
      | (p, Return rc (state, hash, i, r)) \<Rightarrow> (rc, r, pos))"

section \<open>Resuming\<close>

lemmas hl_states = hl_sw_start_def hl_sw_name_def hl_sw_space_before_value_def hl_sw_value_def
  hl_sw_space_after_value_def hl_sw_ignore_line_def hl_sw_almost_done_def hl_sw_header_almost_done_def
  hl_put_def

lemma hl_body_states [simp]:
  "hl_body au mem p ch (0, hash, i, r) = hl_sw_start p ch hash i r"
  "hl_body au mem p ch (Suc 0, hash, i, r) = hl_sw_name au mem p ch hash i r"
  "hl_body au mem p ch (2, hash, i, r) = hl_sw_space_before_value p ch hash i r"
  "hl_body au mem p ch (3, hash, i, r) = hl_sw_value p ch hash i r"
  "hl_body au mem p ch (4, hash, i, r) = hl_sw_space_after_value ch hash i r"
  "hl_body au mem p ch (5, hash, i, r) = hl_sw_ignore_line ch hash i r"
  "hl_body au mem p ch (6, hash, i, r) = hl_sw_almost_done ch hash i r"
  "hl_body au mem p ch (7, hash, i, r) = hl_sw_header_almost_done ch hash i r"
  "8 \<le> st \<Longrightarrow> hl_body au mem p ch (st, hash, i, r) = Break (st, hash, i, r)"
  by simp_all

declare hl_body.simps [simp del]

lemma hl_state_cases:
  obtains "st = 0" | "st = Suc 0" | "st = 2" | "st = 3" | "st = 4" | "st = 5" | "st = 6" | "st = 7" | "8 \<le> (st :: nat)"
proof -
  have "st \<in> set [0, Suc 0, 2, 3, 4, 5, 6, 7] \<or> 8 \<le> st" by (simp, presburger)
  then show ?thesis using that by (simp only: list.set) blast
qed

definition hl_view :: "hl_vars \<Rightarrow> hl_vars" where
  "hl_view x = (case x of (st, hash, i, r) \<Rightarrow> (st, hash, i, r\<lparr>r_state := 0, r_header_hash := 0, r_lowcase_index := 0\<rparr>))"

definition hl_load :: "http_request \<Rightarrow> hl_vars" where
  "hl_load r = (r_state r, r_header_hash r, r_lowcase_index r, r)"

definition hl_save :: "hl_vars \<Rightarrow> http_request" where
  "hl_save x = (case x of (st, hash, i, r) \<Rightarrow> r\<lparr>r_state := st, r_header_hash := hash, r_lowcase_index := i\<rparr>)"

lemma hl_body_local:
  assumes "take (Suc p) m = take (Suc p) m'"
  shows "hl_body au m p ch x = hl_body au m' p ch x"
proof -
  have "take p m = take p m'"
    using arg_cong [OF assms, of "take p"] by simp
  then have "window m s p = window m' s p" for s by (simp add: window_drop_take)
  then have "hl_duplicate_status m p = hl_duplicate_status m' p"
    by (intro ext) (simp only: hl_duplicate_status_def)
  then have "hl_sw_name au m p ch = hl_sw_name au m' p ch"
    by (intro ext) (simp only: hl_sw_name_def)
  then show ?thesis by (cases x) (simp only: hl_body.simps)
qed

lemma hl_body_view: "map_scan_step hl_view (hl_body au m p ch (hl_view x)) = map_scan_step hl_view (hl_body au m p ch x)"
proof -
  obtain st hash i r where x: "x = (st, hash, i, r)" by (cases x)
  let ?r = "r\<lparr>r_state := 0, r_header_hash := 0, r_lowcase_index := 0\<rparr>"
  have "hl_duplicate_status m p ?r = hl_duplicate_status m p r"
    by (simp add: hl_duplicate_status_def)
  then have "map_scan_step hl_view (hl_sw_name au m p ch hash i ?r) = map_scan_step hl_view (hl_sw_name au m p ch hash i r)"
    by (simp add: hl_sw_name_def Let_def hl_put_def hl_view_def if_distrib [of "map_scan_step hl_view"]
        cong: if_cong split del: if_split)
  moreover have "map_scan_step hl_view (hl_sw_start p ch hash i ?r) = map_scan_step hl_view (hl_sw_start p ch hash i r)"
    by (simp add: hl_sw_start_def Let_def hl_view_def if_distrib [of "map_scan_step hl_view"]
        cong: if_cong split del: if_split)
  ultimately have "map_scan_step hl_view (hl_body au m p ch (st, hash, i, ?r)) = map_scan_step hl_view (hl_body au m p ch (st, hash, i, r))"
    by (cases st rule: hl_state_cases)
      (simp_all add: hl_sw_space_before_value_def hl_sw_value_def hl_sw_space_after_value_def hl_sw_ignore_line_def
        hl_sw_almost_done_def hl_sw_header_almost_done_def hl_view_def)
  then show ?thesis by (simp add: x hl_view_def)
qed

interpretation hl: stored_parser "hl_body au" hl_load hl_save hl_view for au
  by unfold_locales (erule hl_body_local, simp add: hl_view_def hl_load_def hl_save_def split: prod.split, rule hl_body_view)

lemma hl_body_Return: "hl_body au mem p ch x = Return rc y \<Longrightarrow> rc = NGX_HTTP_PARSE_INVALID_HEADER"
proof -
  obtain st hash i r where x: "x = (st, hash, i, r)" by (cases x)
  assume "hl_body au mem p ch x = Return rc y"
  then show ?thesis unfolding x
    by (cases st rule: hl_state_cases) (simp_all add: hl_states Let_def split: if_split_asm)
qed

text \<open>
  What a caller uses of a result: after an error it closes the request; at the end of the
  header the hash and the index of the last line have no meaning.
\<close>

fun hl_settled :: "ngx_int \<times> http_request \<times> nat \<Rightarrow> ngx_int \<times> http_request \<times> nat option" where
  "hl_settled (rc, r, pos) =
     (if rc = NGX_HTTP_PARSE_INVALID_HEADER
      then (rc, r\<lparr>r_state := 0, r_header_hash := 0, r_lowcase_index := 0\<rparr>, None)
      else if rc = NGX_HTTP_PARSE_HEADER_DONE
      then (rc, r\<lparr>r_header_hash := 0, r_lowcase_index := 0\<rparr>, Some pos)
      else (rc, r, Some pos))"

fun hl_result :: "nat \<times> hl_vars scan_step \<Rightarrow> ngx_int \<times> http_request \<times> nat option" where
  "hl_result (p, Break (st, hash, i, r)) =
     (NGX_AGAIN, r\<lparr>r_state := st, r_header_hash := hash, r_lowcase_index := i\<rparr>, Some p)"
| "hl_result (p, Goto_done (st, hash, i, r)) =
     (NGX_OK, r\<lparr>r_state := 0, r_header_hash := hash, r_lowcase_index := i\<rparr>, Some (p + 1))"
| "hl_result (p, Goto_header_done (st, hash, i, r)) = (NGX_HTTP_PARSE_HEADER_DONE, r, Some (p + 1))"
| "hl_result (p, Return rc (st, hash, i, r)) = (rc, r, None)"

lemma hl_settled_parse:
  "hl_settled (ngx_http_parse_header_line au mem r pos lst) = hl_result (hl.run au mem pos lst (hl_load r))"
proof -
  obtain p s where sc: "scan (hl_body au mem) pos (window mem pos lst) (hl_load r) = (p, s)" by force
  have "rc = NGX_HTTP_PARSE_INVALID_HEADER" if "s = Return rc x" for rc x
    using scan_Return [of "hl_body au mem" pos "window mem pos lst" "hl_load r" p rc x] sc that hl_body_Return by blast
  then show ?thesis
    using sc by (cases s)
      (auto simp: ngx_http_parse_header_line_def hl_load_def hl_view_def ngx_rc split: prod.splits)
qed

text \<open>
  Parsing a header line does not depend on how the bytes arrive: after
  \<^verbatim>\<open>NGX_AGAIN\<close> on the first \<open>n\<close> bytes, which are then all consumed, the second call gives
  what one call on all bytes gives; any other answer on the first \<open>n\<close> bytes is final.
\<close>

theorem header_line_resumable:
  assumes "pos \<le> n" and "n \<le> lst" and "lst \<le> length mem"
    and "ngx_http_parse_header_line au (take n mem) r pos n = (rc, r1, pos1)"
  shows "if rc = NGX_AGAIN
         then pos1 = n \<and> hl_settled (ngx_http_parse_header_line au mem r1 pos1 lst)
                           = hl_settled (ngx_http_parse_header_line au mem r pos lst)
         else hl_settled (ngx_http_parse_header_line au mem r pos lst) = hl_settled (rc, r1, pos1)"
proof -
  obtain q s where sc: "scan (hl_body au (take n mem)) pos (window (take n mem) pos n) (hl_load r) = (q, s)"
    by force
  have whole: "hl.run au mem pos lst (hl_load r)
     = (case s of Break y \<Rightarrow> hl.run au mem n lst (hl_load (hl_save y)) | _ \<Rightarrow> map_prod id (map_scan_step hl_view) (q, s))"
    using hl.run_resume [OF assms(1-3), of au "hl_load r"] sc by (auto split: scan_step.splits)
  show ?thesis
  proof (cases "\<exists>y. s = Break y")
    case True
    then obtain y where s: "s = Break y" by auto
    have "q = n" using scan_end [OF sc [unfolded s]] assms by simp
    with assms(4) sc s have "rc = NGX_AGAIN" "r1 = hl_save y" "pos1 = n"
      by (auto simp: ngx_http_parse_header_line_def hl_load_def hl_save_def split: prod.splits)
    with whole s show ?thesis by (simp add: hl_settled_parse)
  next
    case False
    then have "hl.run au mem pos lst (hl_load r) = hl.run au (take n mem) pos n (hl_load r)"
      using whole sc by (cases s) auto
    then have eq: "hl_settled (ngx_http_parse_header_line au mem r pos lst) = hl_settled (rc, r1, pos1)"
      using hl_settled_parse [of au "take n mem" r pos n] assms(4) by (simp only: hl_settled_parse)
    have "c = NGX_HTTP_PARSE_INVALID_HEADER" if "s = Return c x" for c x
      using scan_Return sc that hl_body_Return by metis
    then have "rc \<noteq> NGX_AGAIN" using assms(4) sc False
      by (cases s) (auto simp: ngx_http_parse_header_line_def hl_load_def ngx_rc split: prod.splits)
    with eq show ?thesis by simp
  qed
qed

theorem header_line_resumable_witness:
  "(case ngx_http_parse_header_line False (take 6 (bytes ''Host: a'' @ [CR, LF])) ngx_http_new_request 0 6 of
      (rc, r1, pos1) \<Rightarrow> rc = NGX_AGAIN \<and> pos1 = 6
        \<and> hl_settled (ngx_http_parse_header_line False (bytes ''Host: a'' @ [CR, LF]) r1 pos1 9)
            = hl_settled (ngx_http_parse_header_line False (bytes ''Host: a'' @ [CR, LF]) ngx_http_new_request 0 9))"
proof -
  let ?m = "bytes ''Host: a'' @ [CR, LF]"
  obtain rc r1 pos1 where p: "ngx_http_parse_header_line False (take 6 ?m) ngx_http_new_request 0 6 = (rc, r1, pos1)"
    by (metis prod_cases3)
  have "fst (ngx_http_parse_header_line False (take 6 ?m) ngx_http_new_request 0 6) = NGX_AGAIN" by code_simp
  with p have "rc = NGX_AGAIN" by simp
  moreover have "9 \<le> length ?m" by (simp add: bytes_def)
  ultimately have "pos1 = 6 \<and> hl_settled (ngx_http_parse_header_line False ?m r1 pos1 9)
      = hl_settled (ngx_http_parse_header_line False ?m ngx_http_new_request 0 9)"
    using header_line_resumable [OF _ _ _ p, of 9] by auto
  with \<open>rc = NGX_AGAIN\<close> show ?thesis by (simp only: p prod.case) blast
qed


section \<open>Reading back a header line\<close>

text \<open>The bytes a header name may have: those with a lowercase form in the table.\<close>

definition name_char :: "u_char \<Rightarrow> bool" where
  "name_char c \<longleftrightarrow> lowcase ! unat c \<noteq> 0"

definition is_name_char :: "u_char \<Rightarrow> bool" where
  "is_name_char c \<longleftrightarrow> c = ch_minus \<or> (ch_0 \<le> c \<and> c \<le> ch_9) \<or> (ch_A \<le> c \<and> c \<le> ch_Z) \<or> (ch_a \<le> c \<and> c \<le> ch_z)"

lemma lowcase_list:
  "lowcase = map (\<lambda>k. let c = word_of_int k in if is_name_char c then ngx_tolower c else 0) [0..255]"
  by code_simp

lemma lowcase_nth: "lowcase ! unat c = (if is_name_char c then ngx_tolower c else 0)"
proof -
  have "int (unat c) \<le> 255" using unat_byte_less [of c] by linarith
  then have "[0..255] ! unat c = int (unat c)" by (subst nth_upto) simp_all
  then show ?thesis
    using unat_byte_less [of c] by (simp add: lowcase_list Let_def)
qed

lemma name_char_iff: "name_char c \<longleftrightarrow> is_name_char c"
proof -
  have "is_name_char c \<Longrightarrow> ngx_tolower c \<noteq> 0" for c
    by (auto simp: is_name_char_def ngx_tolower_def word_le_nat_alt or_eq_0_iff)
  then show ?thesis by (simp add: name_char_def lowcase_nth)
qed

lemma lowcase_tolower: "name_char c \<Longrightarrow> lowcase ! unat c = ngx_tolower c"
  by (simp add: name_char_iff lowcase_nth)

text \<open>The lowercased name in the ring of \<^verbatim>\<open>lowcase_header\<close>.\<close>

fun ring_put :: "ngx_str \<Rightarrow> nat \<Rightarrow> ngx_str \<Rightarrow> ngx_str \<times> nat" where
  "ring_put buf i [] = (buf, i)"
| "ring_put buf i (c # cs) = ring_put (buf[i := c]) ((i + 1) mod 32) cs"

lemma and_31: "(i :: nat) AND (NGX_HTTP_LC_HEADER_LEN - 1) = i mod 32"
proof -
  have "NGX_HTTP_LC_HEADER_LEN - 1 = mask 5" by (simp add: NGX_HTTP_LC_HEADER_LEN_def mask_eq_exp_minus_1)
  then show ?thesis by (simp add: take_bit_eq_mask [symmetric] take_bit_eq_mod)
qed

lemma name_scan:
  assumes "list_all name_char name"
  shows "scan (hl_body au mem) p name (hl_name, hash, i, r)
     = (p + length name, Break (hl_name, foldl ngx_hash hash (map ngx_tolower name),
          snd (ring_put (r_lowcase_header r) i (map ngx_tolower name)),
          r\<lparr>r_lowcase_header := fst (ring_put (r_lowcase_header r) i (map ngx_tolower name))\<rparr>))"
  using assms
proof (induction name arbitrary: p hash i r)
  case (Cons c name)
  then have "lowcase ! unat c \<noteq> 0" "lowcase ! unat c = ngx_tolower c"
    using lowcase_tolower [of c] by (simp_all add: name_char_def)
  with Cons show ?case by (simp add: hl_sw_name_def hl_put_def Let_def and_31 [simplified])
qed simp

lemma ring_put_small:
  "i + length cs < 32 \<Longrightarrow> i + length cs \<le> length buf \<Longrightarrow>
     ring_put buf i cs = (take i buf @ cs @ drop (i + length cs) buf, i + length cs)"
proof (induction buf i cs rule: ring_put.induct)
  case (2 buf i c cs)
  have "(i + 1) mod 32 = i + 1" using 2 by simp
  moreover have "take (i + 1) (buf[i := c]) = take i buf @ [c]"
    using 2 by (simp add: take_Suc_conv_app_nth)
  ultimately show ?case using 2 by simp
qed simp

text \<open>A value: no NUL, CR or LF, no space at either end.\<close>

definition value_char :: "u_char \<Rightarrow> bool" where
  "value_char c \<longleftrightarrow> c \<noteq> 0 \<and> c \<noteq> CR \<and> c \<noteq> LF"

definition value_text :: "ngx_str \<Rightarrow> bool" where
  "value_text v \<longleftrightarrow> v \<noteq> [] \<and> list_all value_char v \<and> (case v of [] \<Rightarrow> False | c # _ \<Rightarrow> c \<noteq> ch_sp) \<and> last v \<noteq> ch_sp"

lemma spaces_scan: "scan (hl_body au mem) p (replicate k ch_sp) (hl_space_before_value, hash, i, r)
    = (p + k, Break (hl_space_before_value, hash, i, r))"
  by (induction k arbitrary: p) (simp_all add: hl_sw_space_before_value_def)

text \<open>Inside a value the parser is in one of two states, and in the first one after a byte that is no space.\<close>

lemma value_scan:
  assumes "list_all value_char v" and "st = hl_value \<or> st = hl_space_after_value"
  shows "\<exists>st' e. scan (hl_body au mem) p v (st, hash, i, r)
      = (p + length v, Break (st', hash, i, r\<lparr>r_header_end := e\<rparr>))
     \<and> (st' = hl_value \<or> st' = hl_space_after_value) \<and> (v \<noteq> [] \<longrightarrow> last v \<noteq> ch_sp \<longrightarrow> st' = hl_value)
     \<and> (v = [] \<longrightarrow> st' = st)"
  using assms
proof (induction v arbitrary: p st r)
  case Nil
  then show ?case by (intro exI [of _ st] exI [of _ "r_header_end r"]) auto
next
  case (Cons c v)
  obtain st1 e1 where one: "hl_body au mem p c (st, hash, i, r) = Break (st1, hash, i, r\<lparr>r_header_end := e1\<rparr>)"
    "st1 = (if c = ch_sp then hl_space_after_value else hl_value)"
  proof (cases "c = ch_sp \<and> st = hl_value")
    case True
    then show ?thesis using that by (auto simp: hl_sw_value_def)
  next
    case False
    then show ?thesis using that [of _ "r_header_end r"] Cons.prems
      by (auto simp: hl_sw_value_def hl_sw_space_after_value_def value_char_def)
  qed
  then obtain st' e where "scan (hl_body au mem) (Suc p) v (st1, hash, i, r\<lparr>r_header_end := e1\<rparr>)
      = (Suc p + length v, Break (st', hash, i, r\<lparr>r_header_end := e1\<rparr>\<lparr>r_header_end := e\<rparr>))"
    "st' = hl_value \<or> st' = hl_space_after_value" "v \<noteq> [] \<longrightarrow> last v \<noteq> ch_sp \<longrightarrow> st' = hl_value"
    using Cons.IH [of st1 "Suc p" "r\<lparr>r_header_end := e1\<rparr>"] Cons.prems(1) one(2)
    by (cases "c = ch_sp") auto
  with one show ?case by (intro exI [of _ st'] exI [of _ e]) (auto split: if_splits)
qed


lemma header_line_scan:
  assumes name: "c0 # cs = name" "list_all name_char name" and v: "value_text v"
    and buf: "length (r_lowcase_header r) = 32" and len: "length name < 32"
  shows "scan (hl_body au mem) p (name @ ch_colon # replicate k ch_sp @ v @ [CR, LF]) (hl_start, hash, i, r)
      = (p + length name + k + length v + 2, Goto_done (hl_almost_done, ngx_hash_key (map ngx_tolower name), length name,
          r\<lparr>r_header_name_start := Some p, r_invalid_header := False,
            r_lowcase_header := map ngx_tolower name @ drop (length name) (r_lowcase_header r),
            r_header_name_end := Some (p + length name), r_header_start := Some (p + length name + 1 + k),
            r_header_end := Some (p + length name + 1 + k + length v)\<rparr>))"
proof -
  let ?low = "map ngx_tolower name" and ?n = "p + length name"
  let ?r1 = "r\<lparr>r_header_name_start := Some p, r_invalid_header := False,
      r_lowcase_header := ?low @ drop (length name) (r_lowcase_header r)\<rparr>"
  let ?r2 = "?r1\<lparr>r_header_name_end := Some ?n, r_header_start := Some (?n + 1 + k)\<rparr>"
  have c0: "name_char c0" and cs: "list_all name_char cs" using name by auto
  have l0: "lowcase ! unat c0 = ngx_tolower c0" "lowcase ! unat c0 \<noteq> 0"
    using c0 lowcase_tolower [OF c0] by (simp_all add: name_char_def)
  have nc: "c0 \<noteq> CR" "c0 \<noteq> LF" using c0 by (auto simp: name_char_iff is_name_char_def word_le_nat_alt)
  have first: "hl_body au mem p c0 (0, hash, i, r) = Break (Suc 0, ngx_hash 0 (ngx_tolower c0), 1,
      r\<lparr>r_header_name_start := Some p, r_invalid_header := False,
        r_lowcase_header := (r_lowcase_header r)[0 := ngx_tolower c0]\<rparr>)"
    using l0 nc by (simp add: hl_sw_start_def Let_def)
  obtain b0 bs where b: "r_lowcase_header r = b0 # bs" using buf by (cases "r_lowcase_header r") auto
  have "ring_put ((r_lowcase_header r)[0 := ngx_tolower c0]) 1 (map ngx_tolower cs)
      = (?low @ drop (length name) (r_lowcase_header r), length name)"
    using buf len name(1) b ring_put_small [of 1 "map ngx_tolower cs" "(r_lowcase_header r)[0 := ngx_tolower c0]"]
    by auto
  then have names: "scan (hl_body au mem) p name (0, hash, i, r)
      = (?n, Break (Suc 0, ngx_hash_key ?low, length name, ?r1))"
    using first name_scan [OF cs, of au mem "Suc p" "ngx_hash 0 (ngx_tolower c0)" 1] name(1)
    by (auto simp: ngx_hash_key_def)
  have colon: "hl_body au mem ?n ch_colon (Suc 0, h, j, ?r1) = Break (2, h, j, ?r1\<lparr>r_header_name_end := Some ?n\<rparr>)" for h j
    using lowcase_nth [of ch_colon] by (simp add: hl_sw_name_def is_name_char_def)
  obtain v0 vs where v0: "v = v0 # vs" "v0 \<noteq> ch_sp" "value_char v0" "list_all value_char vs"
    using v by (auto simp: value_text_def split: list.splits)
  have vfirst: "hl_body au mem (?n + 1 + k) v0 (2, h, j, ?r1\<lparr>r_header_name_end := Some ?n\<rparr>) = Break (3, h, j, ?r2)" for h j
    using v0 by (simp add: hl_sw_space_before_value_def value_char_def)
  obtain st e where vrest: "scan (hl_body au mem) (?n + 2 + k) vs (3, ngx_hash_key ?low, length name, ?r2)
      = (?n + 2 + k + length vs, Break (st, ngx_hash_key ?low, length name, ?r2\<lparr>r_header_end := e\<rparr>))"
    "vs \<noteq> [] \<longrightarrow> last vs \<noteq> ch_sp \<longrightarrow> st = 3" "vs = [] \<longrightarrow> st = 3"
    using value_scan [OF v0(4), of 3 au mem "?n + 2 + k" "ngx_hash_key ?low" "length name" ?r2]
    by blast
  then have "st = 3" using v v0(1) by (auto simp: value_text_def)
  have tail: "scan (hl_body au mem) q [CR, LF] (3, h, j, x) = (q + 1, Goto_done (hl_almost_done, h, j, x\<lparr>r_header_end := Some q\<rparr>))"
    for q h j x by (simp add: hl_sw_value_def hl_sw_almost_done_def)
  have pos: "Suc ?n + k = ?n + 1 + k" "Suc (?n + 1 + k) = ?n + 2 + k" by simp_all
  have "scan (hl_body au mem) p (name @ ch_colon # replicate k ch_sp @ (v0 # vs) @ [CR, LF]) (0, hash, i, r)
      = scan (hl_body au mem) (Suc ?n) (replicate k ch_sp @ (v0 # vs) @ [CR, LF])
          (2, ngx_hash_key ?low, length name, ?r1\<lparr>r_header_name_end := Some ?n\<rparr>)"
    by (simp only: scan_append [of _ _ name] names prod.case scan_step.case scan.simps colon)
  also have "\<dots> = scan (hl_body au mem) (?n + 1 + k) ((v0 # vs) @ [CR, LF])
      (2, ngx_hash_key ?low, length name, ?r1\<lparr>r_header_name_end := Some ?n\<rparr>)"
    by (simp only: scan_append [of _ _ "replicate k ch_sp"] spaces_scan prod.case scan_step.case pos)
  also have "\<dots> = scan (hl_body au mem) (?n + 2 + k) (vs @ [CR, LF]) (3, ngx_hash_key ?low, length name, ?r2)"
    by (simp only: append_Cons scan.simps vfirst scan_step.case pos)
  also have "\<dots> = (?n + 2 + k + length vs + 1, Goto_done (hl_almost_done, ngx_hash_key ?low, length name,
           ?r2\<lparr>r_header_end := Some (?n + 2 + k + length vs)\<rparr>))"
    by (simp only: scan_append [of _ _ vs] vrest(1) prod.case scan_step.case \<open>st = 3\<close> tail) simp
  finally show ?thesis using v0(1) by simp
qed

text \<open>
  C21. Reading back a header line: at any position of the buffer, a line made of a name of
  letters, digits and dashes (fewer than 32), a colon, any number of spaces, a value without
  control bytes and CR LF is accepted and consumed exactly; the pointers of the request
  delimit exactly the name and the value, the lowercased name is at the start of
  \<^verbatim>\<open>lowcase_header\<close> with its length as the index, \<^verbatim>\<open>header_hash\<close> is
  \<^verbatim>\<open>ngx_hash_key\<close> of the lowercased name, the key under which the header hash tables are
  built, and the header is not marked invalid.
\<close>

theorem header_line_roundtrip:
  assumes "name \<noteq> []" and "list_all name_char name" and "length name < 32" and "value_text v"
    and "r_state r = 0" and "length (r_lowcase_header r) = 32"
    and "mem = pre @ (name @ [ch_colon] @ replicate k ch_sp @ v @ [CR, LF]) @ rest"
  shows "\<exists>r' ns ne vs ve. ngx_http_parse_header_line au mem r (length pre) (length mem)
       = (NGX_OK, r', length mem - length rest)
     \<and> r_header_name_start r' = Some ns \<and> r_header_name_end r' = Some ne \<and> window mem ns ne = name
     \<and> r_header_start r' = Some vs \<and> r_header_end r' = Some ve \<and> window mem vs ve = v
     \<and> r_header_hash r' = ngx_hash_key (map ngx_tolower name)
     \<and> take (r_lowcase_index r') (r_lowcase_header r') = map ngx_tolower name
     \<and> \<not> r_invalid_header r' \<and> r_state r' = 0"
proof -
  obtain c0 cs where c: "c0 # cs = name" using assms(1) by (cases name) auto
  let ?line = "name @ ch_colon # replicate k ch_sp @ v @ [CR, LF]"
  have sc: "scan (hl_body au mem) (length pre) ?line (0, hash, i, r)
      = (length pre + length name + k + length v + 2, Goto_done (hl_almost_done, ngx_hash_key (map ngx_tolower name), length name,
          r\<lparr>r_header_name_start := Some (length pre), r_invalid_header := False,
            r_lowcase_header := map ngx_tolower name @ drop (length name) (r_lowcase_header r),
            r_header_name_end := Some (length pre + length name), r_header_start := Some (length pre + length name + 1 + k),
            r_header_end := Some (length pre + length name + 1 + k + length v)\<rparr>))" for hash i
    by (rule header_line_scan [OF c assms(2,4,6,3)])
  have w: "window mem (length pre) (length mem) = ?line @ rest"
    by (simp add: window_def assms(7))
  have wn: "window mem (length pre) (length pre + length name) = name"
    by (simp add: window_def assms(7))
  have wv: "window mem (length pre + length name + 1 + k) (length pre + length name + 1 + k + length v) = v"
    by (simp add: window_def assms(7))
  have "length mem - length rest = length pre + length name + k + length v + 3"
    by (simp add: assms(7))
  moreover have "scan (hl_body au mem) (length pre) (window mem (length pre) (length mem)) (0, hash, i, r)
      = scan (hl_body au mem) (length pre) ?line (0, hash, i, r)" for hash i
    by (simp only: w scan_append [of _ _ ?line] sc prod.case scan_step.case)
  ultimately show ?thesis
    using wn wv assms(5) by (simp add: ngx_http_parse_header_line_def sc)
qed

theorem header_line_roundtrip_witness:
  "\<exists>r' ns ne vs ve. ngx_http_parse_header_line False (bytes ''X-A: b c'' @ [CR, LF, CR]) ngx_http_new_request 0 11
       = (NGX_OK, r', 10)
     \<and> r_header_name_start r' = Some ns \<and> r_header_name_end r' = Some ne
     \<and> window (bytes ''X-A: b c'' @ [CR, LF, CR]) ns ne = bytes ''X-A''
     \<and> r_header_start r' = Some vs \<and> r_header_end r' = Some ve
     \<and> window (bytes ''X-A: b c'' @ [CR, LF, CR]) vs ve = bytes ''b c''
     \<and> r_header_hash r' = ngx_hash_key (map ngx_tolower (bytes ''X-A''))
     \<and> take (r_lowcase_index r') (r_lowcase_header r') = map ngx_tolower (bytes ''X-A'')
     \<and> \<not> r_invalid_header r' \<and> r_state r' = 0"
proof -
  have mem: "bytes ''X-A: b c'' @ [CR, LF, CR]
      = [] @ (bytes ''X-A'' @ [ch_colon] @ replicate 1 ch_sp @ bytes ''b c'' @ [CR, LF]) @ [CR]"
    by (simp add: bytes_def)
  have "list_all name_char (bytes ''X-A'')" "value_text (bytes ''b c'')" by code_simp+
  moreover have "length (bytes ''X-A'') < 32" "bytes ''X-A'' \<noteq> []" "r_state ngx_http_new_request = 0"
    "length (r_lowcase_header ngx_http_new_request) = 32"
    by (simp_all add: bytes_def ngx_http_new_request_def NGX_HTTP_LC_HEADER_LEN_def)
  moreover have "length (bytes ''X-A: b c'' @ [CR, LF, CR]) = 11" by (simp add: bytes_def)
  ultimately show ?thesis
    using header_line_roundtrip [OF _ _ _ _ _ _ mem, of ngx_http_new_request False] by simp
qed

section \<open>The lowercase ring stays in bounds\<close>

fun hl_ring_ok :: "hl_vars \<Rightarrow> bool" where
  "hl_ring_ok (st, hash, i, r) \<longleftrightarrow> i < 32 \<and> r_lowcase_index r < 32 \<and> length (r_lowcase_header r) = 32"

definition hl_step_ok :: "hl_vars scan_step \<Rightarrow> bool" where
  "hl_step_ok s = (case s of Break y \<Rightarrow> hl_ring_ok y | Goto_done y \<Rightarrow> hl_ring_ok y
     | Goto_header_done y \<Rightarrow> hl_ring_ok y | Return rc y \<Rightarrow> hl_ring_ok y)"

lemma hl_step_ok_simps [simp]:
  "hl_step_ok (Break y) = hl_ring_ok y" "hl_step_ok (Goto_done y) = hl_ring_ok y"
  "hl_step_ok (Goto_header_done y) = hl_ring_ok y" "hl_step_ok (Return rc y) = hl_ring_ok y"
  by (simp_all add: hl_step_ok_def)




end
