(* ===== verification/Ngx_Http_Uri.thy ===== *)
theory Ngx_Http_Uri
  imports Ngx_Http_Request_Line Ngx_Strings "HOL-Library.Sublist"
begin

unbundle bit_operations_syntax

text \<open>
  The URI functions of \<^verbatim>\<open>src/http/ngx_http_parse.c\<close>:
  \<^verbatim>\<open>ngx_http_parse_complex_uri\<close>, which decodes and normalises the path of a request,
  \<^verbatim>\<open>ngx_http_parse_unsafe_uri\<close>, \<^verbatim>\<open>ngx_http_arg\<close> and
  \<^verbatim>\<open>ngx_http_split_args\<close>.
\<close>

section \<open>Complex URIs\<close>

text \<open>
  The states. \<^verbatim>\<open>quoted_state\<close> is only ever one of the first four, which its type records;
  this is what makes the loop end.
\<close>

datatype cu_base = Sw_usual | Sw_slash | Sw_dot | Sw_dot_dot
datatype cu_state = Base cu_base | Sw_quoted | Sw_quoted_second

text \<open>
  The variables of the loop. \<open>cu_out\<close> is the buffer from \<^verbatim>\<open>r->uri.data\<close> up to
  \<^verbatim>\<open>u\<close>, so \<^verbatim>\<open>u\<close> is its length and \<^verbatim>\<open>u--\<close> drops its last byte (the bytes
  above \<^verbatim>\<open>u\<close> are never read again).
\<close>

record cu_vars =
  cu_ch :: u_char
  cu_quoted_state :: cu_base
  cu_decoded :: u_char
  cu_out :: ngx_str
  cu_ext :: "nat option"
  cu_plus :: bool
  cu_quoted :: bool

text \<open>
  How the \<^verbatim>\<open>switch\<close> ends: \<open>Cu_next\<close> with \<^verbatim>\<open>ch = *p++\<close>, \<open>Cu_stay\<close> with
  \<^verbatim>\<open>ch\<close> already set, \<open>Cu_args\<close> and \<open>Cu_done\<close> by \<^verbatim>\<open>goto\<close>, \<open>Cu_invalid\<close> by
  \<^verbatim>\<open>return NGX_HTTP_PARSE_INVALID_REQUEST\<close>.
\<close>

datatype cu_act = Cu_next cu_state cu_vars | Cu_stay cu_state cu_vars | Cu_args cu_vars | Cu_done cu_vars | Cu_invalid cu_vars

definition cu_put :: "u_char \<Rightarrow> cu_vars \<Rightarrow> cu_vars" where
  "cu_put c v = v\<lparr>cu_out := cu_out v @ [c]\<rparr>"

definition cu_sw_usual :: "cu_vars \<Rightarrow> cu_act" where
  "cu_sw_usual v =
     (let ch = cu_ch v
      in if is_usual ch then Cu_next (Base Sw_usual) (cu_put ch v)
         else if ch = ch_slash then Cu_next (Base Sw_slash) (cu_put ch (v\<lparr>cu_ext := None\<rparr>))
         else if ch = ch_percent then Cu_next Sw_quoted (v\<lparr>cu_quoted_state := Sw_usual\<rparr>)
         else if ch = ch_question then Cu_args v
         else if ch = ch_hash then Cu_done v
         else if ch = ch_dot then
           Cu_next (Base Sw_usual) (cu_put ch (v\<lparr>cu_ext := Some (length (cu_out v) + 1)\<rparr>))
         else if ch = ch_plus then Cu_next (Base Sw_usual) (cu_put ch (v\<lparr>cu_plus := True\<rparr>))
         else Cu_next (Base Sw_usual) (cu_put ch v))"

definition cu_sw_slash :: "bool \<Rightarrow> cu_vars \<Rightarrow> cu_act" where
  "cu_sw_slash merge_slashes v =
     (let ch = cu_ch v
      in if is_usual ch then Cu_next (Base Sw_usual) (cu_put ch v)
         else if ch = ch_slash then Cu_next (Base Sw_slash) (if \<not> merge_slashes then cu_put ch v else v)
         else if ch = ch_dot then Cu_next (Base Sw_dot) (cu_put ch v)
         else if ch = ch_percent then Cu_next Sw_quoted (v\<lparr>cu_quoted_state := Sw_slash\<rparr>)
         else if ch = ch_question then Cu_args v
         else if ch = ch_hash then Cu_done v
         else if ch = ch_plus then Cu_next (Base Sw_usual) (cu_put ch (v\<lparr>cu_plus := True\<rparr>))
         else Cu_next (Base Sw_usual) (cu_put ch v))"

definition cu_sw_dot :: "cu_vars \<Rightarrow> cu_act" where
  "cu_sw_dot v =
     (let ch = cu_ch v
      in if is_usual ch then Cu_next (Base Sw_usual) (cu_put ch v)
         else if ch = ch_slash then Cu_next (Base Sw_slash) (v\<lparr>cu_out := butlast (cu_out v)\<rparr>)
         else if ch = ch_dot then Cu_next (Base Sw_dot_dot) (cu_put ch v)
         else if ch = ch_percent then Cu_next Sw_quoted (v\<lparr>cu_quoted_state := Sw_dot\<rparr>)
         else if ch = ch_question then Cu_args v
         else if ch = ch_hash then Cu_done v
         else if ch = ch_plus then Cu_next (Base Sw_usual) (cu_put ch (v\<lparr>cu_plus := True\<rparr>))
         else Cu_next (Base Sw_usual) (cu_put ch v))"

text \<open>
  \<^verbatim>\<open>u -= 5; for ( ;; ) ...\<close>: \<open>n\<close> is \<^verbatim>\<open>u + 1\<close> relative to the start of the buffer, so
  \<open>0\<close> stands for a \<^verbatim>\<open>u\<close> below it. The result is the buffer up to the slash that was found,
  \<open>None\<close> when there is none.
\<close>

fun cu_back :: "ngx_str \<Rightarrow> nat \<Rightarrow> ngx_str option" where
  "cu_back out 0 = None"
| "cu_back out (Suc n) = (if out ! n = ch_slash then Some (take (Suc n) out) else cu_back out n)"

definition cu_sw_dot_dot :: "cu_vars \<Rightarrow> cu_act" where
  "cu_sw_dot_dot v =
     (let ch = cu_ch v
      in if is_usual ch then Cu_next (Base Sw_usual) (cu_put ch v)
         else if ch = ch_slash then
           (case cu_back (cu_out v) (length (cu_out v) - 4) of
              None \<Rightarrow> Cu_invalid v
            | Some out \<Rightarrow> Cu_next (Base Sw_slash) (v\<lparr>cu_out := out\<rparr>))
         else if ch = ch_percent then Cu_next Sw_quoted (v\<lparr>cu_quoted_state := Sw_dot_dot\<rparr>)
         else if ch = ch_question then Cu_args v
         else if ch = ch_hash then Cu_done v
         else if ch = ch_plus then Cu_next (Base Sw_usual) (cu_put ch (v\<lparr>cu_plus := True\<rparr>))
         else Cu_next (Base Sw_usual) (cu_put ch v))"

definition cu_sw_quoted :: "cu_vars \<Rightarrow> cu_act" where
  "cu_sw_quoted v =
     (let v = v\<lparr>cu_quoted := True\<rparr>; ch = cu_ch v; c = ch OR 0x20
      in if ch \<ge> ch_0 \<and> ch \<le> ch_9 then Cu_next Sw_quoted_second (v\<lparr>cu_decoded := ch - ch_0\<rparr>)
         else if c \<ge> ch_a \<and> c \<le> ch_f then Cu_next Sw_quoted_second (v\<lparr>cu_decoded := c - ch_a + 10\<rparr>)
         else Cu_invalid v)"

definition cu_sw_quoted_second :: "cu_vars \<Rightarrow> cu_act" where
  "cu_sw_quoted_second v =
     (let ch = cu_ch v; c = ch OR 0x20
      in if ch \<ge> ch_0 \<and> ch \<le> ch_9 then
           (let ch = push_bit 4 (cu_decoded v) + ch - ch_0
            in if ch = ch_percent \<or> ch = ch_hash then Cu_next (Base Sw_usual) (cu_put ch v)
               else if ch = 0 then Cu_invalid v
               else Cu_stay (Base (cu_quoted_state v)) (v\<lparr>cu_ch := ch\<rparr>))
         else if c \<ge> ch_a \<and> c \<le> ch_f then
           (let ch = push_bit 4 (cu_decoded v) + c - ch_a + 10
            in if ch = ch_question then Cu_next (Base Sw_usual) (cu_put ch v)
               else if ch = ch_plus then Cu_stay (Base (cu_quoted_state v)) (v\<lparr>cu_ch := ch, cu_plus := True\<rparr>)
               else Cu_stay (Base (cu_quoted_state v)) (v\<lparr>cu_ch := ch\<rparr>))
         else Cu_invalid v)"

fun cu_switch :: "bool \<Rightarrow> cu_state \<Rightarrow> cu_vars \<Rightarrow> cu_act" where
  "cu_switch merge_slashes (Base Sw_usual) v = cu_sw_usual v"
| "cu_switch merge_slashes (Base Sw_slash) v = cu_sw_slash merge_slashes v"
| "cu_switch merge_slashes (Base Sw_dot) v = cu_sw_dot v"
| "cu_switch merge_slashes (Base Sw_dot_dot) v = cu_sw_dot_dot v"
| "cu_switch merge_slashes Sw_quoted v = cu_sw_quoted v"
| "cu_switch merge_slashes Sw_quoted_second v = cu_sw_quoted_second v"

text \<open>
  The loop. \<open>inp\<close> holds the bytes from \<^verbatim>\<open>p\<close> up to and including the one at
  \<^verbatim>\<open>r->uri_end\<close>, so \<^verbatim>\<open>p <= r->uri_end\<close> means that it is not empty. The result is how
  the loop was left and the bytes from \<^verbatim>\<open>p\<close> on.
\<close>

lemma cu_stay_base: "cu_switch m st v = Cu_stay st' v' \<Longrightarrow> st = Sw_quoted_second \<and> (\<exists>b. st' = Base b)"
  by (cases "(m, st, v)" rule: cu_switch.cases)
    (auto simp: cu_sw_usual_def cu_sw_slash_def cu_sw_dot_def cu_sw_dot_dot_def cu_sw_quoted_def
      cu_sw_quoted_second_def Let_def split: if_splits option.splits)

function (sequential) cu_loop :: "bool \<Rightarrow> cu_state \<Rightarrow> ngx_str \<Rightarrow> cu_vars \<Rightarrow> cu_act \<times> ngx_str" where
  "cu_loop m st [] v = (Cu_done v, [])"
| "cu_loop m st (c # inp) v =
     (case cu_switch m st v of
        Cu_next st' v' \<Rightarrow> cu_loop m st' inp (v'\<lparr>cu_ch := c\<rparr>)
      | Cu_stay st' v' \<Rightarrow> cu_loop m st' (c # inp) v'
      | a \<Rightarrow> (a, c # inp))"
  by pat_completeness auto
termination
  by (relation "measures [\<lambda>(m, st, inp, v). length inp, \<lambda>(m, st, inp, v). if st = Sw_quoted_second then 1 else 0]")
    (auto dest: cu_stay_base)

text \<open>
  What the function leaves in the request: \<^verbatim>\<open>uri\<close>, \<^verbatim>\<open>exten\<close> (when it sets it),
  \<^verbatim>\<open>args\<close> as start and length (when it sets them).
\<close>

record uri_parts =
  up_uri :: ngx_str
  up_exten :: "ngx_str option"
  up_args :: "(nat \<times> nat) option"

definition cu_parts :: "cu_vars \<Rightarrow> (nat \<times> nat) option \<Rightarrow> uri_parts" where
  "cu_parts v args = \<lparr>up_uri = cu_out v, up_exten = map_option (\<lambda>e. drop e (cu_out v)) (cu_ext v), up_args = args\<rparr>"

definition cu_request :: "cu_vars \<Rightarrow> nat option \<Rightarrow> http_request \<Rightarrow> http_request" where
  "cu_request v args_start r =
     r\<lparr>r_uri_ext := None, r_args_start := args_start, r_plus_in_uri := cu_plus v, r_quoted_uri := cu_quoted v\<rparr>"

text \<open>\<^verbatim>\<open>args:\<close>: \<open>xs\<close> is the text between \<^verbatim>\<open>args_start\<close> and \<^verbatim>\<open>r->uri_end\<close>; the
  length of what precedes the first \<^verbatim>\<open>#\<close>, if there is one.\<close>

definition cu_fragment :: "ngx_str \<Rightarrow> nat option" where
  "cu_fragment xs =
     (if ch_hash \<in> set xs then Some (length (takeWhile (\<lambda>c. c \<noteq> ch_hash) xs)) else None)"

text \<open>
  The function. \<open>None\<close> stands for a call outside its contract (no URI, or no byte after it). On
  an error the request is finalised; \<^verbatim>\<open>uri_ext\<close>, which would point into the discarded
  buffer, is not represented there. The loop never ends in its last two cases.
\<close>

definition ngx_http_parse_complex_uri ::
    "bool \<Rightarrow> ngx_str \<Rightarrow> http_request \<Rightarrow> (ngx_int \<times> http_request \<times> uri_parts option) option" where
  "ngx_http_parse_complex_uri merge_slashes mem r =
     (case (r_uri_start r, r_uri_end r) of
        (Some us, Some ue) \<Rightarrow>
          (if \<not> (us \<le> ue \<and> ue < length mem) then None
           else let v = \<lparr>cu_ch = mem ! us, cu_quoted_state = Sw_usual, cu_decoded = 0, cu_out = [], cu_ext = None,
                         cu_plus = r_plus_in_uri r, cu_quoted = r_quoted_uri r\<rparr>
                in Some (case cu_loop merge_slashes (Base Sw_usual) (window mem (us + 1) (ue + 1)) v of
                     (Cu_args v, inp) \<Rightarrow>
                       (let args_start = ue + 1 - length inp
                        in case cu_fragment (window mem args_start ue) of
                             None \<Rightarrow> (NGX_OK, cu_request v (Some args_start) r, Some (cu_parts v None))
                           | Some n \<Rightarrow> (NGX_OK, cu_request v None r, Some (cu_parts v (Some (args_start, n)))))
                   | (Cu_done v, inp) \<Rightarrow> (NGX_OK, cu_request v None r, Some (cu_parts v None))
                   | (Cu_invalid v, inp) \<Rightarrow> (NGX_HTTP_PARSE_INVALID_REQUEST, cu_request v None r, None)
                   | (Cu_next st v, inp) \<Rightarrow> (NGX_OK, cu_request v None r, Some (cu_parts v None))
                   | (Cu_stay st v, inp) \<Rightarrow> (NGX_OK, cu_request v None r, Some (cu_parts v None))))
      | _ \<Rightarrow> None)"

section \<open>Unsafe URIs\<close>




section \<open>Arguments\<close>

text \<open>
  \<^verbatim>\<open>ngx_http_arg\<close>: the offset and length of the value in \<^verbatim>\<open>r->args\<close>. The search is
  \<^verbatim>\<open>ngx_strlcasestrn\<close> of the string component.
\<close>

function http_arg_loop :: "ngx_str \<Rightarrow> ngx_str \<Rightarrow> nat \<Rightarrow> (nat \<times> nat) option option" where
  "http_arg_loop args name p =
     (if p < length args then
        (case ngx_strlcasestrn (drop p args) (length args - 1 - p) name (length name - 1) of
           None \<Rightarrow> None
         | Some None \<Rightarrow> Some None
         | Some (Some k) \<Rightarrow>
             (let p = p + k
              in if (p = 0 \<or> rd args (p - 1) = Some ch_amp) \<and> rd args (p + length name) = Some ch_eq
                 then let q = (case ngx_strlchr p (drop p args) ch_amp of None \<Rightarrow> length args | Some q \<Rightarrow> q)
                      in Some (Some (p + length name + 1, q - (p + length name + 1)))
                 else http_arg_loop args name (p + 1)))
      else Some None)"
  by pat_completeness auto
termination
  by (relation "measure (\<lambda>(args, name, p). length args - p)") auto

definition ngx_http_arg :: "ngx_str \<Rightarrow> ngx_str \<Rightarrow> (ngx_int \<times> (nat \<times> nat) option) option" where
  "ngx_http_arg args name =
     (if args = [] then Some (NGX_DECLINED, None)
      else case http_arg_loop args name 0 of
             None \<Rightarrow> None
           | Some None \<Rightarrow> Some (NGX_DECLINED, None)
           | Some (Some v) \<Rightarrow> Some (NGX_OK, Some v))"

text \<open>\<^verbatim>\<open>ngx_http_split_args\<close>: the new length of the URI; the offset and length of the arguments.\<close>

definition ngx_http_split_args :: "ngx_str \<Rightarrow> nat \<times> nat \<times> nat" where
  "ngx_http_split_args uri =
     (case ngx_strlchr 0 uri ch_question of
        Some p \<Rightarrow> (p, p + 1, length uri - (p + 1))
      | None \<Rightarrow> (length uri, 0, 0))"

section \<open>Values in header lines\<close>

text \<open>
  \<^verbatim>\<open>ngx_http_parse_multi_header_lines\<close>: \<open>s\<close> is the text from \<^verbatim>\<open>start\<close> to
  \<^verbatim>\<open>end\<close>. The value of a header line is followed by a NUL, which stops the comparison. The
  result of a line is the offset of the value from the end of the line and its length
  (\<open>Some None\<close> when no value was asked for).
\<close>

definition mh_skip :: "ngx_str \<Rightarrow> ngx_str" where
  "mh_skip s = dropWhile (\<lambda>c. c = ch_sp) (drop 1 (dropWhile (\<lambda>c. c \<noteq> ch_semi \<and> c \<noteq> ch_comma) s))"

lemma mh_skip_length: "length (mh_skip s) \<le> length s - 1"
proof -
  have "length (mh_skip s) \<le> length (drop 1 (dropWhile (\<lambda>c. c \<noteq> ch_semi \<and> c \<noteq> ch_comma) s))"
    unfolding mh_skip_def by (rule length_dropWhile_le)
  moreover have "length (dropWhile (\<lambda>c. c \<noteq> ch_semi \<and> c \<noteq> ch_comma) s) \<le> length s"
    by (rule length_dropWhile_le)
  ultimately show ?thesis by simp
qed

function mh_line :: "ngx_str \<Rightarrow> bool \<Rightarrow> ngx_str \<Rightarrow> (nat \<times> nat) option option" where
  "mh_line name want s =
     (if s = [] then None
      else if ngx_strncasecmp (s @ [0]) name (length name) \<noteq> Some 0 then mh_line name want (mh_skip s)
      else let s1 = dropWhile (\<lambda>c. c = ch_sp) (drop (length name) s)
           in if \<not> want then
                (if s1 = [] \<or> hd s1 = ch_comma then Some None else mh_line name want (mh_skip s1))
              else if s1 = [] then mh_line name want (mh_skip s1)
              else if hd s1 \<noteq> ch_eq then mh_line name want (mh_skip (tl s1))
              else let s2 = dropWhile (\<lambda>c. c = ch_sp) (tl s1)
                   in Some (Some (length s2, length (takeWhile (\<lambda>c. c \<noteq> ch_semi) s2))))"
  by pat_completeness auto
termination
proof (relation "measure (\<lambda>(name, want, s). length s)"; clarsimp)
  fix s :: ngx_str
  assume "s \<noteq> []"
  then show "length (mh_skip s) < length s" using mh_skip_length [of s] by (cases s) auto
next
  fix name s :: ngx_str
  let ?s1 = "dropWhile (\<lambda>c. c = ch_sp) (drop (length name) s)"
  assume "s \<noteq> []"
  moreover have "length ?s1 \<le> length s"
    using length_dropWhile_le [of "\<lambda>c. c = ch_sp" "drop (length name) s"] by simp
  ultimately show "length (mh_skip ?s1) < length s" using mh_skip_length [of ?s1] by (cases s) auto
next
  fix name s :: ngx_str
  assume "s \<noteq> []"
  then show "length (mh_skip []) < length s" by (simp add: mh_skip_def)
next
  fix name s :: ngx_str
  let ?s1 = "dropWhile (\<lambda>c. c = ch_sp) (drop (length name) s)"
  assume "s \<noteq> []"
  moreover have "length ?s1 \<le> length s"
    using length_dropWhile_le [of "\<lambda>c. c = ch_sp" "drop (length name) s"] by simp
  ultimately show "length (mh_skip (tl ?s1)) < length s" using mh_skip_length [of "tl ?s1"] by (cases s) auto
qed

fun mh_headers :: "nat \<Rightarrow> ngx_str list \<Rightarrow> ngx_str \<Rightarrow> bool \<Rightarrow> ngx_int \<times> (nat \<times> nat) option" where
  "mh_headers i [] name want = (NGX_DECLINED, None)"
| "mh_headers i (v # hs) name want =
     (if length name > length v then mh_headers (Suc i) hs name want
      else case mh_line name want v of
             None \<Rightarrow> mh_headers (Suc i) hs name want
           | Some None \<Rightarrow> (of_nat i, None)
           | Some (Some (k, n)) \<Rightarrow> (of_nat i, Some (length v - k, n)))"

definition ngx_http_parse_multi_header_lines ::
    "ngx_str list \<Rightarrow> ngx_str \<Rightarrow> bool \<Rightarrow> ngx_int \<times> (nat \<times> nat) option" where
  "ngx_http_parse_multi_header_lines headers name want = mh_headers 0 headers name want"

section \<open>The normalised path\<close>

text \<open>How a path ends, read from its last byte backwards.\<close>

abbreviation ends_slash :: "ngx_str \<Rightarrow> bool" where "ends_slash xs \<equiv> take 1 (rev xs) = [ch_slash]"
abbreviation ends_dot :: "ngx_str \<Rightarrow> bool" where "ends_dot xs \<equiv> take 2 (rev xs) = [ch_dot, ch_slash]"
abbreviation ends_dot_dot :: "ngx_str \<Rightarrow> bool" where "ends_dot_dot xs \<equiv> take 3 (rev xs) = [ch_dot, ch_dot, ch_slash]"

text \<open>No prefix ends in a complete dot segment, or in two slashes when they are merged.\<close>

definition seg_end :: "bool \<Rightarrow> ngx_str \<Rightarrow> bool" where
  "seg_end m xs \<longleftrightarrow> take 3 (rev xs) = [ch_slash, ch_dot, ch_slash]
     \<or> take 4 (rev xs) = [ch_slash, ch_dot, ch_dot, ch_slash] \<or> (m \<and> take 2 (rev xs) = [ch_slash, ch_slash])"

definition normal :: "bool \<Rightarrow> ngx_str \<Rightarrow> bool" where
  "normal m xs \<longleftrightarrow> (\<forall>k \<le> length xs. \<not> seg_end m (take k xs))"

lemma normal_Nil: "normal m []" by (simp add: normal_def seg_end_def)

lemma normal_snoc: "normal m (xs @ [c]) \<longleftrightarrow> normal m xs \<and> \<not> seg_end m (xs @ [c])"
  by (auto simp: normal_def le_Suc_eq)

lemma normal_take: "normal m xs \<Longrightarrow> normal m (take k xs)"
  by (auto simp: normal_def min_def)

lemma seg_end_snoc: "seg_end m (xs @ [c]) \<longleftrightarrow> c = ch_slash \<and> (ends_dot xs \<or> ends_dot_dot xs \<or> (m \<and> ends_slash xs))"
  by (auto simp: seg_end_def)

lemma normal_no_sublist:
  assumes "normal m xs"
  shows "\<not> sublist (bytes ''/./'') xs" "\<not> sublist (bytes ''/../'') xs" "m \<Longrightarrow> \<not> sublist (bytes ''//'') xs"
proof -
  have no: "\<not> seg_end m (pre @ mid)" if "xs = pre @ mid @ post" for pre mid post
  proof -
    have "take (length (pre @ mid)) xs = pre @ mid" using that by simp
    then show ?thesis using assms that by (metis length_append linorder_linear normal_def take_all)
  qed
  have "seg_end m (pre @ bytes ''/./'')" "seg_end m (pre @ bytes ''/../'')" "m \<Longrightarrow> seg_end m (pre @ bytes ''//'')" for pre
    by (simp_all add: seg_end_def bytes_def)
  with no show "\<not> sublist (bytes ''/./'') xs" "\<not> sublist (bytes ''/../'') xs" "m \<Longrightarrow> \<not> sublist (bytes ''//'') xs"
    unfolding sublist_def by metis+
qed

fun cu_tail :: "cu_base \<Rightarrow> ngx_str \<Rightarrow> bool" where
  "cu_tail Sw_usual out \<longleftrightarrow> \<not> ends_slash out \<and> \<not> ends_dot out \<and> \<not> ends_dot_dot out"
| "cu_tail Sw_slash out \<longleftrightarrow> ends_slash out"
| "cu_tail Sw_dot out \<longleftrightarrow> ends_dot out"
| "cu_tail Sw_dot_dot out \<longleftrightarrow> ends_dot_dot out"

fun cu_inv :: "bool \<Rightarrow> cu_state \<Rightarrow> cu_vars \<Rightarrow> bool" where
  "cu_inv m (Base b) v \<longleftrightarrow> normal m (cu_out v) \<and> cu_tail b (cu_out v)"
| "cu_inv m st v \<longleftrightarrow> normal m (cu_out v) \<and> cu_tail (cu_quoted_state v) (cu_out v)"

fun cu_act_ok :: "bool \<Rightarrow> cu_act \<Rightarrow> bool" where
  "cu_act_ok m (Cu_next st v) \<longleftrightarrow> cu_inv m st v"
| "cu_act_ok m (Cu_stay st v) \<longleftrightarrow> cu_inv m st v"
| "cu_act_ok m (Cu_args v) \<longleftrightarrow> normal m (cu_out v)"
| "cu_act_ok m (Cu_done v) \<longleftrightarrow> normal m (cu_out v)"
| "cu_act_ok m (Cu_invalid v) \<longleftrightarrow> True"

lemma cu_back_ends: "cu_back out n = Some out' \<Longrightarrow> n \<le> length out \<Longrightarrow> ends_slash out' \<and> (\<exists>k. out' = take k out)"
proof (induction out n rule: cu_back.induct)
  case (2 out n)
  show ?case
  proof (cases "out ! n = ch_slash")
    case True
    with 2 have out': "out' = take (Suc n) out" by simp
    with True 2 have "ends_slash out'" by (simp add: take_Suc_conv_app_nth)
    with out' show ?thesis by blast
  qed (use 2 in auto)
qed simp

lemma ends_exclusive:
  "ends_dot out \<Longrightarrow> \<not> ends_slash out \<and> \<not> ends_dot_dot out"
  "ends_dot_dot out \<Longrightarrow> \<not> ends_slash out \<and> \<not> ends_dot out"
  "ends_slash out \<Longrightarrow> \<not> ends_dot out \<and> \<not> ends_dot_dot out"
proof -
  obtain a b c where "rev out = [] \<or> rev out = [a] \<or> rev out = [a, b] \<or> (\<exists>r. rev out = a # b # c # r)"
    by (metis list.exhaust)
  then show "ends_dot out \<Longrightarrow> \<not> ends_slash out \<and> \<not> ends_dot_dot out"
    "ends_dot_dot out \<Longrightarrow> \<not> ends_slash out \<and> \<not> ends_dot out"
    "ends_slash out \<Longrightarrow> \<not> ends_dot out \<and> \<not> ends_dot_dot out"
    by auto
qed


lemma cu_put_simps [simp]: "cu_out (cu_put c v) = cu_out v @ [c]" "cu_quoted_state (cu_put c v) = cu_quoted_state v"
  by (simp_all add: cu_put_def)

lemma cu_inv_base: "cu_inv m (Base b) v \<Longrightarrow> cu_act_ok m (cu_switch m (Base b) v)"
proof (cases b)
  case Sw_usual
  then show "cu_inv m (Base b) v \<Longrightarrow> ?thesis"
    by (auto simp: cu_sw_usual_def Let_def normal_snoc seg_end_snoc is_usual_iff)
next
  case Sw_slash
  then show "cu_inv m (Base b) v \<Longrightarrow> ?thesis"
    using ends_exclusive(3) [of "cu_out v"]
    by (auto simp: cu_sw_slash_def Let_def normal_snoc seg_end_snoc is_usual_iff)
next
  case Sw_dot
  assume inv: "cu_inv m (Base b) v"
  have b: "butlast (cu_out v) = take (length (cu_out v) - 1) (cu_out v)" by (rule butlast_conv_take)
  have "ends_slash (butlast (cu_out v))" if "ends_dot (cu_out v)"
    using that by (cases "cu_out v" rule: rev_cases) auto
  then show ?thesis
    using Sw_dot inv ends_exclusive(1) [of "cu_out v"] normal_take [of m "cu_out v"]
    by (auto simp: cu_sw_dot_def Let_def normal_snoc seg_end_snoc is_usual_iff b)
next
  case Sw_dot_dot
  assume inv: "cu_inv m (Base b) v"
  have "ends_slash out \<and> normal m out" if "cu_back (cu_out v) (length (cu_out v) - 4) = Some out" for out
    using cu_back_ends [OF that] inv normal_take [of m "cu_out v"] by auto
  then show ?thesis
    using Sw_dot_dot inv ends_exclusive(2) [of "cu_out v"]
    by (auto simp: cu_sw_dot_dot_def Let_def normal_snoc seg_end_snoc is_usual_iff split: option.splits)
qed

lemma cu_inv_switch: "cu_inv m st v \<Longrightarrow> cu_act_ok m (cu_switch m st v)"
proof (cases st)
  case Sw_quoted
  then show "cu_inv m st v \<Longrightarrow> ?thesis" by (simp add: cu_sw_quoted_def Let_def)
next
  case Sw_quoted_second
  then show "cu_inv m st v \<Longrightarrow> ?thesis"
    by (auto simp: cu_sw_quoted_second_def Let_def normal_snoc seg_end_snoc)
qed (use cu_inv_base in simp)

lemma cu_inv_ch: "cu_inv m st (v\<lparr>cu_ch := c\<rparr>) = cu_inv m st v"
  by (cases st) simp_all

lemma cu_loop_normal: "cu_inv m st v \<Longrightarrow> cu_act_ok m (fst (cu_loop m st inp v))"
proof (induction m st inp v rule: cu_loop.induct)
  case (1 m st v)
  then show ?case by (cases st) simp_all
next
  case (2 m st c inp v)
  have "cu_act_ok m (cu_switch m st v)" using 2(3) by (rule cu_inv_switch)
  with 2(1,2) show ?case by (cases "cu_switch m st v") (simp_all add: cu_inv_ch)
qed


lemma complex_uri_cases:
  assumes "ngx_http_parse_complex_uri m mem r = Some (NGX_OK, r', Some parts)"
  obtains us ue v inp a where "r_uri_start r = Some us" "r_uri_end r = Some ue" "us \<le> ue" "ue < length mem"
    "cu_loop m (Base Sw_usual) (window mem (us + 1) (ue + 1))
       \<lparr>cu_ch = mem ! us, cu_quoted_state = Sw_usual, cu_decoded = 0, cu_out = [], cu_ext = None,
        cu_plus = r_plus_in_uri r, cu_quoted = r_quoted_uri r\<rparr> = (a, inp)"
    "cu_act_ok m a \<Longrightarrow> normal m (up_uri parts)"
proof -
  obtain us ue where u: "r_uri_start r = Some us" "r_uri_end r = Some ue" "us \<le> ue" "ue < length mem"
    using assms by (auto simp: ngx_http_parse_complex_uri_def split: option.splits if_splits)
  obtain a inp where l: "cu_loop m (Base Sw_usual) (window mem (us + 1) (ue + 1))
       \<lparr>cu_ch = mem ! us, cu_quoted_state = Sw_usual, cu_decoded = 0, cu_out = [], cu_ext = None,
        cu_plus = r_plus_in_uri r, cu_quoted = r_quoted_uri r\<rparr> = (a, inp)" by force
  have "normal m (up_uri parts)" if "cu_act_ok m a"
  proof -
    have "normal m (cu_out v)" if "cu_inv m st v" for st v using that by (cases st) simp_all
    then show ?thesis
      using assms u l that
      by (cases a) (auto simp: ngx_http_parse_complex_uri_def cu_parts_def Let_def ngx_rc split: option.splits)
  qed
  with u l show ?thesis using that by blast
qed

text \<open>
  C3. When \<^verbatim>\<open>ngx_http_parse_complex_uri\<close> accepts a URI, the path it produces contains no
  \<^verbatim>\<open>/./\<close> and no \<^verbatim>\<open>/../\<close>, and no \<^verbatim>\<open>//\<close> when slashes are merged: no encoding of
  dots and slashes in the request gets a parent reference past it.
\<close>

theorem complex_uri_normalised:
  assumes "ngx_http_parse_complex_uri merge_slashes mem r = Some (NGX_OK, r', Some parts)"
  shows "\<not> sublist (bytes ''/./'') (up_uri parts) \<and> \<not> sublist (bytes ''/../'') (up_uri parts)
    \<and> (merge_slashes \<longrightarrow> \<not> sublist (bytes ''//'') (up_uri parts))"
proof -
  have "cu_inv merge_slashes (Base Sw_usual) \<lparr>cu_ch = c, cu_quoted_state = Sw_usual, cu_decoded = 0, cu_out = [],
      cu_ext = None, cu_plus = p, cu_quoted = q\<rparr>" for c p q
    by (simp add: normal_Nil)
  then have "normal merge_slashes (up_uri parts)"
    using complex_uri_cases [OF assms] cu_loop_normal by (metis fst_conv)
  then show ?thesis using normal_no_sublist by blast
qed

definition sample_uri :: ngx_str where
  "sample_uri = bytes ''/a/%2e%2E/b//c/./%64.txt?x HTTP/1.0''"

definition sample_uri_request :: http_request where
  "sample_uri_request = ngx_http_new_request\<lparr>r_uri_start := Some 0, r_uri_end := Some 26, r_complex_uri := True\<rparr>"

lemma sample_uri_parsed:
  "ngx_http_parse_complex_uri True sample_uri sample_uri_request
     = Some (NGX_OK, sample_uri_request\<lparr>r_quoted_uri := True, r_args_start := Some 25\<rparr>,
         Some \<lparr>up_uri = bytes ''/b/c/d.txt'', up_exten = Some (bytes ''txt''), up_args = None\<rparr>)"
  by code_simp

theorem complex_uri_normalised_witness:
  "\<not> sublist (bytes ''/./'') (bytes ''/b/c/d.txt'') \<and> \<not> sublist (bytes ''/../'') (bytes ''/b/c/d.txt'')
    \<and> \<not> sublist (bytes ''//'') (bytes ''/b/c/d.txt'')"
  using complex_uri_normalised [OF sample_uri_parsed] by simp

section \<open>The buffer is large enough\<close>

text \<open>The configurations the loop passes through, with the bytes not yet read.\<close>

inductive cu_reach :: "bool \<Rightarrow> ngx_str \<Rightarrow> cu_vars \<Rightarrow> cu_state \<Rightarrow> ngx_str \<Rightarrow> cu_vars \<Rightarrow> bool"
  for m :: bool and inp0 :: ngx_str and v0 :: cu_vars where
  start: "cu_reach m inp0 v0 (Base Sw_usual) inp0 v0"
| nextc: "cu_reach m inp0 v0 st (c # inp) v \<Longrightarrow> cu_switch m st v = Cu_next st' v' \<Longrightarrow>
    cu_reach m inp0 v0 st' inp (v'\<lparr>cu_ch := c\<rparr>)"
| stay: "cu_reach m inp0 v0 st (c # inp) v \<Longrightarrow> cu_switch m st v = Cu_stay st' v' \<Longrightarrow>
    cu_reach m inp0 v0 st' (c # inp) v'"

lemmas cu_switch_defs = cu_sw_usual_def cu_sw_slash_def cu_sw_dot_def cu_sw_dot_dot_def cu_sw_quoted_def
  cu_sw_quoted_second_def Let_def

lemma cu_back_length: "cu_back out n = Some out' \<Longrightarrow> length out' \<le> length out"
  by (induction out n rule: cu_back.induct) (auto split: if_splits)

lemma cu_next_length: "cu_switch m st v = Cu_next st' v' \<Longrightarrow> length (cu_out v') \<le> Suc (length (cu_out v))"
  by (cases "(m, st, v)" rule: cu_switch.cases)
    (auto simp: cu_switch_defs split: if_splits option.splits dest: cu_back_length)

lemma cu_stay_length: "cu_switch m st v = Cu_stay st' v' \<Longrightarrow> cu_out v' = cu_out v"
  by (cases "(m, st, v)" rule: cu_switch.cases) (auto simp: cu_switch_defs split: if_splits option.splits)

lemma cu_question: "cu_ch v = ch_question \<Longrightarrow> cu_switch m st v \<noteq> Cu_next st' v' \<and> cu_switch m st v \<noteq> Cu_stay st' v'"
  by (cases "(m, st, v)" rule: cu_switch.cases) (auto simp: cu_switch_defs is_usual_iff split: if_splits option.splits)

lemma cu_reach_bound:
  assumes "cu_reach m inp0 v0 st inp v" and "cu_out v0 = []"
  shows "length (cu_out v) + length inp \<le> length inp0 \<and> inp = drop (length inp0 - length inp) inp0
    \<and> (let w = cu_ch v0 # inp0; i = length inp0 - length inp
        in (cu_ch v = w ! i \<or> w ! i \<noteq> ch_question) \<and> (\<forall>k < i. w ! k \<noteq> ch_question))"
  using assms
proof (induction rule: cu_reach.induct)
  case start
  then show ?case by simp
next
  case (nextc st c inp v st' v')
  let ?i = "length inp0 - length (c # inp)" and ?w = "cu_ch v0 # inp0"
  have len: "length (cu_out v) + length (c # inp) \<le> length inp0" and inp: "drop ?i inp0 = c # inp"
    and w: "cu_ch v = ?w ! ?i \<or> ?w ! ?i \<noteq> ch_question" "\<forall>k < ?i. ?w ! k \<noteq> ch_question"
    using nextc.IH [OF nextc.prems] by (auto simp only: Let_def)
  have i: "length inp0 - length inp = Suc ?i" using len by simp
  have c: "inp0 ! ?i = c" "drop (Suc ?i) inp0 = inp"
    using nth_via_drop [OF inp] inp by (simp_all add: drop_Suc drop_tl)
  have "?w ! ?i \<noteq> ch_question" using w(1) nextc(2) cu_question [of v m st st' v'] by auto
  then have "\<forall>k < Suc ?i. ?w ! k \<noteq> ch_question" using w(2) by (auto simp: less_Suc_eq)
  then show ?case
    unfolding i Let_def using c len cu_next_length [OF nextc(2)] by simp
next
  case (stay st c inp v st' v')
  then show ?case using cu_stay_length [OF stay(2)] cu_question [of v m st st' v'] by (auto simp: Let_def)
qed


lemma cu_loop_reach:
  "cu_reach m inp0 v0 st inp v \<Longrightarrow> cu_loop m st inp v = (a, inp') \<Longrightarrow>
     \<exists>st1 v1. cu_reach m inp0 v0 st1 inp' v1 \<and> (a = Cu_done v1 \<or> cu_switch m st1 v1 = a)"
proof (induction m st inp v arbitrary: a inp' rule: cu_loop.induct)
  case (1 m st v)
  then show ?case by auto
next
  case (2 m st c inp v)
  then show ?case
    by (cases "cu_switch m st v") (auto dest: cu_reach.nextc cu_reach.stay)
qed

lemma cu_loop_leaves: "cu_loop m st inp v = (a, inp') \<Longrightarrow> a \<noteq> Cu_next st' v' \<and> a \<noteq> Cu_stay st' v'"
proof (induction m st inp v rule: cu_loop.induct)
  case (2 m st c inp v)
  then show ?case by (cases "cu_switch m st v") auto
qed auto

lemma cu_leave_length:
  "cu_switch m st v = Cu_args v' \<Longrightarrow> cu_out v' = cu_out v"
  "cu_switch m st v = Cu_done v' \<Longrightarrow> cu_out v' = cu_out v"
  by (cases "(m, st, v)" rule: cu_switch.cases; simp add: cu_switch_defs split: if_split_asm option.split_asm)+

definition cu_start :: "ngx_str \<Rightarrow> http_request \<Rightarrow> nat \<Rightarrow> cu_vars" where
  "cu_start mem r us = \<lparr>cu_ch = mem ! us, cu_quoted_state = Sw_usual, cu_decoded = 0, cu_out = [], cu_ext = None,
     cu_plus = r_plus_in_uri r, cu_quoted = r_quoted_uri r\<rparr>"

lemma takeWhile_length_ge: "i \<le> length xs \<Longrightarrow> \<forall>k < i. P (xs ! k) \<Longrightarrow> i \<le> length (takeWhile P xs)"
proof (induction xs arbitrary: i)
  case (Cons x xs)
  show ?case
  proof (cases i)
    case (Suc j)
    with Cons.prems have "P x" "j \<le> length xs" "\<forall>k < j. P (xs ! k)" by fastforce+
    with Cons.IH Suc show ?thesis by simp
  qed simp
qed simp

lemma cu_reach_fits:
  assumes "cu_reach m (window mem (us + 1) (ue + 1)) (cu_start mem r us) st inp v" and "us \<le> ue" and "ue < length mem"
  shows "length (cu_out v) \<le> length (takeWhile (\<lambda>c. c \<noteq> ch_question) (window mem us ue))"
proof -
  let ?inp = "window mem (us + 1) (ue + 1)" and ?w = "mem ! us # window mem (us + 1) (ue + 1)"
  have out0: "cu_out (cu_start mem r us) = []" "cu_ch (cu_start mem r us) = mem ! us"
    by (simp_all add: cu_start_def)
  have li: "length ?inp = ue - us" using assms(3) by simp
  let ?i = "ue - us - length inp"
  have b: "length (cu_out v) + length inp \<le> ue - us" "\<forall>k < ?i. ?w ! k \<noteq> ch_question"
    using cu_reach_bound [OF assms(1) out0(1)] unfolding Let_def li out0(2) by blast+
  have wn: "window mem us ue ! k = ?w ! k" if "k < ?i" for k
  proof -
    have "us + k < ue" using that by linarith
    then show ?thesis
      using assms(3) window_nth [of ue mem us k] window_nth [of "ue + 1" mem "us + 1" "k - 1"] by (cases k) simp_all
  qed
  have "?i \<le> length (takeWhile (\<lambda>c. c \<noteq> ch_question) (window mem us ue))"
    by (rule takeWhile_length_ge) (use b wn assms in \<open>simp_all add: less_imp_le\<close>)
  then show ?thesis using b(1) by linarith
qed

text \<open>
  Decoding never writes outside the buffer it was given: in every configuration of the
  loop, and so at every write, the output is at most as long as the path of the request, up
  to its first question mark, and \<^verbatim>\<open>ngx_http_process_request_line\<close> allocates at least
  one byte more than that. The same holds of the path that is returned.
\<close>

theorem complex_uri_output_fits:
  assumes "us \<le> ue" and "ue < length mem"
  shows "(cu_reach m (window mem (us + 1) (ue + 1)) (cu_start mem r us) st inp v \<longrightarrow>
      length (cu_out v) \<le> length (takeWhile (\<lambda>c. c \<noteq> ch_question) (window mem us ue)))
    \<and> (r_uri_start r = Some us \<and> r_uri_end r = Some ue
         \<and> ngx_http_parse_complex_uri m mem r = Some (NGX_OK, r', Some parts) \<longrightarrow>
      length (up_uri parts) \<le> length (takeWhile (\<lambda>c. c \<noteq> ch_question) (window mem us ue)))"
proof (intro conjI impI)
  assume "cu_reach m (window mem (us + 1) (ue + 1)) (cu_start mem r us) st inp v"
  then show "length (cu_out v) \<le> length (takeWhile (\<lambda>c. c \<noteq> ch_question) (window mem us ue))"
    using assms by (rule cu_reach_fits)
next
  assume ok: "r_uri_start r = Some us \<and> r_uri_end r = Some ue
    \<and> ngx_http_parse_complex_uri m mem r = Some (NGX_OK, r', Some parts)"
  obtain a inp where l: "cu_loop m (Base Sw_usual) (window mem (us + 1) (ue + 1)) (cu_start mem r us) = (a, inp)" by force
  obtain st1 v1 where r1: "cu_reach m (window mem (us + 1) (ue + 1)) (cu_start mem r us) st1 inp v1"
      "a = Cu_done v1 \<or> cu_switch m st1 v1 = a"
    using cu_loop_reach [OF cu_reach.start l] by blast
  note final = cu_loop_leaves [OF l]
  show "length (up_uri parts) \<le> length (takeWhile (\<lambda>c. c \<noteq> ch_question) (window mem us ue))"
    using ok l r1 cu_reach_fits [OF r1(1) assms] assms final
    by (cases a) (auto simp: ngx_http_parse_complex_uri_def cu_start_def [symmetric] cu_parts_def Let_def ngx_rc
        dest: cu_leave_length split: option.splits)
qed


theorem complex_uri_output_fits_witness:
  "length (up_uri \<lparr>up_uri = bytes ''/b/c/d.txt'', up_exten = Some (bytes ''txt''), up_args = None\<rparr>)
     \<le> length (takeWhile (\<lambda>c. c \<noteq> ch_question) (window sample_uri 0 26))"
proof -
  have "26 < length sample_uri" by (simp add: sample_uri_def bytes_def)
  moreover have "r_uri_start sample_uri_request = Some 0" "r_uri_end sample_uri_request = Some 26"
    by (simp_all add: sample_uri_request_def)
  ultimately show ?thesis
    using complex_uri_output_fits [of 0 26 sample_uri True sample_uri_request] sample_uri_parsed by blast
qed

section \<open>Plain paths are left alone\<close>

definition cu_after :: "u_char \<Rightarrow> cu_base" where
  "cu_after c = (if c = ch_slash then Sw_slash else Sw_usual)"

lemma cu_plain_step:
  assumes "path_char (cu_ch v)" and "\<not> (x = ch_slash \<and> (cu_ch v = ch_dot \<or> cu_ch v = ch_slash))"
  shows "\<exists>v'. cu_switch m (Base (cu_after x)) v = Cu_next (Base (cu_after (cu_ch v))) v'
    \<and> cu_out v' = cu_out v @ [cu_ch v]"
  using assms
  by (auto simp: cu_after_def cu_sw_usual_def cu_sw_slash_def Let_def is_usual_iff path_char_def)

lemma cu_loop_plain:
  assumes "list_all path_char (cu_ch v # cs)" and "no_dot_slash (x # cu_ch v # cs)"
  shows "\<exists>v'. cu_loop m (Base (cu_after x)) (cs @ t # rest) v = cu_loop m (Base (cu_after (last (cu_ch v # cs)))) rest v'
    \<and> cu_out v' = cu_out v @ cu_ch v # cs \<and> cu_ch v' = t"
  using assms
proof (induction cs arbitrary: v x)
  case Nil
  then obtain v' where "cu_switch m (Base (cu_after x)) v = Cu_next (Base (cu_after (cu_ch v))) v'"
    "cu_out v' = cu_out v @ [cu_ch v]"
    using cu_plain_step [of v x m] by auto
  then show ?case by (intro exI [of _ "v'\<lparr>cu_ch := t\<rparr>"]) simp
next
  case (Cons c cs)
  then obtain v' where v': "cu_switch m (Base (cu_after x)) v = Cu_next (Base (cu_after (cu_ch v))) v'"
    "cu_out v' = cu_out v @ [cu_ch v]"
    using cu_plain_step [of v x m] by auto
  obtain v'' where "cu_loop m (Base (cu_after (cu_ch v))) (cs @ t # rest) (v'\<lparr>cu_ch := c\<rparr>)
      = cu_loop m (Base (cu_after (last (c # cs)))) rest v''"
    "cu_out v'' = cu_out v' @ c # cs" "cu_ch v'' = t"
    using Cons.IH [of "v'\<lparr>cu_ch := c\<rparr>" "cu_ch v"] Cons.prems by auto
  with v' show ?case by (intro exI [of _ v'']) simp
qed

lemma no_dot_slash_Cons: "no_dot_slash (c # xs) \<Longrightarrow> x \<noteq> ch_slash \<Longrightarrow> no_dot_slash (x # c # xs)"
  by simp

lemma window_Cons: "a < b \<Longrightarrow> b \<le> length mem \<Longrightarrow> window mem a b = mem ! a # window mem (Suc a) b"
  by (simp add: window_def Cons_nth_drop_Suc [symmetric] take_Cons')

text \<open>
  The slow path agrees with the fast one. On a path that is plain, the condition under
  which the request line parser sets no flag and the server takes the path as it stands,
  \<^verbatim>\<open>ngx_http_parse_complex_uri\<close> succeeds and returns that path unchanged.
\<close>

theorem complex_uri_plain_identity:
  assumes "r_uri_start r = Some us" and "r_uri_end r = Some ue" and "us < ue" and "ue < length mem"
    and "plain_path (takeWhile (\<lambda>c. c \<noteq> ch_question) (window mem us ue))"
  shows "\<exists>r' parts. ngx_http_parse_complex_uri m mem r = Some (NGX_OK, r', Some parts)
    \<and> up_uri parts = takeWhile (\<lambda>c. c \<noteq> ch_question) (window mem us ue)"
proof -
  let ?path = "takeWhile (\<lambda>c. c \<noteq> ch_question) (window mem us ue)"
  let ?v = "cu_start mem r us"
  have head: "window mem us ue = mem ! us # window mem (Suc us) ue"
    using assms by (intro window_Cons) auto
  have q: "mem ! us = ch_slash" using assms(5) head by (auto simp: plain_path_def split: if_splits)
  define cs where "cs = takeWhile (\<lambda>c. c \<noteq> ch_question) (window mem (Suc us) ue)"
  have path: "?path = mem ! us # cs" unfolding head cs_def by (simp add: q)
  have split: "window mem (Suc us) (Suc ue) = window mem (Suc us) ue @ [mem ! ue]"
    using assms by (intro window_snoc) auto
  obtain t rest where tr: "window mem (us + 1) (ue + 1) = cs @ t # rest" "rest = [] \<or> t = ch_question"
  proof (cases "dropWhile (\<lambda>c. c \<noteq> ch_question) (window mem (Suc us) ue)")
    case Nil
    then have "cs = window mem (Suc us) ue" by (metis cs_def append_Nil2 takeWhile_dropWhile_id)
    then show ?thesis using that [of "mem ! ue" "[]"] split by simp
  next
    case (Cons t ts)
    then have "t = ch_question" using hd_dropWhile [of "\<lambda>c. c \<noteq> ch_question" "window mem (Suc us) ue"] by simp
    moreover have "window mem (Suc us) ue = cs @ t # ts" by (metis cs_def Cons takeWhile_dropWhile_id)
    ultimately show ?thesis using that [of t "ts @ [mem ! ue]"] split by simp
  qed
  have v0: "cu_ch ?v = mem ! us" "cu_out ?v = []" "cu_after 0 = Sw_usual" by (simp_all add: cu_start_def cu_after_def)
  have "list_all path_char (cu_ch ?v # cs)" "no_dot_slash (0 # cu_ch ?v # cs)"
    using assms(5) unfolding path v0 by (auto simp: plain_path_def)
  from cu_loop_plain [OF this, of m t rest]
  obtain v' where v': "cu_loop m (Base Sw_usual) (cs @ t # rest) ?v = cu_loop m (Base (cu_after (last (cu_ch ?v # cs)))) rest v'"
    "cu_out v' = ?path" "cu_ch v' = t"
    unfolding v0 path append_Nil by blast
  have "\<exists>a. cu_loop m (Base (cu_after z)) rest v' = (a, rest) \<and> (a = Cu_done v' \<or> a = Cu_args v')" for z
    using tr(2) v'(3) by (cases rest) (auto simp: cu_after_def cu_sw_usual_def cu_sw_slash_def Let_def is_usual_iff)
  then obtain a where a: "cu_loop m (Base Sw_usual) (window mem (us + 1) (ue + 1)) ?v = (a, rest)"
    "a = Cu_done v' \<or> a = Cu_args v'"
    using v'(1) tr(1) by metis
  then show ?thesis
    using assms v'(2)
    by (auto simp: ngx_http_parse_complex_uri_def cu_start_def [symmetric] cu_parts_def Let_def split: option.splits)
qed

theorem complex_uri_plain_identity_witness:
  "\<exists>r' parts. ngx_http_parse_complex_uri False sample_line sample_request = Some (NGX_OK, r', Some parts)
    \<and> up_uri parts = takeWhile (\<lambda>c. c \<noteq> ch_question) (window sample_line 4 23)"
proof (rule complex_uri_plain_identity)
  show "plain_path (takeWhile (\<lambda>c. c \<noteq> ch_question) (window sample_line 4 23))" by code_simp
qed (simp_all add: sample_request_def sample_line_def bytes_def)

section \<open>Unsafe URIs are refused\<close>











section \<open>Looking up an argument\<close>

declare http_arg_loop.simps [simp del]

text \<open>An argument with this name starts at \<open>q\<close>: at the start or after \<^verbatim>\<open>&\<close>, the name up to case, \<^verbatim>\<open>=\<close>.\<close>

definition arg_at :: "ngx_str \<Rightarrow> ngx_str \<Rightarrow> nat \<Rightarrow> bool" where
  "arg_at args name q \<longleftrightarrow> (q = 0 \<or> args ! (q - 1) = ch_amp) \<and> q + length name < length args
     \<and> map ngx_tolower (take (length name) (drop q args)) = map ngx_tolower name \<and> args ! (q + length name) = ch_eq"

definition arg_value :: "ngx_str \<Rightarrow> ngx_str \<Rightarrow> nat \<Rightarrow> nat \<times> nat" where
  "arg_value args name q =
     (q + length name + 1, length (takeWhile (\<lambda>c. c \<noteq> ch_amp) (drop (q + length name + 1) args)))"

lemma strlchr_spec:
  "ngx_strlchr p xs c = (if c \<in> set xs then Some (p + length (takeWhile (\<lambda>x. x \<noteq> c) xs)) else None)"
  by (induction xs arbitrary: p) auto

lemma strlcasestrn_search:
  assumes "name \<noteq> []" "0 \<notin> set name" "len \<le> length s"
  shows "ngx_strlcasestrn s len name (length name - 1)
    = Some (first_occurrence (starts_with (map ngx_tolower name)) (map ngx_tolower (take len s)))"
proof -
  obtain c2 pat where n: "name = c2 # pat" using assms(1) by (cases name) auto
  with strlcasestrn_loop_first [of c2 pat len s 0 "[]"] assms show ?thesis
    by (simp add: ngx_strlcasestrn_def)
qed

lemma first_occurrence_None_iff: "first_occurrence m xs = None \<longleftrightarrow> (\<forall>p \<le> length xs. \<not> m (drop p xs))"
  by (auto simp: first_occurrence_def filter_empty_conv less_Suc_eq_le split: list.split simp del: upt_Suc)
    (metis filter_empty_conv atLeastLessThan_iff less_Suc_eq_le list.distinct(1) set_upt zero_le)

lemma find_skip: "p \<le> q \<Longrightarrow> (\<And>i. p \<le> i \<Longrightarrow> i < q \<Longrightarrow> \<not> P i) \<Longrightarrow> find P [p..<n] = find P [q..<n]"
proof (induction "q - p" arbitrary: p)
  case (Suc k)
  then have "\<not> P p" "p < q" by auto
  show ?case
  proof (cases "p < n")
    case True
    then show ?thesis using Suc \<open>\<not> P p\<close> by (simp add: upt_conv_Cons)
  next
    case False
    then show ?thesis using \<open>p < q\<close> by simp
  qed
qed simp

lemma arg_at_starts:
  assumes "arg_at args name q" and "p \<le> q"
  shows "starts_with (map ngx_tolower name) (drop (q - p) (map ngx_tolower (take (length args - 1 - p) (drop p args))))"
proof -
  have "drop (q - p) (map ngx_tolower (take (length args - 1 - p) (drop p args)))
      = map ngx_tolower (take (length args - 1 - q) (drop q args))"
    using assms by (simp add: drop_map drop_take)
  moreover have "length name \<le> length args - 1 - q" using assms by (auto simp: arg_at_def)
  ultimately show ?thesis
    using assms by (simp add: starts_with_def take_map arg_at_def min_def)
qed

lemma starts_arg_at:
  assumes "starts_with (map ngx_tolower name) (drop k (map ngx_tolower (take (length args - 1 - p) (drop p args))))"
    and "name \<noteq> []" and "p < length args"
  shows "p + k + length name < length args
    \<and> map ngx_tolower (take (length name) (drop (p + k) args)) = map ngx_tolower name"
proof -
  have e: "drop k (map ngx_tolower (take (length args - 1 - p) (drop p args)))
      = map ngx_tolower (take (length args - 1 - (p + k)) (drop (p + k) args))"
    by (simp add: drop_map drop_take add.commute)
  have s: "map ngx_tolower (take (length name) (take (length args - 1 - (p + k)) (drop (p + k) args))) = map ngx_tolower name"
    using assms(1) unfolding e starts_with_def by (simp add: take_map)
  have "length name \<le> length args - 1 - (p + k)" using arg_cong [OF s, of length] by simp
  then show ?thesis using s assms(2) by (simp add: min_def) (cases name; simp)
qed

lemma takeWhile_after:
  "c \<notin> set xs \<Longrightarrow> y \<noteq> c \<Longrightarrow> takeWhile (\<lambda>x. x \<noteq> c) (xs @ y # ys) = xs @ y # takeWhile (\<lambda>x. x \<noteq> c) ys"
  by (induction xs) auto

lemma arg_value_end:
  assumes "arg_at args name q" and "ch_amp \<notin> set name"
  shows "(case ngx_strlchr q (drop q args) ch_amp of None \<Rightarrow> length args | Some e \<Rightarrow> e) - (q + length name + 1)
    = length (takeWhile (\<lambda>c. c \<noteq> ch_amp) (drop (q + length name + 1) args))"
proof -
  let ?v = "drop (q + length name + 1) args" and ?n = "take (length name) (drop q args)"
  have "q + length name < length args" "args ! (q + length name) = ch_eq" using assms by (simp_all add: arg_at_def)
  then have d: "drop q args = ?n @ ch_eq # ?v"
    using append_take_drop_id [of "length name" "drop q args"] drop_eq_Cons_nth [of "q + length name" args]
    by (simp add: add.commute)
  have amp: "ch_amp \<notin> set ?n"
  proof
    assume "ch_amp \<in> set ?n"
    then have "ngx_tolower ch_amp \<in> ngx_tolower ` set name"
      using assms(1) by (metis arg_at_def imageI list.set_map)
    then obtain c where "c \<in> set name" "ngx_tolower c = ch_amp" by (auto simp: ngx_tolower_def)
    moreover have "ngx_tolower c = ch_amp \<longrightarrow> c = ch_amp"
    proof -
      have "\<forall>c. ngx_tolower c = ch_amp \<longrightarrow> c = ch_amp" unfolding byte_all by code_simp
      then show ?thesis by blast
    qed
    ultimately show False using assms(2) by blast
  qed
  have tw: "takeWhile (\<lambda>c. c \<noteq> ch_amp) (drop q args) = ?n @ ch_eq # takeWhile (\<lambda>c. c \<noteq> ch_amp) ?v"
    by (rule trans [OF arg_cong [OF d, of "takeWhile (\<lambda>c. c \<noteq> ch_amp)"] takeWhile_after [OF amp]]) simp
  have mem: "ch_amp \<in> set (drop q args) \<longleftrightarrow> ch_amp \<in> set ?v"
    by (rule trans [OF arg_cong [OF d, of "\<lambda>xs. ch_amp \<in> set xs"]]) (simp add: amp)
  have n: "length ?n = length name" using \<open>q + length name < length args\<close> by simp
  show ?thesis
  proof (cases "ch_amp \<in> set ?v")
    case True
    then show ?thesis unfolding strlchr_spec mem tw
      using \<open>q + length name < length args\<close> by (simp add: min_def)
  next
    case False
    then have tv: "takeWhile (\<lambda>c. c \<noteq> ch_amp) ?v = ?v" by (intro takeWhile_eq_all_conv [THEN iffD2]) auto
    show ?thesis unfolding strlchr_spec mem tv using False by simp
  qed
qed

lemma http_arg_loop_first:
  assumes "name \<noteq> []" "0 \<notin> set name" "ch_amp \<notin> set name"
  shows "http_arg_loop args name p = Some (map_option (arg_value args name) (find (arg_at args name) [p..<length args]))"
proof (induction "length args - p" arbitrary: p rule: less_induct)
  case less
  show ?case
  proof (cases "p < length args")
    case False
    then show ?thesis by (simp add: http_arg_loop.simps)
  next
    case True
    let ?t = "map ngx_tolower (take (length args - 1 - p) (drop p args))"
    have s: "ngx_strlcasestrn (drop p args) (length args - 1 - p) name (length name - 1)
        = Some (first_occurrence (starts_with (map ngx_tolower name)) ?t)"
      using strlcasestrn_search [OF assms(1,2), of "length args - 1 - p" "drop p args"] by simp
    show ?thesis
    proof (cases "first_occurrence (starts_with (map ngx_tolower name)) ?t")
      case None
      have "\<not> arg_at args name q" if "p \<le> q" for q
      proof
        assume q: "arg_at args name q"
        moreover have "q - p \<le> length ?t" using q by (auto simp: arg_at_def)
        ultimately show False using arg_at_starts [OF q that] None unfolding first_occurrence_None_iff by blast
      qed
      then have "find (arg_at args name) [p..<length args] = None" by (simp add: find_None_iff)
      then show ?thesis using True s None by (simp add: http_arg_loop.simps [of args name p])
    next
      case (Some k)
      have k: "starts_with (map ngx_tolower name) (drop k ?t)" "\<forall>i<k. \<not> starts_with (map ngx_tolower name) (drop i ?t)"
        using Some by (simp_all add: first_occurrence_Some_iff)
      have at: "p + k + length name < length args"
        "map ngx_tolower (take (length name) (drop (p + k) args)) = map ngx_tolower name"
        using starts_arg_at [OF k(1) assms(1) True] by simp_all
      have cond: "((p + k = 0 \<or> rd args (p + k - 1) = Some ch_amp) \<and> rd args (p + k + length name) = Some ch_eq)
          = arg_at args name (p + k)"
        using at by (auto simp: arg_at_def rd_def)
      have before: "\<not> arg_at args name i" if "p \<le> i" "i < p + k" for i
        using arg_at_starts [of args name i p] k(2) that by (metis less_diff_conv2 add.commute)
      show ?thesis
      proof (cases "arg_at args name (p + k)")
        case True
        then have "find (arg_at args name) [p..<length args] = Some (p + k)"
          using find_skip [of p "p + k" "arg_at args name" "length args"] before at(1) by (simp add: upt_conv_Cons)
        then show ?thesis
          using \<open>p < length args\<close> s Some True arg_value_end [OF True assms(3)]
          by (simp only: http_arg_loop.simps [of args name p] if_True option.case Let_def cond option.map arg_value_def)
      next
        case False
        then have "find (arg_at args name) [p..<length args] = find (arg_at args name) [p + k + 1..<length args]"
          using find_skip [of p "p + k + 1" "arg_at args name" "length args"] before
          by (metis Suc_eq_plus1 le_add1 le_SucI less_antisym)
        moreover have "http_arg_loop args name (p + k + 1)
            = Some (map_option (arg_value args name) (find (arg_at args name) [p + k + 1..<length args]))"
          by (rule less) (use \<open>p < length args\<close> at(1) in simp)
        ultimately show ?thesis
          using \<open>p < length args\<close> s Some False
          by (simp only: http_arg_loop.simps [of args name p] if_True if_False option.case Let_def cond)
      qed
    qed
  qed
qed


text \<open>
  \<^verbatim>\<open>ngx_http_arg\<close> finds exactly the first argument with the given name: the name
  compared up to case, at the start of the arguments or after \<^verbatim>\<open>&\<close>, followed by
  \<^verbatim>\<open>=\<close>; the value it returns is the text up to the next \<^verbatim>\<open>&\<close>. It never reads
  outside the arguments, and answers \<^verbatim>\<open>NGX_DECLINED\<close> when there is no such argument.
\<close>

theorem http_arg_finds_first:
  assumes "name \<noteq> []" and "0 \<notin> set name" and "ch_amp \<notin> set name"
  shows "ngx_http_arg args name =
    Some (case find (arg_at args name) [0..<length args] of
            None \<Rightarrow> (NGX_DECLINED, None)
          | Some q \<Rightarrow> (NGX_OK, Some (arg_value args name q)))"
  by (simp add: ngx_http_arg_def http_arg_loop_first [OF assms] split: option.split)

theorem http_arg_finds_first_witness:
  "ngx_http_arg (bytes ''xid=1&ID=42&id=7'') (bytes ''id'') =
    Some (case find (arg_at (bytes ''xid=1&ID=42&id=7'') (bytes ''id'')) [0..<length (bytes ''xid=1&ID=42&id=7'')] of
            None \<Rightarrow> (NGX_DECLINED, None)
          | Some q \<Rightarrow> (NGX_OK, Some (arg_value (bytes ''xid=1&ID=42&id=7'') (bytes ''id'') q)))
   \<and> find (arg_at (bytes ''xid=1&ID=42&id=7'') (bytes ''id'')) [0..<16] = Some 6"
proof
  show "ngx_http_arg (bytes ''xid=1&ID=42&id=7'') (bytes ''id'') =
    Some (case find (arg_at (bytes ''xid=1&ID=42&id=7'') (bytes ''id'')) [0..<length (bytes ''xid=1&ID=42&id=7'')] of
            None \<Rightarrow> (NGX_DECLINED, None)
          | Some q \<Rightarrow> (NGX_OK, Some (arg_value (bytes ''xid=1&ID=42&id=7'') (bytes ''id'') q)))"
    by (rule http_arg_finds_first) (simp_all add: bytes_def)
  show "find (arg_at (bytes ''xid=1&ID=42&id=7'') (bytes ''id'')) [0..<16] = Some 6" by code_simp
qed

end
