(* ===== verification/Ngx_Encode.thy ===== *)
theory Ngx_Encode
  imports Ngx_Format
begin

text \<open>
  The encodings of \<^verbatim>\<open>src/core/ngx_string.c\<close>: hexadecimal dumps, base64 with its two
  alphabets, the escaping of URIs and HTML, and the unescaping of URIs. A routine that is
  called first with \<^verbatim>\<open>dst == NULL\<close> to size its output takes an \<open>option\<close> for
  \<^verbatim>\<open>dst\<close>. Unescaping is done in place by its callers, so its model works on one memory
  that holds both the source and the destination.
\<close>

section \<open>Definitions\<close>

text \<open>\<^verbatim>\<open>ngx_hex_dump\<close>.\<close>

fun ngx_hex_dump :: "ngx_str \<Rightarrow> ngx_str \<Rightarrow> ngx_str" where
  "ngx_hex_dump dst [] = dst"
| "ngx_hex_dump dst (c # src) =
     ngx_hex_dump (dst @ [hex_lower ! unat (drop_bit 4 c), hex_lower ! unat (c AND 0xf)]) src"


definition ngx_base64_decoded_length :: "nat \<Rightarrow> nat" where
  "ngx_base64_decoded_length len = ((len + 3) div 4) * 3"




definition decode_basis64 :: "u_char list" where
  "decode_basis64 = [
    77, 77, 77, 77, 77, 77, 77, 77, 77, 77, 77, 77, 77, 77, 77, 77,
    77, 77, 77, 77, 77, 77, 77, 77, 77, 77, 77, 77, 77, 77, 77, 77,
    77, 77, 77, 77, 77, 77, 77, 77, 77, 77, 77, 62, 77, 77, 77, 63,
    52, 53, 54, 55, 56, 57, 58, 59, 60, 61, 77, 77, 77, 77, 77, 77,
    77,  0,  1,  2,  3,  4,  5,  6,  7,  8,  9, 10, 11, 12, 13, 14,
    15, 16, 17, 18, 19, 20, 21, 22, 23, 24, 25, 77, 77, 77, 77, 77,
    77, 26, 27, 28, 29, 30, 31, 32, 33, 34, 35, 36, 37, 38, 39, 40,
    41, 42, 43, 44, 45, 46, 47, 48, 49, 50, 51, 77, 77, 77, 77, 77,
    77, 77, 77, 77, 77, 77, 77, 77, 77, 77, 77, 77, 77, 77, 77, 77,
    77, 77, 77, 77, 77, 77, 77, 77, 77, 77, 77, 77, 77, 77, 77, 77,
    77, 77, 77, 77, 77, 77, 77, 77, 77, 77, 77, 77, 77, 77, 77, 77,
    77, 77, 77, 77, 77, 77, 77, 77, 77, 77, 77, 77, 77, 77, 77, 77,
    77, 77, 77, 77, 77, 77, 77, 77, 77, 77, 77, 77, 77, 77, 77, 77,
    77, 77, 77, 77, 77, 77, 77, 77, 77, 77, 77, 77, 77, 77, 77, 77,
    77, 77, 77, 77, 77, 77, 77, 77, 77, 77, 77, 77, 77, 77, 77, 77,
    77, 77, 77, 77, 77, 77, 77, 77, 77, 77, 77, 77, 77, 77, 77, 77]"


text \<open>The first loop: the length up to the padding, \<open>None\<close> on a byte outside the alphabet.\<close>

fun decode_base64_len :: "u_char list \<Rightarrow> nat \<Rightarrow> ngx_str \<Rightarrow> nat option" where
  "decode_base64_len basis len [] = Some len"
| "decode_base64_len basis len (c # src) =
     (if c = ch_eq then Some len
      else if basis ! unat c = 77 then None
      else decode_base64_len basis (Suc len) src)"

fun decode_base64_loop :: "u_char list \<Rightarrow> ngx_str \<Rightarrow> ngx_str \<Rightarrow> ngx_str" where
  "decode_base64_loop basis d (s0 # s1 # s2 # s3 # s) =
     decode_base64_loop basis
       (d @ [push_bit 2 (basis ! unat s0) OR drop_bit 4 (basis ! unat s1),
             push_bit 4 (basis ! unat s1) OR drop_bit 2 (basis ! unat s2),
             push_bit 6 (basis ! unat s2) OR (basis ! unat s3)]) s"
| "decode_base64_loop basis d s =
     (let d1 = (if length s > 1
                then d @ [push_bit 2 (basis ! unat (s ! 0)) OR drop_bit 4 (basis ! unat (s ! 1))] else d)
      in if length s > 2
         then d1 @ [push_bit 4 (basis ! unat (s ! 1)) OR drop_bit 2 (basis ! unat (s ! 2))] else d1)"

definition ngx_decode_base64_internal :: "u_char list \<Rightarrow> ngx_str \<Rightarrow> ngx_int \<times> ngx_str option" where
  "ngx_decode_base64_internal basis src =
     (case decode_base64_len basis 0 src of
        None \<Rightarrow> (NGX_ERROR, None)
      | Some len \<Rightarrow>
          if len mod 4 = 1 then (NGX_ERROR, None)
          else (NGX_OK, Some (decode_base64_loop basis [] (take len src))))"

definition ngx_decode_base64 :: "ngx_str \<Rightarrow> ngx_int \<times> ngx_str option" where
  "ngx_decode_base64 src = ngx_decode_base64_internal decode_basis64 src"


section \<open>Base64\<close>








lemma quad_induct [case_names Nil one two three four]:
  "P [] \<Longrightarrow> (\<And>a. P [a]) \<Longrightarrow> (\<And>a b. P [a, b]) \<Longrightarrow> (\<And>a b c. P [a, b, c])
   \<Longrightarrow> (\<And>a b c d s. P s \<Longrightarrow> P (a # b # c # d # s)) \<Longrightarrow> P s"
  by induction_schema (pat_completeness, lexicographic_order)


lemma decode_base64_acc: "decode_base64_loop b d s = d @ decode_base64_loop b [] s"
proof (induction s arbitrary: d rule: quad_induct)
  case (four s0 s1 s2 s3 s)
  show ?case unfolding decode_base64_loop.simps four [of "d @ _"] four [of "[] @ _"] by simp
qed simp_all

lemma decode_base64_len_conv:
  "decode_base64_len b n src =
     (if \<exists>c\<in>set (takeWhile (\<lambda>c. c \<noteq> ch_eq) src). b ! unat c = 77 then None
      else Some (n + length (takeWhile (\<lambda>c. c \<noteq> ch_eq) src)))"
  by (induction b n src rule: decode_base64_len.induct) auto

lemma decode_base64_conv:
  "ngx_decode_base64_internal b src =
     (let s = takeWhile (\<lambda>c. c \<noteq> ch_eq) src
      in if (\<exists>c\<in>set s. b ! unat c = 77) \<or> length s mod 4 = 1 then (NGX_ERROR, None)
         else (NGX_OK, Some (decode_base64_loop b [] s)))"
  by (simp add: ngx_decode_base64_internal_def decode_base64_len_conv Let_def
      takeWhile_eq_take [symmetric])


lemma decode_base64_loop_length: "length (decode_base64_loop b [] s) = length s div 4 * 3 + (length s mod 4 - 1)"
proof (induction s rule: quad_induct)
  case (four s0 s1 s2 s3 s)
  then show ?case
    unfolding decode_base64_loop.simps decode_base64_acc [of _ "[] @ _"] by simp presburger
qed simp_all






definition b64_letter :: "u_char \<Rightarrow> bool" where
  "b64_letter c \<longleftrightarrow> ch_A \<le> c \<and> c \<le> ch_Z \<or> ch_a \<le> c \<and> c \<le> ch_z \<or> ch_0 \<le> c \<and> c \<le> ch_9
     \<or> c = ch_plus \<or> c = ch_slash"

lemma decode_basis64_letters: "map (\<lambda>t. t \<noteq> 77) decode_basis64 = map (\<lambda>i. b64_letter (word_of_int i)) [0..255]"
  by code_simp

lemma decode_basis64_length: "length decode_basis64 = 256"
  by code_simp

lemma decode_basis64_alphabet: "(decode_basis64 ! unat c = 77) = (\<not> b64_letter c)"
proof -
  have "map (\<lambda>t. t \<noteq> 77) decode_basis64 ! unat c = map (\<lambda>i. b64_letter (word_of_int i)) [0..255] ! unat c"
    by (simp only: decode_basis64_letters)
  moreover have "[0..255 :: int] ! unat c = uint c" "unat c < length [0..255 :: int]"
    using nth_upto [of 0 "unat c" 255] unat_byte_less [of c] by (simp_all only: length_upto) auto
  ultimately show ?thesis
    by (simp only: nth_map decode_basis64_length unat_byte_less word_of_int_uint) blast
qed


text \<open>
  Decoding base64 is total on arbitrary input: what counts are the bytes before the first
  padding character. It fails exactly when one of them is outside the alphabet or when
  they leave a group of one letter; otherwise it returns three bytes for every four
  letters and one less than the letters of an incomplete group, which fits the length
  \<^verbatim>\<open>ngx_base64_decoded_length\<close> announces for the whole input.
\<close>

theorem base64_decode_total:
  "let u = takeWhile (\<lambda>c. c \<noteq> ch_eq) src
   in if (\<exists>c. c \<in> set u \<and> \<not> b64_letter c) \<or> length u mod 4 = 1
      then ngx_decode_base64 src = (NGX_ERROR, None)
      else \<exists>out. ngx_decode_base64 src = (NGX_OK, Some out)
             \<and> length out = length u div 4 * 3 + (length u mod 4 - 1)
             \<and> length out \<le> ngx_base64_decoded_length (length src)"
proof -
  have alpha: "(decode_basis64 ! unat c = 77) = (\<not> b64_letter c)" for c
    by (rule decode_basis64_alphabet)
  define u where "u = takeWhile (\<lambda>c. c \<noteq> ch_eq) src"
  have "length u \<le> length src" unfolding u_def by (rule length_takeWhile_le)
  then have "(length u + 3) div 4 * 3 \<le> (length src + 3) div 4 * 3"
    by (intro mult_right_mono div_le_mono) auto
  moreover have "n div 4 * 3 + (n mod 4 - 1) \<le> (n + 3) div 4 * 3" for n :: nat
  proof -
    define q r where "q = n div 4" and "r = n mod 4"
    then have n: "n = 4 * q + r" "r < 4" by simp_all
    then have "q + (if r = 0 then 0 else 1) \<le> (n + 3) div 4" by (simp add: less_eq_div_iff_mult_less_eq)
    then show ?thesis unfolding q_def [symmetric] r_def [symmetric] using n(2) by (auto split: if_splits)
  qed
  ultimately have "length u div 4 * 3 + (length u mod 4 - 1) \<le> ngx_base64_decoded_length (length src)"
    unfolding ngx_base64_decoded_length_def using order_trans by blast
  then show ?thesis
    unfolding u_def [symmetric] Let_def ngx_decode_base64_def decode_base64_conv
    by (auto simp: alpha decode_base64_loop_length)
qed

end
