(* ===== verification/Ngx_Escape.thy ===== *)
theory Ngx_Escape
  imports Ngx_Format
begin

text \<open>
  The escaping of URIs and HTML and the unescaping of URIs of \<^verbatim>\<open>src/core/ngx_string.c\<close>.
  The escaping routines are called first with \<^verbatim>\<open>dst == NULL\<close> to size their output, so
  they take an \<open>option\<close> for \<^verbatim>\<open>dst\<close> and return the count or the bytes written. The
  callers of \<^verbatim>\<open>ngx_unescape_uri\<close> decode in place, so its model works on one memory that
  holds both the source and the destination.
\<close>

section \<open>Definitions\<close>

definition NGX_UNESCAPE_URI :: ngx_uint where "NGX_UNESCAPE_URI = 1"
definition NGX_UNESCAPE_REDIRECT :: ngx_uint where "NGX_UNESCAPE_REDIRECT = 2"

text \<open>The tables of \<^verbatim>\<open>ngx_escape_uri\<close>, one bit per byte.\<close>

definition escape_uri :: "uint32 list" where
  "escape_uri = [0xffffffff, 0x80000029, 0x00000000, 0x80000000, 0xffffffff, 0xffffffff, 0xffffffff, 0xffffffff]"

definition escape_args :: "uint32 list" where
  "escape_args = [0xffffffff, 0x88000869, 0x00000000, 0x80000000, 0xffffffff, 0xffffffff, 0xffffffff, 0xffffffff]"

definition escape_uri_component :: "uint32 list" where
  "escape_uri_component =
     [0xffffffff, 0xfc009fff, 0x78000001, 0xb8000001, 0xffffffff, 0xffffffff, 0xffffffff, 0xffffffff]"

definition escape_html :: "uint32 list" where
  "escape_html = [0xffffffff, 0x000000ad, 0x00000000, 0x80000000, 0xffffffff, 0xffffffff, 0xffffffff, 0xffffffff]"

definition escape_refresh :: "uint32 list" where
  "escape_refresh = [0xffffffff, 0x00000085, 0x00000000, 0x80000000, 0xffffffff, 0xffffffff, 0xffffffff, 0xffffffff]"

definition escape_memcached :: "uint32 list" where
  "escape_memcached = [0xffffffff, 0x00000021, 0, 0, 0, 0, 0, 0]"

definition escape_map :: "uint32 list list" where
  "escape_map = [escape_uri, escape_args, escape_uri_component, escape_html, escape_refresh,
     escape_memcached, escape_memcached]"

text \<open>\<^verbatim>\<open>escape[*src >> 5] & (1 << (*src & 0x1f))\<close>.\<close>

definition escaped :: "uint32 list \<Rightarrow> u_char \<Rightarrow> bool" where
  "escaped escape c \<longleftrightarrow> escape ! unat (drop_bit 5 c) AND push_bit (unat (c AND 0x1f)) 1 \<noteq> 0"

fun escape_uri_count :: "uint32 list \<Rightarrow> ngx_uint \<Rightarrow> ngx_str \<Rightarrow> ngx_uint" where
  "escape_uri_count escape n [] = n"
| "escape_uri_count escape n (c # src) =
     escape_uri_count escape (if escaped escape c then n + 1 else n) src"

fun escape_uri_loop :: "uint32 list \<Rightarrow> ngx_str \<Rightarrow> ngx_str \<Rightarrow> ngx_str" where
  "escape_uri_loop escape dst [] = dst"
| "escape_uri_loop escape dst (c # src) =
     escape_uri_loop escape
       (if escaped escape c
        then dst @ [ch_percent, hex_lower ! unat (drop_bit 4 c), hex_lower ! unat (c AND 0xf)]
        else dst @ [c]) src"

text \<open>\<open>None\<close>: a type outside the table of tables.\<close>

definition ngx_escape_uri :: "ngx_str option \<Rightarrow> ngx_str \<Rightarrow> nat \<Rightarrow> (ngx_uint + ngx_str) option" where
  "ngx_escape_uri dst src type =
     (case rd escape_map type of
        None \<Rightarrow> None
      | Some escape \<Rightarrow>
          (case dst of
             None \<Rightarrow> Some (Inl (escape_uri_count escape 0 src))
           | Some d \<Rightarrow> Some (Inr (escape_uri_loop escape d src))))"

text \<open>\<^verbatim>\<open>ngx_escape_html\<close>.\<close>

fun escape_html_count :: "ngx_uint \<Rightarrow> ngx_str \<Rightarrow> ngx_uint" where
  "escape_html_count len [] = len"
| "escape_html_count len (c # src) =
     escape_html_count
       (if c = ch_lt then len + 3 else if c = ch_gt then len + 3
        else if c = ch_amp then len + 4 else if c = ch_quot then len + 5 else len) src"

fun escape_html_loop :: "ngx_str \<Rightarrow> ngx_str \<Rightarrow> ngx_str" where
  "escape_html_loop dst [] = dst"
| "escape_html_loop dst (c # src) =
     escape_html_loop
       (if c = ch_lt then dst @ [ch_amp, ch_l, ch_t, ch_semi]
        else if c = ch_gt then dst @ [ch_amp, ch_g, ch_t, ch_semi]
        else if c = ch_amp then dst @ [ch_amp, ch_a, ch_m, ch_p, ch_semi]
        else if c = ch_quot then dst @ [ch_amp, ch_q, ch_u, ch_o, ch_t, ch_semi]
        else dst @ [c]) src"

definition ngx_escape_html :: "ngx_str option \<Rightarrow> ngx_str \<Rightarrow> ngx_uint + ngx_str" where
  "ngx_escape_html dst src =
     (case dst of None \<Rightarrow> Inl (escape_html_count 0 src) | Some d \<Rightarrow> Inr (escape_html_loop d src))"

text \<open>
  \<^verbatim>\<open>ngx_unescape_uri\<close>. The state has the memory, the two pointers as offsets into it, the
  state of the machine and \<^verbatim>\<open>decoded\<close>. A step has already advanced \<^verbatim>\<open>s\<close>. The flag
  tells \<^verbatim>\<open>goto done\<close>. Reading and writing outside the memory is \<open>None\<close>.
\<close>

datatype ue_state = Ue_usual | Ue_quoted | Ue_quoted_second

record ue_vars =
  ue_mem :: ngx_str
  ue_d :: nat
  ue_s :: nat
  ue_state :: ue_state
  ue_decoded :: u_char

definition ue_put :: "u_char \<Rightarrow> ue_vars \<Rightarrow> ue_vars option" where
  "ue_put c v =
     (if ue_d v < length (ue_mem v)
      then Some (v\<lparr>ue_mem := (ue_mem v)[ue_d v := c], ue_d := Suc (ue_d v)\<rparr>) else None)"

text \<open>\<^verbatim>\<open>*d++ = '%'; *d++ = *(s - 2); *d++ = *(s - 1)\<close>, each byte read when it is written.\<close>

definition ue_put_quoted :: "ue_vars \<Rightarrow> ue_vars option" where
  "ue_put_quoted v =
     Option.bind (ue_put ch_percent v) (\<lambda>v1.
     Option.bind (rd (ue_mem v1) (ue_s v1 - 2)) (\<lambda>c1.
     Option.bind (ue_put c1 v1) (\<lambda>v2.
     Option.bind (rd (ue_mem v2) (ue_s v2 - 1)) (\<lambda>c2. ue_put c2 v2))))"

definition ue_flag :: "ngx_uint \<Rightarrow> ngx_uint \<Rightarrow> bool" where
  "ue_flag type m \<longleftrightarrow> type AND m \<noteq> 0"

definition ue_sw_usual :: "ngx_uint \<Rightarrow> u_char \<Rightarrow> ue_vars \<Rightarrow> (bool \<times> ue_vars) option" where
  "ue_sw_usual type ch v =
     (if ch = ch_question \<and> ue_flag type (NGX_UNESCAPE_URI OR NGX_UNESCAPE_REDIRECT)
      then map_option (Pair True) (ue_put ch v)
      else if ch = ch_percent then Some (False, v\<lparr>ue_state := Ue_quoted\<rparr>)
      else map_option (Pair False) (ue_put ch v))"

definition ue_sw_quoted :: "u_char \<Rightarrow> ue_vars \<Rightarrow> (bool \<times> ue_vars) option" where
  "ue_sw_quoted ch v =
     (if ch \<ge> ch_0 \<and> ch \<le> ch_9
      then Some (False, v\<lparr>ue_decoded := ch - ch_0, ue_state := Ue_quoted_second\<rparr>)
      else let c = ch OR 0x20 in
        if c \<ge> ch_a \<and> c \<le> ch_f
        then Some (False, v\<lparr>ue_decoded := c - ch_a + 10, ue_state := Ue_quoted_second\<rparr>)
        else map_option (Pair False) (ue_put ch (v\<lparr>ue_state := Ue_usual\<rparr>)))"

definition ue_sw_quoted_second :: "ngx_uint \<Rightarrow> u_char \<Rightarrow> ue_vars \<Rightarrow> (bool \<times> ue_vars) option" where
  "ue_sw_quoted_second type ch0 v0 =
     (let v = v0\<lparr>ue_state := Ue_usual\<rparr>; c = ch0 OR 0x20 in
      if ch0 \<ge> ch_0 \<and> ch0 \<le> ch_9 then
        (let ch = push_bit 4 (ue_decoded v) + ch0 - ch_0 in
         if ue_flag type NGX_UNESCAPE_REDIRECT then
           (if ch > ch_percent \<and> ch < 0x7f then map_option (Pair False) (ue_put ch v)
            else map_option (Pair False) (ue_put_quoted v))
         else map_option (Pair False) (ue_put ch v))
      else if c \<ge> ch_a \<and> c \<le> ch_f then
        (let ch = push_bit 4 (ue_decoded v) + c - ch_a + 10 in
         if ue_flag type NGX_UNESCAPE_URI then
           (if ch = ch_question then map_option (Pair True) (ue_put ch v)
            else map_option (Pair False) (ue_put ch v))
         else if ue_flag type NGX_UNESCAPE_REDIRECT then
           (if ch = ch_question then map_option (Pair True) (ue_put ch v)
            else if ch > ch_percent \<and> ch < 0x7f then map_option (Pair False) (ue_put ch v)
            else map_option (Pair False) (ue_put_quoted v))
         else map_option (Pair False) (ue_put ch v))
      else Some (False, v))"

definition ue_switch :: "ngx_uint \<Rightarrow> u_char \<Rightarrow> ue_vars \<Rightarrow> (bool \<times> ue_vars) option" where
  "ue_switch type ch v =
     (case ue_state v of
        Ue_usual \<Rightarrow> ue_sw_usual type ch v
      | Ue_quoted \<Rightarrow> ue_sw_quoted ch v
      | Ue_quoted_second \<Rightarrow> ue_sw_quoted_second type ch v)"

fun ue_loop :: "ngx_uint \<Rightarrow> nat \<Rightarrow> ue_vars \<Rightarrow> ue_vars option" where
  "ue_loop type 0 v = Some v"
| "ue_loop type (Suc n) v =
     (case rd (ue_mem v) (ue_s v) of
        None \<Rightarrow> None
      | Some ch \<Rightarrow>
          (case ue_switch type ch (v\<lparr>ue_s := Suc (ue_s v)\<rparr>) of
             None \<Rightarrow> None
           | Some (fin, v') \<Rightarrow> if fin then Some v' else ue_loop type n v'))"

definition ngx_unescape_uri ::
    "ngx_str \<Rightarrow> nat \<Rightarrow> nat \<Rightarrow> nat \<Rightarrow> ngx_uint \<Rightarrow> (ngx_str \<times> nat \<times> nat) option" where
  "ngx_unescape_uri mem dst src n type =
     map_option (\<lambda>v. (ue_mem v, ue_d v, ue_s v))
       (ue_loop type n \<lparr>ue_mem = mem, ue_d = dst, ue_s = src, ue_state = Ue_usual, ue_decoded = 0\<rparr>)"

section \<open>Unescaping in place\<close>

definition hex_value :: "u_char \<Rightarrow> u_char option" where
  "hex_value c =
     (if ch_0 \<le> c \<and> c \<le> ch_9 then Some (c - ch_0)
      else if ch_a \<le> c OR 0x20 \<and> c OR 0x20 \<le> ch_f then Some ((c OR 0x20) - ch_a + 10)
      else None)"

text \<open>
  What unescaping means: the decoded string and the rest that was not read. An escape is
  a percent sign with two hexadecimal digits; a percent sign before anything else is
  dropped. A question mark ends the path when a URI or a redirect is decoded, and a
  redirect keeps the escapes of the characters outside the range it decodes.
\<close>

fun unescape :: "ngx_uint \<Rightarrow> ngx_str \<Rightarrow> ngx_str \<times> ngx_str" where
  "unescape type [] = ([], [])"
| "unescape type (c # s) =
     (if c = ch_question \<and> (ue_flag type NGX_UNESCAPE_URI \<or> ue_flag type NGX_UNESCAPE_REDIRECT) then ([c], s)
      else if c \<noteq> ch_percent then map_prod (Cons c) id (unescape type s)
      else case s of
        [] \<Rightarrow> ([], [])
      | c1 # s1 \<Rightarrow>
          (case hex_value c1 of
             None \<Rightarrow> map_prod (Cons c1) id (unescape type s1)
           | Some h1 \<Rightarrow>
               (case s1 of
                  [] \<Rightarrow> ([], [])
                | c2 # s2 \<Rightarrow>
                    (case hex_value c2 of
                       None \<Rightarrow> unescape type s2
                     | Some h2 \<Rightarrow>
                         let b = 16 * h1 + h2 in
                         if b = ch_question \<and> (ue_flag type NGX_UNESCAPE_URI \<or> ue_flag type NGX_UNESCAPE_REDIRECT)
                         then ([b], s2)
                         else if ue_flag type NGX_UNESCAPE_REDIRECT \<and> \<not> (ch_percent < b \<and> b < 0x7f)
                         then map_prod (append [c, c1, c2]) id (unescape type s2)
                         else map_prod (Cons b) id (unescape type s2)))))"

definition overwrite :: "ngx_str \<Rightarrow> nat \<Rightarrow> ngx_str \<Rightarrow> ngx_str" where
  "overwrite mem d out = take d mem @ out @ drop (d + length out) mem"

lemma overwrite_Nil [simp]: "overwrite mem d [] = mem"
  by (simp add: overwrite_def)

lemma overwrite_Cons: "d < length mem \<Longrightarrow> overwrite (mem[d := c]) (Suc d) out = overwrite mem d (c # out)"
  by (simp add: overwrite_def take_Suc_nth list_update_append drop_update_cancel)

definition src_at :: "ngx_str \<Rightarrow> nat \<Rightarrow> ngx_str \<Rightarrow> bool" where
  "src_at mem s xs \<longleftrightarrow> take (length xs) (drop s mem) = xs \<and> s + length xs \<le> length mem"

lemma src_at_Cons: "src_at mem s (c # xs) \<longleftrightarrow> s < length mem \<and> mem ! s = c \<and> src_at mem (Suc s) xs"
  by (auto simp: src_at_def drop_eq_Cons_nth)

lemma src_at_update: "d < s \<Longrightarrow> src_at (mem[d := c]) s xs = src_at mem s xs"
  by (simp add: src_at_def drop_update_cancel)

lemma src_at_room: "src_at mem s xs \<Longrightarrow> s \<le> length mem"
  by (simp add: src_at_def)

fun ue_at :: "ngx_str \<Rightarrow> nat \<Rightarrow> nat \<Rightarrow> ngx_str \<times> ngx_str \<Rightarrow> ue_vars option \<Rightarrow> bool" where
  "ue_at mem d e (out, rest) res \<longleftrightarrow>
     (\<exists>st dec. res = Some \<lparr>ue_mem = overwrite mem d out, ue_d = d + length out, ue_s = e - length rest,
                        ue_state = st, ue_decoded = dec\<rparr>)"

lemma ue_at_Cons:
  "d < length mem \<Longrightarrow> ue_at (mem[d := c]) (Suc d) e p res \<Longrightarrow> ue_at mem d e (map_prod (Cons c) id p) res"
  by (cases p) (auto simp: overwrite_Cons)

lemma ue_loop_Cons:
  "src_at mem s (c # xs) \<Longrightarrow>
   ue_loop type (length (c # xs)) \<lparr>ue_mem = mem, ue_d = d, ue_s = s, ue_state = st, ue_decoded = dec\<rparr> =
     (case ue_switch type c \<lparr>ue_mem = mem, ue_d = d, ue_s = Suc s, ue_state = st, ue_decoded = dec\<rparr> of
        None \<Rightarrow> None | Some (fin, v') \<Rightarrow> if fin then Some v' else ue_loop type (length xs) v')"
  by (simp add: src_at_Cons)

declare ue_loop.simps(2) [simp del]

lemmas ue_sw = ue_switch_def ue_sw_usual_def ue_sw_quoted_def ue_sw_quoted_second_def ue_put_def

lemma ue_flag_or: "ue_flag t (a OR b) \<longleftrightarrow> ue_flag t a \<or> ue_flag t b"
  by (auto simp: ue_flag_def bit_eq_iff bit_simps)

text \<open>The byte of two hexadecimal digits, computed as the second state does.\<close>

lemma push_bit_4_times: "push_bit 4 (h :: u_char) = 16 * h"
  by (simp add: push_bit_eq_mult)

lemma hex_value_cases:
  "case hex_value c of None \<Rightarrow> True
   | Some h \<Rightarrow> unat h < 16 \<and> (ch_0 \<le> c \<and> c \<le> ch_9 \<longrightarrow> unat h < 10)"
proof -
  have "\<forall>c. case hex_value c of None \<Rightarrow> True
      | Some h \<Rightarrow> unat h < 16 \<and> (ch_0 \<le> c \<and> c \<le> ch_9 \<longrightarrow> unat h < 10)"
    unfolding byte_all by code_simp
  then show ?thesis by blast
qed

lemma hex_pair_value: "unat h1 < 16 \<Longrightarrow> unat h2 < 16 \<Longrightarrow> unat (16 * h1 + h2 :: u_char) = 16 * unat h1 + unat h2"
  by (simp add: unat_word_ariths)

lemma question_is_letter:
  assumes "hex_value c1 = Some h1" "hex_value c2 = Some h2" "ch_0 \<le> c2" "c2 \<le> ch_9"
  shows "16 * h1 + h2 \<noteq> ch_question"
proof
  have "unat h1 < 16" "unat h2 < 10" using assms hex_value_cases [of c1] hex_value_cases [of c2] by auto
  moreover assume "16 * h1 + h2 = ch_question"
  ultimately have "16 * unat h1 + unat h2 = 63" using hex_pair_value [of h1 h2] by simp
  with \<open>unat h2 < 10\<close> show False by presburger
qed

lemma ue_put_quoted_src:
  assumes "src_at mem s (c # c1 # c2 # xs)" "d \<le> s" "c = ch_percent"
  shows "\<exists>mem'. ue_put_quoted \<lparr>ue_mem = mem, ue_d = d, ue_s = s + 3, ue_state = st, ue_decoded = dec\<rparr> =
      Some \<lparr>ue_mem = mem', ue_d = d + 3, ue_s = s + 3, ue_state = st, ue_decoded = dec\<rparr>
    \<and> mem' = mem[d := c, Suc d := c1, Suc (Suc d) := c2]"
  using assms by (simp add: ue_put_quoted_def ue_put_def src_at_Cons nth_list_update numeral_3_eq_3)

lemma ue_sw_quoted_hex:
  "ue_sw_quoted c v =
     (case hex_value c of
        None \<Rightarrow> map_option (Pair False) (ue_put c (v\<lparr>ue_state := Ue_usual\<rparr>))
      | Some h \<Rightarrow> Some (False, v\<lparr>ue_decoded := h, ue_state := Ue_quoted_second\<rparr>))"
  by (simp add: ue_sw_quoted_def hex_value_def Let_def)

lemma ue_sw_second_hex:
  assumes "hex_value c1 = Some (ue_decoded v)"
    and "\<not> (ue_flag type NGX_UNESCAPE_URI \<and> ue_flag type NGX_UNESCAPE_REDIRECT)"
  shows "ue_sw_quoted_second type c2 v =
     (case hex_value c2 of
        None \<Rightarrow> Some (False, v\<lparr>ue_state := Ue_usual\<rparr>)
      | Some h \<Rightarrow>
          let b = 16 * ue_decoded v + h in
          if b = ch_question \<and> (ue_flag type NGX_UNESCAPE_URI \<or> ue_flag type NGX_UNESCAPE_REDIRECT)
          then map_option (Pair True) (ue_put b (v\<lparr>ue_state := Ue_usual\<rparr>))
          else if ue_flag type NGX_UNESCAPE_REDIRECT \<and> \<not> (ch_percent < b \<and> b < 0x7f)
          then map_option (Pair False) (ue_put_quoted (v\<lparr>ue_state := Ue_usual\<rparr>))
          else map_option (Pair False) (ue_put b (v\<lparr>ue_state := Ue_usual\<rparr>)))"
proof (cases "hex_value c2")
  case None
  then show ?thesis by (auto simp: ue_sw_quoted_second_def hex_value_def Let_def split: if_splits)
next
  case (Some h)
  show ?thesis
  proof (cases "ch_0 \<le> c2 \<and> c2 \<le> ch_9")
    case True
    with Some have h: "h = c2 - ch_0" by (simp add: hex_value_def)
    have b: "push_bit 4 (ue_decoded v) + c2 - ch_0 = 16 * ue_decoded v + h"
      unfolding h push_bit_4_times by (simp only: add_diff_eq)
    have "16 * ue_decoded v + h \<noteq> ch_question" using question_is_letter [OF assms(1) Some] True by simp
    with True Some show ?thesis
      by (simp add: ue_sw_quoted_second_def Let_def b)
  next
    case False
    with Some have c: "ch_a \<le> c2 OR 0x20 \<and> c2 OR 0x20 \<le> ch_f" and h: "h = (c2 OR 0x20) - ch_a + 10"
      by (auto simp: hex_value_def split: if_splits)
    have b: "push_bit 4 (ue_decoded v) + (c2 OR 0x20) - ch_a + 10 = 16 * ue_decoded v + h"
      unfolding h push_bit_4_times by (simp add: algebra_simps)
    from False c Some assms(2) show ?thesis
      unfolding ue_sw_quoted_second_def Let_def ue_vars.select_convs ue_vars.update_convs b
      by (auto simp add: b)
  qed
qed

lemma ue_second:
  assumes flags: "\<not> (ue_flag type NGX_UNESCAPE_URI \<and> ue_flag type NGX_UNESCAPE_REDIRECT)"
    and at: "src_at mem s (ch_percent # c1 # c2 # xs)" and d: "d \<le> s" and h1: "hex_value c1 = Some h1"
    and ih: "\<And>mem' d'. src_at mem' (s + 3) xs \<Longrightarrow> d' \<le> s + 3 \<Longrightarrow>
      ue_at mem' d' (s + 3 + length xs) (unescape type xs)
        (ue_loop type (length xs) \<lparr>ue_mem = mem', ue_d = d', ue_s = s + 3, ue_state = Ue_usual, ue_decoded = h1\<rparr>)"
  shows "ue_at mem d (s + 3 + length xs) (unescape type (ch_percent # c1 # c2 # xs))
    (ue_loop type (length (c2 # xs)) \<lparr>ue_mem = mem, ue_d = d, ue_s = Suc (Suc s), ue_state = Ue_quoted_second, ue_decoded = h1\<rparr>)"
proof -
  have room: "d < length mem" "Suc d < length mem" "Suc (Suc d) < length mem"
    and at2: "src_at mem (Suc (Suc s)) (c2 # xs)" and at3: "src_at mem (s + 3) xs"
    using at d by (auto simp: src_at_Cons numeral_3_eq_3)
  have step: "ue_loop type (length (c2 # xs))
      \<lparr>ue_mem = mem, ue_d = d, ue_s = Suc (Suc s), ue_state = Ue_quoted_second, ue_decoded = h1\<rparr> =
    (case hex_value c2 of
       None \<Rightarrow> ue_loop type (length xs) \<lparr>ue_mem = mem, ue_d = d, ue_s = s + 3, ue_state = Ue_usual, ue_decoded = h1\<rparr>
     | Some h \<Rightarrow>
         let b = 16 * h1 + h in
         if b = ch_question \<and> (ue_flag type NGX_UNESCAPE_URI \<or> ue_flag type NGX_UNESCAPE_REDIRECT)
         then Some \<lparr>ue_mem = mem[d := b], ue_d = Suc d, ue_s = s + 3, ue_state = Ue_usual, ue_decoded = h1\<rparr>
         else if ue_flag type NGX_UNESCAPE_REDIRECT \<and> \<not> (ch_percent < b \<and> b < 0x7f)
         then ue_loop type (length xs) \<lparr>ue_mem = mem[d := ch_percent, Suc d := c1, Suc (Suc d) := c2],
                ue_d = d + 3, ue_s = s + 3, ue_state = Ue_usual, ue_decoded = h1\<rparr>
         else ue_loop type (length xs) \<lparr>ue_mem = mem[d := b], ue_d = Suc d, ue_s = s + 3, ue_state = Ue_usual, ue_decoded = h1\<rparr>)"
    using ue_put_quoted_src [OF at d refl, of Ue_usual h1] room
    unfolding ue_loop_Cons [OF at2]
    by (auto simp: ue_switch_def ue_sw_second_hex [of c1, OF _ flags] h1 Let_def ue_put_def numeral_3_eq_3
        split: option.split)
  show ?thesis
  proof (cases "hex_value c2")
    case None
    with ih [OF at3] d h1 show ?thesis unfolding step by simp
  next
    case (Some h2)
    have plain: "ue_at (mem[d := b]) (Suc d) (s + 3 + length xs) (unescape type xs)
      (ue_loop type (length xs) \<lparr>ue_mem = mem[d := b], ue_d = Suc d, ue_s = s + 3, ue_state = Ue_usual, ue_decoded = h1\<rparr>)" for b
      by (rule ih) (use at3 d in \<open>simp_all add: src_at_update\<close>)
    let ?mem = "mem[d := ch_percent, Suc d := c1, Suc (Suc d) := c2]"
    have "ue_at ?mem (d + 3) (s + 3 + length xs) (unescape type xs)
      (ue_loop type (length xs) \<lparr>ue_mem = ?mem, ue_d = d + 3, ue_s = s + 3, ue_state = Ue_usual, ue_decoded = h1\<rparr>)"
      by (rule ih) (use at3 d in \<open>simp_all add: src_at_update\<close>)
    then have kept: "ue_at mem d (s + 3 + length xs) (map_prod (append [ch_percent, c1, c2]) id (unescape type xs))
      (ue_loop type (length xs) \<lparr>ue_mem = ?mem, ue_d = d + 3, ue_s = s + 3, ue_state = Ue_usual, ue_decoded = h1\<rparr>)"
      using room by (cases "unescape type xs") (auto simp: overwrite_Cons [symmetric] numeral_3_eq_3)
    show ?thesis
      using h1 Some ue_at_Cons [OF room(1) plain] kept room(1)
      unfolding step by (auto simp: Let_def overwrite_Cons [symmetric])
  qed
qed

lemma ue_loop_unescape:
  assumes "\<not> (ue_flag type NGX_UNESCAPE_URI \<and> ue_flag type NGX_UNESCAPE_REDIRECT)"
    and "src_at mem s xs" "d \<le> s"
  shows "ue_at mem d (s + length xs) (unescape type xs)
    (ue_loop type (length xs) \<lparr>ue_mem = mem, ue_d = d, ue_s = s, ue_state = Ue_usual, ue_decoded = dec\<rparr>)"
  using assms(2,3)
proof (induction "length xs" arbitrary: xs mem d s dec rule: less_induct)
  case less
  show ?case
  proof (cases xs)
    case (Cons c xs1)
    have at: "s < length mem" "mem ! s = c" "src_at mem (Suc s) xs1"
      using less.prems(1) unfolding Cons src_at_Cons by simp_all
    then have room: "d < length mem" using less.prems(2) by simp
    note step = ue_loop_Cons [OF less.prems(1) [unfolded Cons]] and d = less.prems(2)
    consider (stop) "c = ch_question \<and> (ue_flag type NGX_UNESCAPE_URI \<or> ue_flag type NGX_UNESCAPE_REDIRECT)"
      | (plain) "\<not> (c = ch_question \<and> (ue_flag type NGX_UNESCAPE_URI \<or> ue_flag type NGX_UNESCAPE_REDIRECT))" "c \<noteq> ch_percent"
      | (quoted) "c = ch_percent" by blast
    then show ?thesis
    proof cases
      case stop
      then show ?thesis
        unfolding Cons step by (simp add: ue_sw ue_flag_or room overwrite_Cons [symmetric])
    next
      case plain
      have "ue_at (mem[d := c]) (Suc d) (Suc s + length xs1) (unescape type xs1)
          (ue_loop type (length xs1) \<lparr>ue_mem = mem[d := c], ue_d = Suc d, ue_s = Suc s, ue_state = Ue_usual, ue_decoded = dec\<rparr>)"
        by (rule less.hyps) (use Cons at(3) d in \<open>simp_all add: src_at_update\<close>)
      from ue_at_Cons [OF room this] plain show ?thesis
        unfolding Cons step by (auto simp add: ue_sw ue_flag_or room)
    next
      case quoted
      show ?thesis
      proof (cases xs1)
        case Nil
        then show ?thesis unfolding Cons step using quoted by (simp add: ue_sw)
      next
        case xs1: (Cons c1 xs2)
        have at1: "Suc s < length mem" "src_at mem (Suc (Suc s)) xs2"
          using at(3) unfolding xs1 src_at_Cons by simp_all
        have step1: "ue_loop type (length xs) \<lparr>ue_mem = mem, ue_d = d, ue_s = s, ue_state = Ue_usual, ue_decoded = dec\<rparr> =
            (case hex_value c1 of
               None \<Rightarrow> ue_loop type (length xs2) \<lparr>ue_mem = mem[d := c1], ue_d = Suc d, ue_s = Suc (Suc s),
                          ue_state = Ue_usual, ue_decoded = dec\<rparr>
             | Some h \<Rightarrow> ue_loop type (length xs2) \<lparr>ue_mem = mem, ue_d = d, ue_s = Suc (Suc s),
                          ue_state = Ue_quoted_second, ue_decoded = h\<rparr>)"
          unfolding Cons step using quoted ue_loop_Cons [OF at(3) [unfolded xs1]] room
          by (simp add: ue_switch_def ue_sw_usual_def ue_sw_quoted_hex ue_put_def xs1 split: option.split)
        show ?thesis
        proof (cases "hex_value c1")
          case None
          have "ue_at (mem[d := c1]) (Suc d) (Suc (Suc s) + length xs2) (unescape type xs2)
              (ue_loop type (length xs2) \<lparr>ue_mem = mem[d := c1], ue_d = Suc d, ue_s = Suc (Suc s), ue_state = Ue_usual, ue_decoded = dec\<rparr>)"
            by (rule less.hyps) (use Cons xs1 at1(2) d in \<open>simp_all add: src_at_update\<close>)
          from ue_at_Cons [OF room this] None show ?thesis
            unfolding step1 by (simp add: Cons xs1 quoted)
        next
          case (Some h1)
          show ?thesis
          proof (cases xs2)
            case Nil
            with Some show ?thesis unfolding step1 by (simp add: Cons xs1 quoted)
          next
            case xs2: (Cons c2 xs3)
            have "src_at mem s (ch_percent # c1 # c2 # xs3)"
              using less.prems(1) by (simp add: Cons xs1 xs2 quoted)
            then have "ue_at mem d (s + 3 + length xs3) (unescape type (ch_percent # c1 # c2 # xs3))
                (ue_loop type (length (c2 # xs3)) \<lparr>ue_mem = mem, ue_d = d, ue_s = Suc (Suc s),
                  ue_state = Ue_quoted_second, ue_decoded = h1\<rparr>)"
              by (rule ue_second [OF assms(1) _ d Some]) (rule less.hyps, simp add: Cons xs1 xs2)
            with Some show ?thesis
              unfolding step1 by (simp add: Cons xs1 xs2 quoted numeral_3_eq_3 del: unescape.simps(2))
          qed
        qed
      qed
    qed
  qed simp
qed

lemma unescape_uri_overwrites:
  assumes "\<not> (ue_flag type NGX_UNESCAPE_URI \<and> ue_flag type NGX_UNESCAPE_REDIRECT)"
    and "dst \<le> src" "src + n \<le> length mem" "unescape type (take n (drop src mem)) = (out, rest)"
  shows "ngx_unescape_uri mem dst src n type =
    Some (take dst mem @ out @ drop (dst + length out) mem, dst + length out, src + n - length rest)"
proof -
  have len: "length (take n (drop src mem)) = n" using assms(3) by simp
  then have "src_at mem src (take n (drop src mem))" using assms(3) by (simp add: src_at_def)
  from ue_loop_unescape [OF assms(1) this assms(2), of 0, unfolded len assms(4)] show ?thesis
    by (auto simp: ngx_unescape_uri_def overwrite_def)
qed

text \<open>
  C22. \<^verbatim>\<open>ngx_unescape_uri\<close> may be called in place. With the destination at or before the
  source in the same memory and any of the types its callers pass, it stays inside the
  memory and writes exactly the decoding of the source bytes as they were before the call:
  no byte is overwritten before it has been read, nothing after the decoded bytes and
  nothing before the destination changes, and the source pointer ends after the bytes that
  were consumed.
\<close>

theorem unescape_uri_in_place:
  assumes "\<not> (ue_flag type NGX_UNESCAPE_URI \<and> ue_flag type NGX_UNESCAPE_REDIRECT)"
    and "dst \<le> src" "src + n \<le> length mem" "unescape type (take n (drop src mem)) = (out, rest)"
  shows "ngx_unescape_uri mem dst src n type =
    Some (take dst mem @ out @ drop (dst + length out) mem, dst + length out, src + n - length rest)"
  using assms by (rule unescape_uri_overwrites)

theorem unescape_uri_in_place_witness:
  "ngx_unescape_uri (bytes ''x/%41%2f?y'') 0 1 8 NGX_UNESCAPE_URI = Some (bytes ''/A/?1%2f?y'', 4, 9)"
  (is "_ = Some (?m, _, _)")
proof -
  have u: "unescape NGX_UNESCAPE_URI (take 8 (drop 1 (bytes ''x/%41%2f?y''))) = (bytes ''/A/?'', [])"
    by code_simp
  have f: "\<not> (ue_flag NGX_UNESCAPE_URI NGX_UNESCAPE_URI \<and> ue_flag NGX_UNESCAPE_URI NGX_UNESCAPE_REDIRECT)"
    by code_simp
  have l: "1 + 8 \<le> length (bytes ''x/%41%2f?y'')" by code_simp
  have m: "bytes ''/A/?'' @ drop 4 (bytes ''x/%41%2f?y'') = ?m"
    by code_simp
  have r: "0 + length (bytes ''/A/?'') = 4" "1 + 8 - length ([] :: ngx_str) = 9" by code_simp+
  show ?thesis
    using unescape_uri_in_place [OF f _ l u, of 0] unfolding r by (simp add: m)
qed

section \<open>Escaping\<close>

text \<open>
  The contract of a routine that is called twice, first for the size of its output and then
  to write it: every byte of the source adds \<open>extra c\<close> to the count and \<open>emit c\<close> to the
  output. The sizes agree as long as the counter does not wrap.
\<close>

locale two_pass =
  fixes count :: "ngx_uint \<Rightarrow> ngx_str \<Rightarrow> ngx_uint" and fill :: "ngx_str \<Rightarrow> ngx_str \<Rightarrow> ngx_str"
    and extra :: "u_char \<Rightarrow> nat" and emit :: "u_char \<Rightarrow> ngx_str" and weight most :: nat
  assumes count_Nil: "count n [] = n"
    and count_Cons: "count n (c # src) = count (n + of_nat (extra c)) src"
    and fill_Nil: "fill dst [] = dst"
    and fill_Cons: "fill dst (c # src) = fill (dst @ emit c) src"
    and emit_length: "length (emit c) = Suc (weight * extra c)"
    and extra_bound: "extra c \<le> most"
begin

lemma fill_conv: "fill dst src = dst @ concat (map emit src)"
  by (induction src arbitrary: dst) (simp_all add: fill_Nil fill_Cons)

lemma count_conv: "count n src = n + of_nat (sum_list (map extra src))"
  by (induction src arbitrary: n) (simp_all add: count_Nil count_Cons add.assoc)

lemma extra_sum: "sum_list (map extra src) \<le> most * length src"
  by (induction src) (use extra_bound in \<open>auto intro: add_mono\<close>)

lemma sizes:
  assumes "most * length src < 2 ^ 64"
  shows "length (fill dst src) = length dst + length src + weight * unat (count 0 src)"
proof -
  have "length (concat (map emit src)) = length src + weight * sum_list (map extra src)"
    by (induction src) (simp_all add: emit_length algebra_simps)
  moreover have "unat (count 0 src) = sum_list (map extra src)"
    using extra_sum [of src] assms by (simp add: count_conv unat_of_nat)
  ultimately show ?thesis by (simp add: fill_conv)
qed

end

definition uri_emit :: "uint32 list \<Rightarrow> u_char \<Rightarrow> ngx_str" where
  "uri_emit escape c =
     (if escaped escape c then [ch_percent, hex_lower ! unat (drop_bit 4 c), hex_lower ! unat (c AND 0xf)] else [c])"

definition html_emit :: "u_char \<Rightarrow> ngx_str" where
  "html_emit c =
     (if c = ch_lt then bytes ''&lt;'' else if c = ch_gt then bytes ''&gt;''
      else if c = ch_amp then bytes ''&amp;'' else if c = ch_quot then bytes ''&quot;'' else [c])"

definition html_extra :: "u_char \<Rightarrow> nat" where
  "html_extra c = (if c = ch_lt \<or> c = ch_gt then 3 else if c = ch_amp then 4 else if c = ch_quot then 5 else 0)"

interpretation uri: two_pass "escape_uri_count escape" "escape_uri_loop escape"
    "\<lambda>c. if escaped escape c then 1 else 0" "uri_emit escape" 2 1 for escape
  by unfold_locales (auto simp: uri_emit_def)

interpretation html: two_pass escape_html_count escape_html_loop html_extra html_emit 1 5
  by unfold_locales (auto simp: html_emit_def html_extra_def bytes_def)

lemma hex_lower_length: "length hex_lower = 16"
  by code_simp

lemma escape_map_length: "length escape_map = 7"
  by code_simp

lemma escape_map_cases: "type < 7 \<Longrightarrow> \<exists>escape. escape \<in> set escape_map \<and> rd escape_map type = Some escape"
  using nth_mem [of type escape_map] by (simp add: escape_map_length)

text \<open>Per byte: what is emitted for it needs no escaping but for the percent sign.\<close>

lemma hex_digits_plain: "list_all (\<lambda>escape. list_all (\<lambda>x. \<not> escaped escape x) hex_lower) escape_map"
  by code_simp

lemma hex_index [simp]: "unat (drop_bit 4 c :: u_char) < 16" "unat (c AND 0xf :: u_char) < 16"
proof -
  have "\<forall>c :: u_char. unat (drop_bit 4 c) < 16 \<and> unat (c AND 0xf) < 16" unfolding byte_all by code_simp
  then show "unat (drop_bit 4 c :: u_char) < 16" "unat (c AND 0xf :: u_char) < 16" by blast+
qed

lemma uri_emit_plain:
  assumes "escape \<in> set escape_map" "x \<in> set (uri_emit escape c)"
  shows "x = ch_percent \<or> \<not> escaped escape x"
proof -
  have "i < 16 \<Longrightarrow> \<not> escaped escape (hex_lower ! i)" for i
    using hex_digits_plain assms(1) by (simp add: list_all_iff hex_lower_length)
  then show ?thesis using assms(2) by (auto simp: uri_emit_def split: if_splits)
qed

lemma html_emit_plain: "x \<in> set (html_emit c) \<Longrightarrow> x \<notin> {ch_lt, ch_gt, ch_quot}"
  by (auto simp: html_emit_def bytes_def split: if_splits)

text \<open>
  Sizing and writing agree. For every type in the table, \<^verbatim>\<open>ngx_escape_uri\<close> called with
  \<^verbatim>\<open>NULL\<close> returns the number \<open>n\<close> for which the output has exactly \<^verbatim>\<open>size + 2 * n\<close>
  bytes, the size its callers allocate, and the output has no byte of the escaped class
  but the percent signs; \<^verbatim>\<open>ngx_escape_html\<close> returns the exact number of additional bytes
  and its output has no angle bracket and no quotation mark.
\<close>

theorem escape_two_pass:
  assumes "type < 7" "5 * length src < 2 ^ 64"
  shows "(\<exists>n out escape. ngx_escape_uri None src type = Some (Inl n) \<and> ngx_escape_uri (Some []) src type = Some (Inr out)
      \<and> length out = length src + 2 * unat n
      \<and> rd escape_map type = Some escape \<and> (\<forall>x. x \<in> set out \<longrightarrow> x = ch_percent \<or> \<not> escaped escape x))
    \<and> (\<exists>len out. ngx_escape_html None src = Inl len \<and> ngx_escape_html (Some []) src = Inr out
      \<and> length out = length src + unat len \<and> set out \<inter> {ch_lt, ch_gt, ch_quot} = {})"
proof
  obtain escape where e: "escape \<in> set escape_map" "rd escape_map type = Some escape"
    using escape_map_cases [OF assms(1)] by blast
  have "1 * length src < 2 ^ 64" using assms(2) by simp
  then have "length (escape_uri_loop escape [] src) = length src + 2 * unat (escape_uri_count escape 0 src)"
    using uri.sizes by simp
  moreover have "x = ch_percent \<or> \<not> escaped escape x" if "x \<in> set (escape_uri_loop escape [] src)" for x
    using that uri_emit_plain [OF e(1)] by (auto simp: uri.fill_conv)
  ultimately show "\<exists>n out escape. ngx_escape_uri None src type = Some (Inl n) \<and> ngx_escape_uri (Some []) src type = Some (Inr out)
      \<and> length out = length src + 2 * unat n
      \<and> rd escape_map type = Some escape \<and> (\<forall>x. x \<in> set out \<longrightarrow> x = ch_percent \<or> \<not> escaped escape x)"
    by (simp add: ngx_escape_uri_def e(2))
  have "set (escape_html_loop [] src) \<inter> {ch_lt, ch_gt, ch_quot} = {}"
    using html_emit_plain by (auto simp: html.fill_conv)
  then show "\<exists>len out. ngx_escape_html None src = Inl len \<and> ngx_escape_html (Some []) src = Inr out
      \<and> length out = length src + unat len \<and> set out \<inter> {ch_lt, ch_gt, ch_quot} = {}"
    using html.sizes [OF assms(2)] by (simp add: ngx_escape_html_def)
qed

theorem escape_two_pass_witness:
  "length (bytes ''a%20b'') = length (bytes ''a b'') + 2 * unat (1 :: ngx_uint)
   \<and> length (bytes ''a b'') = length (bytes ''a b'') + unat (0 :: ngx_uint)"
proof -
  have e: "ngx_escape_uri None (bytes ''a b'') 0 = Some (Inl 1)" "ngx_escape_uri (Some []) (bytes ''a b'') 0 = Some (Inr (bytes ''a%20b''))"
    "ngx_escape_html None (bytes ''a b'') = Inl 0" "ngx_escape_html (Some []) (bytes ''a b'') = Inr (bytes ''a b'')"
    by code_simp+
  show ?thesis using escape_two_pass [of 0 "bytes ''a b''"] unfolding e by (auto simp: bytes_def)
qed

text \<open>
  The escapes are read back: for the tables that escape the percent sign, unescaping with
  type 0 inverts escaping.
\<close>

lemma percent_escaped: "map (\<lambda>e. escaped e ch_percent) escape_map = [True, True, True, True, False, True, True]"
  by code_simp

lemma hex_value_lower: "map hex_value hex_lower = map (\<lambda>i. Some (of_nat i)) [0..<16]"
  by code_simp

lemma hex_value_nth: "i < 16 \<Longrightarrow> hex_value (hex_lower ! i) = Some (of_nat i)"
  using arg_cong [OF hex_value_lower, of "\<lambda>xs. xs ! i"]
  by (simp only: nth_map hex_lower_length length_upt nth_upt) simp

lemma hex_pair: "16 * drop_bit 4 c + (c AND 0xf) = (c :: u_char)"
proof -
  have "\<forall>c :: u_char. 16 * drop_bit 4 c + (c AND 0xf) = c" unfolding byte_all by code_simp
  then show ?thesis by blast
qed

lemma ue_flag_0 [simp]: "\<not> ue_flag 0 m"
  by (simp add: ue_flag_def)

lemma unescape_emit:
  assumes "escaped escape ch_percent"
  shows "unescape 0 (uri_emit escape c @ s) = map_prod (Cons c) id (unescape 0 s)"
  using assms by (auto simp: uri_emit_def hex_value_nth hex_pair)

lemma unescape_escape:
  assumes "escaped escape ch_percent"
  shows "unescape 0 (concat (map (uri_emit escape) src)) = (src, [])"
  using unescape_emit [OF assms] by (induction src) simp_all

text \<open>
  C23. Escapes are read back: for every type except the one for redirects in HTML
  (\<^verbatim>\<open>NGX_ESCAPE_REFRESH\<close>), \<^verbatim>\<open>ngx_unescape_uri\<close> with type 0 applied in place to the output
  of \<^verbatim>\<open>ngx_escape_uri\<close> restores the source, whatever its bytes. The table for
  \<^verbatim>\<open>NGX_ESCAPE_REFRESH\<close> does not escape the percent sign, so there it fails.
\<close>

theorem escape_unescape_roundtrip:
  assumes "type < 7" "type \<noteq> 4"
  shows "(\<exists>out rest. ngx_escape_uri (Some []) src type = Some (Inr out)
      \<and> ngx_unescape_uri out 0 0 (length out) 0 = Some (src @ rest, length src, length out))
    \<and> ngx_escape_uri (Some []) (bytes ''%41'') 4 = Some (Inr (bytes ''%41''))
    \<and> ngx_unescape_uri (bytes ''%41'') 0 0 3 0 = Some (bytes ''A41'', 1, 3)"
proof (intro conjI)
  have "type = 0 \<or> type = 1 \<or> type = 2 \<or> type = 3 \<or> type = 5 \<or> type = 6" using assms by linarith
  then have "map (\<lambda>e. escaped e ch_percent) escape_map ! type" unfolding percent_escaped by auto
  then have "escaped (escape_map ! type) ch_percent" using assms(1) by (simp add: escape_map_length)
  from unescape_escape [OF this, of src] show "\<exists>out rest. ngx_escape_uri (Some []) src type = Some (Inr out)
      \<and> ngx_unescape_uri out 0 0 (length out) 0 = Some (src @ rest, length src, length out)"
    using assms(1) unescape_uri_overwrites [of 0 0 0]
    by (simp add: ngx_escape_uri_def escape_map_length uri.fill_conv)
  show "ngx_escape_uri (Some []) (bytes ''%41'') 4 = Some (Inr (bytes ''%41''))" by code_simp
  show "ngx_unescape_uri (bytes ''%41'') 0 0 3 0 = Some (bytes ''A41'', 1, 3)" by code_simp
qed

theorem escape_unescape_roundtrip_witness:
  "\<exists>rest. ngx_unescape_uri (bytes ''a%20%25'') 0 0 (length (bytes ''a%20%25'')) 0 =
     Some (bytes ''a %'' @ rest, length (bytes ''a %''), length (bytes ''a%20%25''))"
proof -
  have "ngx_escape_uri (Some []) (bytes ''a %'') 0 = Some (Inr (bytes ''a%20%25''))" by code_simp
  then show ?thesis using escape_unescape_roundtrip [of 0 "bytes ''a %''"] by simp
qed

end
