(* ===== verification/Ngx_Signed.thy ===== *)
theory Ngx_Signed
  imports Ngx_Prelude "HOL-Library.Signed_Division"
begin

text \<open>
  Signed 64-bit arithmetic: the division of \<^verbatim>\<open>ngx_int_t\<close> values, and the lemmas that reduce
  word arithmetic to that of the integers when no step wraps around.
\<close>

section \<open>Definitions\<close>

text \<open>The division of two \<^verbatim>\<open>ngx_int_t\<close>.\<close>

definition ngx_sdiv :: "ngx_int \<Rightarrow> ngx_int \<Rightarrow> ngx_int" where
  "ngx_sdiv a b = word_of_int (sint a sdiv sint b)"

section \<open>Word arithmetic without wrap-around\<close>

lemma uint_wi: "0 \<le> a \<Longrightarrow> a < 2 ^ 64 \<Longrightarrow> uint (word_of_int a :: 64 word) = a"
  by (simp add: unsigned_of_int take_bit_int_eq_self_iff)

lemma wi_div:
  "0 \<le> a \<Longrightarrow> a < 2 ^ 64 \<Longrightarrow> 0 < b \<Longrightarrow> b < 2 ^ 64 \<Longrightarrow>
   word_of_int a div word_of_int b = (word_of_int (a div b) :: 64 word)"
  by (simp add: word_div_def uint_wi)

lemma wi_mod:
  "0 \<le> a \<Longrightarrow> a < 2 ^ 64 \<Longrightarrow> 0 < b \<Longrightarrow> b < 2 ^ 64 \<Longrightarrow>
   word_of_int a mod word_of_int b = (word_of_int (a mod b) :: 64 word)"
  by (simp add: word_mod_def uint_wi)

lemma sint_wi: "- (2 ^ 63) \<le> a \<Longrightarrow> a < 2 ^ 63 \<Longrightarrow> sint (word_of_int a :: 64 word) = a"
  by (simp add: signed_of_int signed_take_bit_int_eq_self)

lemma wi_sdiv:
  "0 \<le> a \<Longrightarrow> a < 2 ^ 63 \<Longrightarrow> 0 < b \<Longrightarrow> b < 2 ^ 63 \<Longrightarrow>
   ngx_sdiv (word_of_int a) (word_of_int b) = word_of_int (a div b)"
  by (cases "a = 0") (simp_all add: ngx_sdiv_def sint_wi signed_divide_int_def)

lemma wi_sless: "- (2 ^ 63) \<le> a \<Longrightarrow> a < 2 ^ 63 \<Longrightarrow> (word_of_int a <s (0 :: 64 word)) = (a < 0)"
  using sint_wi [of a] by (simp add: word_sless_alt)

lemma wi_sle: "- (2 ^ 63) \<le> a \<Longrightarrow> a < 2 ^ 63 \<Longrightarrow> - (2 ^ 63) \<le> b \<Longrightarrow> b < 2 ^ 63 \<Longrightarrow>
    (word_of_int a \<le>s (word_of_int b :: 64 word)) = (a \<le> b)"
  using sint_wi [of a] sint_wi [of b] by (simp add: word_sle_eq)

lemma ucast_wi: "(ucast (word_of_int a :: 64 word) :: 32 word) = word_of_int a"
  by (rule bit_word_eqI) (simp add: bit_simps)

lemma wi_eq_0: "0 \<le> a \<Longrightarrow> a < 2 ^ 64 \<Longrightarrow> (word_of_int a = (0 :: 64 word)) = (a = 0)"
  using uint_wi [of a] by auto

end
