(* ===== verification/Ngx_Time.thy ===== *)
theory Ngx_Time
  imports Ngx_Format Ngx_Signed
begin

text \<open>
  Calendar time: \<^verbatim>\<open>ngx_gmtime\<close> and the formatters \<^verbatim>\<open>ngx_http_time\<close> and
  \<^verbatim>\<open>ngx_http_cookie_time\<close> of \<^verbatim>\<open>src/core/ngx_times.c\<close>, and the reader
  \<^verbatim>\<open>ngx_http_parse_time\<close> of \<^verbatim>\<open>src/http/ngx_http_parse_time.c\<close>. The arithmetic is that
  of 64-bit words, signed where the C types are; the fields of \<^verbatim>\<open>struct tm\<close> are 32-bit
  words. The reader works on the bytes of its argument only: a read past them is \<open>None\<close>.
\<close>

section \<open>Definitions\<close>

record ngx_tm =
  ngx_tm_sec :: uint32
  ngx_tm_min :: uint32
  ngx_tm_hour :: uint32
  ngx_tm_mday :: uint32
  ngx_tm_mon :: uint32
  ngx_tm_year :: uint32
  ngx_tm_wday :: uint32

definition ngx_gmtime :: "ngx_int \<Rightarrow> ngx_tm" where
  "ngx_gmtime t =
     (let n = t;
          days = n div 86400;
          wday = (4 + days) mod 7;
          n = n mod 86400;
          hour = n div 3600;
          n = n mod 3600;
          min = n div 60;
          sec = n mod 60;
          days = days - (31 + 28) + 719527;
          year = (days + 2) * 400 div (365 * 400 + 100 - 4 + 1);
          yday = days - (365 * year + year div 4 - year div 100 + year div 400);
          (yday, year) =
            (if yday <s 0 then
               (365 + (if year mod 4 = 0 \<and> (year mod 100 \<noteq> 0 \<or> year mod 400 = 0) then 1 else 0) + yday,
                year - 1)
             else (yday, year));
          mon = ngx_sdiv ((yday + 31) * 10) 306;
          mday = yday - (367 * mon div 12 - 30) + 1;
          (year, mon) = (if 306 \<le>s yday then (year + 1, mon - 10) else (year, mon + 2))
      in \<lparr>ngx_tm_sec = ucast sec, ngx_tm_min = ucast min, ngx_tm_hour = ucast hour,
          ngx_tm_mday = ucast mday, ngx_tm_mon = ucast mon, ngx_tm_year = ucast year,
          ngx_tm_wday = ucast wday\<rparr>)"

definition week :: "ngx_str list" where
  "week = map bytes [''Sun'', ''Mon'', ''Tue'', ''Wed'', ''Thu'', ''Fri'', ''Sat'']"

definition months :: "ngx_str list" where
  "months = map bytes [''Jan'', ''Feb'', ''Mar'', ''Apr'', ''May'', ''Jun'',
     ''Jul'', ''Aug'', ''Sep'', ''Oct'', ''Nov'', ''Dec'']"

text \<open>A C string literal is its bytes and a NUL.\<close>

definition cstr :: "ngx_str list \<Rightarrow> uint32 \<Rightarrow> ngx_arg list" where
  "cstr tab i = (case rd tab (unat i) of None \<Rightarrow> [] | Some s \<Rightarrow> [ArgPtr (s @ [0])])"

definition ngx_http_time :: "ngx_int \<Rightarrow> ngx_str option" where
  "ngx_http_time t =
     (let tm = ngx_gmtime t
      in ngx_sprintf (bytes ''%s, %02d %s %4d %02d:%02d:%02d GMT'')
           (cstr week (ngx_tm_wday tm) @ [Arg32 (ngx_tm_mday tm)] @ cstr months (ngx_tm_mon tm - 1)
            @ [Arg32 (ngx_tm_year tm), Arg32 (ngx_tm_hour tm), Arg32 (ngx_tm_min tm), Arg32 (ngx_tm_sec tm)]))"

definition ngx_http_cookie_time :: "ngx_int \<Rightarrow> ngx_str option" where
  "ngx_http_cookie_time t =
     (let tm = ngx_gmtime t; far = 2037 <s ngx_tm_year tm
      in ngx_sprintf (if far then bytes ''%s, %02d-%s-%d %02d:%02d:%02d GMT''
                      else bytes ''%s, %02d-%s-%02d %02d:%02d:%02d GMT'')
           (cstr week (ngx_tm_wday tm) @ [Arg32 (ngx_tm_mday tm)] @ cstr months (ngx_tm_mon tm - 1)
            @ [Arg32 (if far then ngx_tm_year tm
                      else word_of_int (sint (ngx_tm_year tm) smod 100)),
               Arg32 (ngx_tm_hour tm), Arg32 (ngx_tm_min tm), Arg32 (ngx_tm_sec tm)]))"

section \<open>The calendar\<close>

text \<open>The calendar as people state it: the date after a date, from January 1, 1970 on.\<close>

definition leap :: "int \<Rightarrow> bool" where
  "leap y \<longleftrightarrow> y mod 4 = 0 \<and> (y mod 100 \<noteq> 0 \<or> y mod 400 = 0)"

definition month_length :: "bool \<Rightarrow> int \<Rightarrow> int" where
  "month_length l m = (if m = 2 then if l then 29 else 28 else if m \<in> {4, 6, 9, 11} then 30 else 31)"

definition next_date :: "int \<times> int \<times> int \<Rightarrow> int \<times> int \<times> int" where
  "next_date ymd =
     (let (y, m, d) = ymd
      in if d < month_length (leap y) m then (y, m, d + 1)
         else if m < 12 then (y, m + 1, 1) else (y + 1, 1, 1))"

definition date_of :: "nat \<Rightarrow> int \<times> int \<times> int" where
  "date_of n = (next_date ^^ n) (1970, 1, 1)"

text \<open>Days from March 1, 1 BC to March 1 of a year, and the estimate of the year.\<close>

definition march1 :: "int \<Rightarrow> int" where
  "march1 y = 365 * y + y div 4 - y div 100 + y div 400"

definition year_est :: "int \<Rightarrow> int" where
  "year_est d = (d + 2) * 400 div 146097"

lemma int_div_bounds:
  fixes y k :: int
  assumes "0 < k"
  shows "k * (y div k) \<le> y" "y < k * (y div k) + k"
  using assms mult_div_mod_eq [of k y] pos_mod_sign [of k y] pos_mod_bound [of k y] by linarith+

lemma int_div_succ:
  fixes y k :: int
  assumes "0 < k"
  shows "(y + 1) div k = y div k + (if (y + 1) mod k = 0 then 1 else 0)"
proof (cases "(y + 1) mod k = 0")
  case True
  then obtain q where q: "y + 1 = k * q" by (auto elim: dvdE simp: dvd_eq_mod_eq_0 [symmetric])
  then have "y = k * (q - 1) + (k - 1)" by (simp add: algebra_simps)
  then have "y div k = q - 1" using assms by (intro int_div_pos_eq [of y k "q - 1" "k - 1"]) auto
  with q True assms show ?thesis by simp
next
  case False
  have "y mod k + 1 \<noteq> k" using False mod_add_left_eq [of y k 1] by auto
  then have "y mod k + 1 < k" using pos_mod_bound [of k y] assms by linarith
  then have "(y + 1) div k = y div k"
    using assms mult_div_mod_eq [of k y] pos_mod_sign [of k y]
    by (intro int_div_pos_eq [of _ _ _ "(y mod k) + 1"]) auto
  with False show ?thesis by simp
qed

lemma march1_bounds: "146097 * y \<le> 400 * march1 y + 800" "400 * march1 y \<le> 146097 * y + 396"
proof -
  define p q r where "p = y div 4" and "q = y div 100" and "r = y div 400"
  have "4 * p \<le> y" "y < 4 * p + 4" "100 * q \<le> y" "y < 100 * q + 100" "400 * r \<le> y" "y < 400 * r + 400"
    unfolding p_def q_def r_def by (rule int_div_bounds, simp)+
  then have scaled: "100 * y \<le> 400 * p + 300" "400 * p \<le> 100 * y" "400 * q \<le> 4 * y" "4 * y \<le> 400 * q + 396"
    "y \<le> 400 * r + 399" "400 * r \<le> y" by simp_all
  have m: "400 * march1 y = 146000 * y + 400 * p - 400 * q + 400 * r"
    unfolding march1_def p_def q_def r_def by simp
  show "146097 * y \<le> 400 * march1 y + 800" using scaled(1,3,5) m by simp
  show "400 * march1 y \<le> 146097 * y + 396" using scaled(2,4,6) m by simp
qed

lemma march1_aux:
  fixes y p q r :: int
  assumes "b \<Longrightarrow> a" "c \<Longrightarrow> b"
  shows "365 * (y + 1) + (p + (if a then 1 else 0)) - (q + (if b then 1 else 0)) + (r + (if c then 1 else 0)) =
    365 * y + p - q + r + 365 + (if a \<and> (\<not> b \<or> c) then 1 else 0)"
  using assms by (cases a; cases b; cases c) (simp_all add: algebra_simps)

lemma march1_step: "march1 (y + 1) = march1 y + 365 + (if leap (y + 1) then 1 else 0)"
proof -
  define a b c where "a = ((y + 1) mod 4 = 0)" and "b = ((y + 1) mod 100 = 0)" and "c = ((y + 1) mod 400 = 0)"
  have "b \<Longrightarrow> a" "c \<Longrightarrow> b"
    unfolding a_def b_def c_def dvd_eq_mod_eq_0 [symmetric]
    by (erule dvd_trans [rotated], simp)+
  note aux = march1_aux [of b a c y "y div 4" "y div 100" "y div 400", OF this]
  have succ: "(y + 1) div 4 = y div 4 + (if a then 1 else 0)" "(y + 1) div 100 = y div 100 + (if b then 1 else 0)"
    "(y + 1) div 400 = y div 400 + (if c then 1 else 0)"
    unfolding a_def b_def c_def by (rule int_div_succ, simp)+
  show ?thesis
    unfolding march1_def leap_def succ a_def [symmetric] b_def [symmetric] c_def [symmetric] by (rule aux)
qed

lemma year_est_bounds: "146097 * year_est d \<le> 400 * d + 800" "400 * d + 800 < 146097 * year_est d + 146097"
  using int_div_bounds [of 146097 "(d + 2) * 400"] by (simp_all add: year_est_def)

lemma year_est_upper: "d < march1 (year_est d + 1)"
  using year_est_bounds(2) [of d] march1_bounds(1) [of "year_est d + 1"] by simp

lemma year_est_lower: "march1 (year_est d - 1) \<le> d"
  using year_est_bounds(1) [of d] march1_bounds(2) [of "year_est d - 1"] by simp

text \<open>The year that starts on March 1, and the day of that year.\<close>

definition gauss_year :: "int \<Rightarrow> int" where
  "gauss_year d = (if d < march1 (year_est d) then year_est d - 1 else year_est d)"

definition gauss_yday :: "int \<Rightarrow> int" where
  "gauss_yday d = d - march1 (gauss_year d)"

lemma gauss_year_bounds: "march1 (gauss_year d) \<le> d" "d < march1 (gauss_year d + 1)"
  using year_est_upper [of d] year_est_lower [of d] by (auto simp: gauss_year_def)

lemma march1_less: "march1 y < march1 (y + 1)"
  by (simp add: march1_step)

lemma march1_mono: "x \<le> y \<Longrightarrow> march1 x \<le> march1 y"
proof (induction y rule: int_ge_induct)
  case (step y)
  then show ?case using march1_less [of y] by simp
qed simp

lemma gauss_unique: "march1 y \<le> d \<Longrightarrow> d < march1 (y + 1) \<Longrightarrow> gauss_year d = y"
proof (rule antisym)
  assume d: "march1 y \<le> d" "d < march1 (y + 1)"
  show "gauss_year d \<le> y"
  proof (rule ccontr)
    assume "\<not> gauss_year d \<le> y"
    then have "march1 (y + 1) \<le> march1 (gauss_year d)" by (intro march1_mono) simp
    then show False using d gauss_year_bounds [of d] by simp
  qed
  show "y \<le> gauss_year d"
  proof (rule ccontr)
    assume "\<not> y \<le> gauss_year d"
    then have "march1 (gauss_year d + 1) \<le> march1 y" by (intro march1_mono) simp
    then show False using d gauss_year_bounds [of d] by simp
  qed
qed

text \<open>The empirical formulas for the month and the day, checked on every day of a year.\<close>

definition gauss_date :: "int \<Rightarrow> int \<Rightarrow> int \<times> int \<times> int" where
  "gauss_date y yday =
     (let mon = (yday + 31) * 10 div 306; mday = yday - (367 * mon div 12 - 30) + 1
      in if 306 \<le> yday then (y + 1, mon - 10, mday) else (y, mon + 2, mday))"

definition civil :: "int \<Rightarrow> int \<times> int \<times> int" where
  "civil d = gauss_date (gauss_year d) (gauss_yday d)"

definition day_step_ok :: "bool \<Rightarrow> int \<Rightarrow> bool" where
  "day_step_ok l yday =
     (let (j, m, d) = gauss_date 0 yday; (j', m', d') = gauss_date 0 (yday + 1)
      in 1 \<le> m \<and> m \<le> 12 \<and> 1 \<le> d \<and> d \<le> month_length l m \<and> (j = 0 \<and> m \<noteq> 2 \<or> j = 1) \<and>
         (if d < month_length l m then (j', m', d') = (j, m, d + 1)
          else if m < 12 then (j', m', d') = (j, m + 1, 1) else (j', m', d') = (j + 1, 1, 1)))"

lemma days_of_year: "list_all (\<lambda>yday. day_step_ok True yday \<and> (yday < 364 \<longrightarrow> day_step_ok False yday)) [0..364]"
  by code_simp

lemma last_days: "gauss_date 0 364 = (1, 2, 28) \<and> gauss_date 0 365 = (1, 2, 29) \<and> gauss_date 0 0 = (0, 3, 1)"
  by code_simp

lemma gauss_date_shift: "gauss_date y k = (let (j, m, d) = gauss_date 0 k in (y + j, m, d))"
  by (simp add: gauss_date_def Let_def)

lemma day_step:
  assumes "0 \<le> k" "k + 1 < 365 + (if l then 1 else 0)"
  shows "day_step_ok l k"
proof -
  have "k \<in> set [0..364]" using assms by (auto split: if_splits)
  with days_of_year have "day_step_ok True k \<and> (k < 364 \<longrightarrow> day_step_ok False k)"
    unfolding list_all_iff by blast
  then show ?thesis using assms by (cases l) simp_all
qed

lemma gauss_date_next:
  assumes "0 \<le> k" "k + 1 < 365 + (if leap (y + 1) then 1 else 0)"
  shows "gauss_date y (k + 1) = next_date (gauss_date y k)"
proof -
  obtain j m d where e: "gauss_date 0 k = (j, m, d)" by (metis surj_pair)
  obtain j' m' d' where e': "gauss_date 0 (k + 1) = (j', m', d')" by (metis surj_pair)
  have ok: "j = 0 \<and> m \<noteq> 2 \<or> j = 1"
    "if d < month_length (leap (y + 1)) m then (j', m', d') = (j, m, d + 1)
     else if m < 12 then (j', m', d') = (j, m + 1, 1) else (j', m', d') = (j + 1, 1, 1)"
    using day_step [OF assms] by (simp_all add: day_step_ok_def Let_def e e')
  then have "month_length (leap (y + j)) m = month_length (leap (y + 1)) m"
    by (auto simp: month_length_def)
  with ok(2) show ?thesis
    by (simp add: gauss_date_shift [of y] e e' next_date_def split: if_splits)
qed

lemma civil_step: "civil (d + 1) = next_date (civil d)"
proof -
  define y k where "y = gauss_year d" and "k = gauss_yday d"
  have k: "0 \<le> k" "k < 365 + (if leap (y + 1) then 1 else 0)" and d: "d = march1 y + k"
    using gauss_year_bounds [of d] march1_step [of y] by (simp_all add: y_def k_def gauss_yday_def)
  show ?thesis
  proof (cases "k + 1 < 365 + (if leap (y + 1) then 1 else 0)")
    case True
    have "gauss_year (d + 1) = y"
      by (rule gauss_unique) (use k d True march1_step [of y] in simp_all)
    moreover from this have "gauss_yday (d + 1) = k + 1" using d by (simp add: gauss_yday_def)
    ultimately show ?thesis
      using gauss_date_next [OF k(1) True] unfolding civil_def y_def [symmetric] k_def [symmetric] by simp
  next
    case False
    with k have k': "k = 364 + (if leap (y + 1) then 1 else 0)" by simp
    then have d1: "d + 1 = march1 (y + 1)" using d march1_step [of y] by simp
    then have "gauss_year (d + 1) = y + 1"
      by (intro gauss_unique) (use march1_less [of "y + 1"] in simp_all)
    then have "civil (d + 1) = (y + 1, 3, 1)"
      using d1 last_days by (simp add: civil_def gauss_yday_def gauss_date_shift [of "y + 1" 0])
    moreover have "civil d = (y + 1, 2, if leap (y + 1) then 29 else 28)"
      using k' last_days by (simp add: civil_def y_def [symmetric] k_def [symmetric] gauss_date_shift [of y])
    ultimately show ?thesis by (simp add: next_date_def month_length_def)
  qed
qed

lemma civil_date: "civil (719468 + int n) = date_of n"
proof (induction n)
  case 0
  have "gauss_year 719468 = 1969" by (intro gauss_unique) (simp_all add: march1_def)
  then have "civil 719468 = gauss_date 1969 306" by (simp add: civil_def gauss_yday_def march1_def)
  also have "\<dots> = (1970, 1, 1)" by code_simp
  finally show ?case by (simp add: date_of_def)
next
  case (Suc n)
  have "civil (719468 + int (Suc n)) = next_date (civil (719468 + int n))"
    using civil_step [of "719468 + int n"] by (simp add: algebra_simps)
  then show ?case using Suc by (simp add: date_of_def)
qed

section \<open>The date of a time\<close>

text \<open>The bounds that keep every intermediate value in range.\<close>

lemma gmtime_range:
  assumes "719468 \<le> d" "d < 2 ^ 40"
  shows "0 < year_est d" "year_est d < 2 ^ 32" "march1 (year_est d) \<le> d + 366" "0 \<le> march1 (year_est d)"
    "0 \<le> gauss_yday d" "gauss_yday d < 366" "0 < gauss_year d" "gauss_year d < 2 ^ 32 - 1"
proof -
  note e = year_est_bounds [of d] and m = march1_bounds [of "year_est d"]
  show e0: "0 < year_est d" using e(2) assms(1) by simp
  show e1: "year_est d < 2 ^ 32" using e(1) assms(2) by simp
  show "march1 (year_est d) \<le> d + 366" using e(1) m(2) by simp
  show "0 \<le> march1 (year_est d)" using e0 m(1) by simp
  show "0 \<le> gauss_yday d" "gauss_yday d < 366"
    using gauss_year_bounds [of d] march1_step [of "gauss_year d"] by (simp_all add: gauss_yday_def split: if_splits)
  have "1 < year_est d" using e(2) assms(1) by simp
  then show "0 < gauss_year d" by (simp add: gauss_year_def)
  have "year_est d < 2 ^ 32 - 1" using e(1) assms(2) by simp
  then show "gauss_year d < 2 ^ 32 - 1" by (simp add: gauss_year_def)
qed

lemma gmtime_date:
  assumes n: "0 \<le> n" "n < 2 ^ 55"
  shows "ngx_gmtime (word_of_int n) =
    (let (y, m, d) = civil (719468 + n div 86400)
     in \<lparr>ngx_tm_sec = word_of_int (n mod 60), ngx_tm_min = word_of_int (n mod 3600 div 60),
         ngx_tm_hour = word_of_int (n mod 86400 div 3600), ngx_tm_mday = word_of_int d,
         ngx_tm_mon = word_of_int m, ngx_tm_year = word_of_int y,
         ngx_tm_wday = word_of_int ((4 + n div 86400) mod 7)\<rparr>)"
proof -
  define d0 where "d0 = n div 86400"
  define d where "d = 719468 + d0"
  define y0 where "y0 = year_est d"
  define y k where "y = gauss_year d" and "k = gauss_yday d"
  define mon where "mon = (k + 31) * 10 div 306"
  define mday where "mday = k - (367 * mon div 12 - 30) + 1"
  have d0: "0 \<le> d0" "d0 < 2 ^ 39" using n by (auto simp: d0_def)
  have d: "719468 \<le> d" "d < 2 ^ 40" using d0 by (auto simp: d_def)
  note r = gmtime_range [OF d, folded y0_def y_def k_def]
  have mon: "0 \<le> mon" "mon \<le> 12" using r(5,6) by (auto simp: mon_def)
  have e1: "word_of_int n div 86400 = (word_of_int d0 :: 64 word)"
    using wi_div [of n 86400] n by (simp add: d0_def)
  have e2: "word_of_int d0 - (31 + 28) + 719527 = (word_of_int d :: 64 word)"
    by (simp add: d_def)
  have e3: "(word_of_int d + 2) * 400 div (365 * 400 + 100 - 4 + 1) = (word_of_int y0 :: 64 word)"
    using wi_div [of "(d + 2) * 400" 146097] d by (simp add: y0_def year_est_def)
  have y0: "word_of_int y0 div 4 = (word_of_int (y0 div 4) :: 64 word)"
    "word_of_int y0 div 100 = (word_of_int (y0 div 100) :: 64 word)"
    "word_of_int y0 div 400 = (word_of_int (y0 div 400) :: 64 word)"
    "word_of_int y0 mod 4 = (word_of_int (y0 mod 4) :: 64 word)"
    "word_of_int y0 mod 100 = (word_of_int (y0 mod 100) :: 64 word)"
    "word_of_int y0 mod 400 = (word_of_int (y0 mod 400) :: 64 word)"
    using r(1,2) wi_div [of y0 4] wi_div [of y0 100] wi_div [of y0 400]
      wi_mod [of y0 4] wi_mod [of y0 100] wi_mod [of y0 400] by simp_all
  define z where "z = d - march1 y0"
  have e4: "word_of_int d - (365 * word_of_int y0 + word_of_int (y0 div 4) - word_of_int (y0 div 100) + word_of_int (y0 div 400)) =
      (word_of_int z :: 64 word)"
    by (simp add: z_def march1_def)
  have z: "- 366 \<le> z" "z < 2 ^ 40" using r(3,4) d by (simp_all add: z_def)
  have e5: "(word_of_int z <s (0 :: 64 word)) = (z < 0)"
    by (rule wi_sless) (use z in simp_all)
  have e6: "(word_of_int (y0 mod 4) = (0 :: 64 word) \<and> (word_of_int (y0 mod 100) \<noteq> (0 :: 64 word) \<or> word_of_int (y0 mod 400) = (0 :: 64 word)))
      = leap y0"
    using pos_mod_bound [of 4 y0] pos_mod_bound [of 100 y0] pos_mod_bound [of 400 y0]
    by (simp add: leap_def wi_eq_0 pos_mod_sign less_trans)
  have e7: "(if z < 0 then (365 + (if leap y0 then 1 else 0) + word_of_int z, word_of_int y0 - 1)
        else (word_of_int z, word_of_int y0)) = (word_of_int k :: 64 word, word_of_int y :: 64 word)"
  proof (cases "z < 0")
    case True
    then have y: "y = y0 - 1" by (simp add: y_def z_def gauss_year_def y0_def)
    then have "k = 365 + (if leap y0 then 1 else 0) + z"
      using march1_step [of y] by (simp add: k_def gauss_yday_def y_def [symmetric] z_def)
    then show ?thesis using True y by simp
  next
    case False
    then show ?thesis by (simp add: z_def y_def k_def gauss_yday_def gauss_year_def y0_def)
  qed
  have e8: "ngx_sdiv ((word_of_int k + 31) * 10) 306 = word_of_int mon"
    using wi_sdiv [of "(k + 31) * 10" 306] r(5,6) by (simp add: mon_def)
  have e9: "word_of_int k - (367 * word_of_int mon div 12 - 30) + 1 = (word_of_int mday :: 64 word)"
    using wi_div [of "367 * mon" 12] mon by (simp add: mday_def)
  have e10: "(306 \<le>s (word_of_int k :: 64 word)) = (306 \<le> k)"
    using wi_sle [of 306 k] r(5,6) by simp
  have e11: "(4 + word_of_int d0) mod 7 = (word_of_int ((4 + d0) mod 7) :: 64 word)"
    using wi_mod [of "4 + d0" 7] d0 by simp
  have h1: "word_of_int n mod 86400 = (word_of_int (n mod 86400) :: 64 word)"
    using wi_mod [of n 86400] n by simp
  have h2: "word_of_int (n mod 86400) div 3600 = (word_of_int (n mod 86400 div 3600) :: 64 word)"
    using wi_div [of "n mod 86400" 3600] pos_mod_bound [of 86400 n] by simp
  have h3: "word_of_int (n mod 86400) mod 3600 = (word_of_int (n mod 3600) :: 64 word)"
    using wi_mod [of "n mod 86400" 3600] pos_mod_bound [of 86400 n] by (simp add: mod_mod_cancel)
  have h4: "word_of_int (n mod 3600) div 60 = (word_of_int (n mod 3600 div 60) :: 64 word)"
    using wi_div [of "n mod 3600" 60] pos_mod_bound [of 3600 n] by simp
  have h5: "word_of_int (n mod 3600) mod 60 = (word_of_int (n mod 60) :: 64 word)"
    using wi_mod [of "n mod 3600" 60] pos_mod_bound [of 3600 n] by (simp add: mod_mod_cancel)
  have e12: "word_of_int y + 1 = (word_of_int (y + 1) :: 64 word)" "word_of_int mon - 10 = (word_of_int (mon - 10) :: 64 word)"
    "word_of_int mon + 2 = (word_of_int (mon + 2) :: 64 word)" by simp_all
  have "civil (719468 + n div 86400) = (if 306 \<le> k then (y + 1, mon - 10, mday) else (y, mon + 2, mday))"
    by (simp add: civil_def gauss_date_def y_def k_def d_def d0_def mon_def mday_def Let_def)
  then show ?thesis
    unfolding ngx_gmtime_def Let_def e1 e2 e3 y0 e4 e5 e6 e7 prod.case e8 e9 e10 e11 h1 h2 h3 h4 h5 e12
    by (simp add: ucast_wi d0_def del: of_int_add of_int_diff of_int_mult)
qed

lemma civil_range:
  assumes "civil x = (y, m, d)"
  shows "1 \<le> m" "m \<le> 12" "1 \<le> d" "d \<le> month_length (leap y) m" "y = gauss_year x \<or> y = gauss_year x + 1"
proof -
  define k where "k = gauss_yday x"
  have k: "0 \<le> k" "k < 365 + (if leap (gauss_year x + 1) then 1 else 0)"
    using gauss_year_bounds [of x] march1_step [of "gauss_year x"] by (simp_all add: k_def gauss_yday_def)
  obtain j where e: "gauss_date 0 k = (j, m, d)" "y = gauss_year x + j"
    using assms by (auto simp: civil_def k_def [symmetric] gauss_date_shift [of "gauss_year x"] split: prod.splits)
  have "1 \<le> m \<and> m \<le> 12 \<and> 1 \<le> d \<and> d \<le> month_length (leap (gauss_year x + 1)) m \<and> (j = 0 \<and> m \<noteq> 2 \<or> j = 1)"
  proof (cases "k + 1 < 365 + (if leap (gauss_year x + 1) then 1 else 0)")
    case True
    from day_step [OF k(1) this] show ?thesis
      by (simp add: day_step_ok_def e Let_def split: prod.splits)
  next
    case False
    with k have "k = 364 + (if leap (gauss_year x + 1) then 1 else 0)" by simp
    with last_days e show ?thesis by (auto simp: month_length_def split: if_splits)
  qed
  then show "1 \<le> m" "m \<le> 12" "1 \<le> d" "d \<le> month_length (leap y) m" "y = gauss_year x \<or> y = gauss_year x + 1"
    using e(2) by (auto simp: month_length_def)
qed

lemma clock_split:
  fixes n :: int
  shows "n = n div 86400 * 86400 + n mod 86400 div 3600 * 3600 + n mod 3600 div 60 * 60 + n mod 60"
proof -
  have "n = n div 86400 * 86400 + n mod 86400" by simp
  moreover have "n mod 86400 = n mod 86400 div 3600 * 3600 + n mod 86400 mod 3600" by simp
  moreover have "n mod 86400 mod 3600 = n mod 3600" by (rule mod_mod_cancel) simp
  moreover have "n mod 3600 = n mod 3600 div 60 * 60 + n mod 3600 mod 60" by simp
  moreover have "n mod 3600 mod 60 = n mod 60" by (rule mod_mod_cancel) simp
  ultimately have "n = n div 86400 * 86400 + (n mod 86400 div 3600 * 3600 + (n mod 3600 div 60 * 60 + n mod 60))"
    by metis
  then show ?thesis by (simp only: add.assoc)
qed

lemma uint32_wi: "0 \<le> a \<Longrightarrow> a < 2 ^ 32 \<Longrightarrow> uint (word_of_int a :: 32 word) = a"
  by (simp add: unsigned_of_int take_bit_int_eq_self_iff)

lemma sint_nonneg: "0 \<le> sint (t :: 64 word) \<Longrightarrow> word_of_int (sint t) = t \<and> int (nat (sint t)) = sint t"
  by simp

text \<open>
  C19. \<^verbatim>\<open>ngx_gmtime\<close> is right: for every time from the epoch on that the 64-bit arithmetic and
  the year field can hold (up to \<open>2 ^ 55\<close> seconds, a billion years), the date is the one reached
  by stepping the Gregorian calendar a day at a time from January 1, 1970, the week day
  advances from Thursday, and hour, minute and second are the rest of the day.
\<close>

theorem gmtime_correct:
  assumes "0 \<le> sint t" "sint t < 2 ^ 55"
  shows "let tm = ngx_gmtime t; s = nat (sint t)
    in (uint (ngx_tm_year tm), uint (ngx_tm_mon tm), uint (ngx_tm_mday tm)) = date_of (s div 86400)
       \<and> uint (ngx_tm_wday tm) = (4 + int (s div 86400)) mod 7
       \<and> uint (ngx_tm_hour tm) < 24 \<and> uint (ngx_tm_min tm) < 60 \<and> uint (ngx_tm_sec tm) < 60
       \<and> int s = int (s div 86400) * 86400 + uint (ngx_tm_hour tm) * 3600 + uint (ngx_tm_min tm) * 60 + uint (ngx_tm_sec tm)"
proof -
  define n where "n = sint t"
  have t: "t = word_of_int n" by (simp add: n_def)
  have n: "0 \<le> n" "n < 2 ^ 55" using assms by (simp_all add: n_def)
  obtain y m d where c: "civil (719468 + n div 86400) = (y, m, d)" by (metis surj_pair)
  have dd: "719468 \<le> 719468 + n div 86400" "719468 + n div 86400 < 2 ^ 40" using n by auto
  have fields: "0 \<le> m" "m < 2 ^ 32" "0 \<le> d" "d < 2 ^ 32" "0 \<le> y" "y < 2 ^ 32"
    using civil_range [OF c] gmtime_range(7,8) [OF dd] by (auto simp: month_length_def split: if_splits)
  define q h mi se w where "q = n div 86400" and "h = n mod 86400 div 3600" and "mi = n mod 3600 div 60"
    and "se = n mod 60" and "w = (4 + q) mod 7"
  note defs = q_def h_def mi_def se_def w_def
  have g: "ngx_gmtime t = \<lparr>ngx_tm_sec = word_of_int se, ngx_tm_min = word_of_int mi, ngx_tm_hour = word_of_int h,
      ngx_tm_mday = word_of_int d, ngx_tm_mon = word_of_int m, ngx_tm_year = word_of_int y, ngx_tm_wday = word_of_int w\<rparr>"
    unfolding t gmtime_date [OF n] c defs by simp
  have rng: "0 \<le> w" "w < 7" "0 \<le> h" "h < 24" "0 \<le> mi" "mi < 60" "0 \<le> se" "se < 60"
    unfolding defs by auto
  have s: "int (nat n div 86400) = q" "int (nat n) = n" unfolding defs using n(1) by (simp_all add: zdiv_int)
  then have date: "date_of (nat n div 86400) = (y, m, d)"
    using civil_date [of "nat n div 86400"] c by (simp add: defs)
  show ?thesis
    unfolding n_def [symmetric] Let_def g ngx_tm.select_convs date s w_def [symmetric]
    using fields rng clock_split [of n, folded defs] by (simp add: uint32_wi)
qed

theorem gmtime_correct_witness:
  "(uint (ngx_tm_year (ngx_gmtime 951782400)), uint (ngx_tm_mon (ngx_gmtime 951782400)),
    uint (ngx_tm_mday (ngx_gmtime 951782400))) = date_of 11016 \<and> ngx_tm_mday (ngx_gmtime 951782400) = 29"
proof -
  have "sint (951782400 :: ngx_int) = 951782400" by simp
  moreover have "ngx_tm_mday (ngx_gmtime 951782400) = 29" by code_simp
  ultimately show ?thesis using gmtime_correct [of 951782400] by (simp add: Let_def)
qed

end
