(* ===== verification/Ngx_Http_Time.thy ===== *)
theory Ngx_Http_Time
  imports Ngx_Time
begin

text \<open>
  The reader of dates of \<^verbatim>\<open>src/http/ngx_http_parse_time.c\<close>, in the three formats of HTTP, and
  its agreement with the writer \<^verbatim>\<open>ngx_http_time\<close>.
\<close>

section \<open>Definitions\<close>

text \<open>
  \<^verbatim>\<open>ngx_http_parse_time\<close>. A piece of it either reads outside the value (\<open>None\<close>), returns from
  the function (\<open>Some (Inl rc)\<close>) or goes on (\<open>Some (Inr x)\<close>).
\<close>

type_synonym 'a pt = "(ngx_int + 'a) option"

definition pt_bind :: "'a pt \<Rightarrow> ('a \<Rightarrow> 'b pt) \<Rightarrow> 'b pt" where
  "pt_bind m f = (case m of None \<Rightarrow> None | Some (Inl rc) \<Rightarrow> Some (Inl rc) | Some (Inr x) \<Rightarrow> f x)"

definition pt_error :: "'a pt" where
  "pt_error = Some (Inl NGX_ERROR)"

definition pt_return :: "'a \<Rightarrow> 'a pt" where
  "pt_return x = Some (Inr x)"

definition pt_read :: "ngx_str \<Rightarrow> nat \<Rightarrow> u_char pt" where
  "pt_read v p = map_option Inr (rd v p)"

text \<open>\<^verbatim>\<open>if (*p++ != c) return NGX_ERROR\<close>, and a number of exactly \<open>k\<close> digits.\<close>

definition pt_expect :: "u_char \<Rightarrow> ngx_str \<Rightarrow> nat \<Rightarrow> nat pt" where
  "pt_expect c v p = pt_bind (pt_read v p) (\<lambda>x. if x \<noteq> c then pt_error else pt_return (p + 1))"

fun pt_digits :: "nat \<Rightarrow> ngx_uint \<Rightarrow> ngx_str \<Rightarrow> nat \<Rightarrow> ngx_uint pt" where
  "pt_digits 0 acc v p = pt_return acc"
| "pt_digits (Suc k) acc v p =
     pt_bind (pt_read v p) (\<lambda>c.
       if c < ch_0 \<or> c > ch_9 then pt_error
       else pt_digits k (acc * 10 + (ucast c - 0x30)) v (p + 1))"

datatype pt_fmt = Pt_no | Pt_rfc822 | Pt_rfc850 | Pt_isoc

text \<open>The two loops that skip the name of the week day.\<close>

definition pt_skip :: "ngx_str \<Rightarrow> pt_fmt \<times> nat" where
  "pt_skip v =
     (let p = length (takeWhile (\<lambda>c. c \<noteq> ch_comma \<and> c \<noteq> ch_sp) v);
          fmt = (if rd v p = Some ch_sp then Pt_isoc else Pt_no)
      in (fmt, p + 1 + length (takeWhile (\<lambda>c. c = ch_sp) (drop (p + 1) v))))"

text \<open>The day of the two formats of RFC 822 and RFC 850.\<close>

definition pt_day :: "ngx_str \<Rightarrow> nat \<Rightarrow> (pt_fmt \<times> ngx_uint \<times> nat) pt" where
  "pt_day v p =
     pt_bind (pt_digits 2 0 v p) (\<lambda>day.
     pt_bind (pt_read v (p + 2)) (\<lambda>c.
       if c = ch_sp then
         (if length v < p + 2 + 18 then pt_error else pt_return (Pt_rfc822, day, p + 3))
       else if c = ch_minus then pt_return (Pt_rfc850, day, p + 3)
       else pt_error))"

definition pt_month :: "ngx_str \<Rightarrow> nat \<Rightarrow> ngx_int pt" where
  "pt_month v p =
     pt_bind (pt_read v p) (\<lambda>c.
       if c = ch_J then
         pt_bind (pt_read v (p + 1)) (\<lambda>c1.
           if c1 = ch_a then pt_return 0
           else pt_bind (pt_read v (p + 2)) (\<lambda>c2. pt_return (if c2 = ch_n then 5 else 6)))
       else if c = ch_F then pt_return 1
       else if c = ch_M then pt_bind (pt_read v (p + 2)) (\<lambda>c2. pt_return (if c2 = ch_r then 2 else 4))
       else if c = ch_A then pt_bind (pt_read v (p + 1)) (\<lambda>c1. pt_return (if c1 = ch_p then 3 else 7))
       else if c = ch_S then pt_return 8
       else if c = ch_O then pt_return 9
       else if c = ch_N then pt_return 10
       else if c = ch_D then pt_return 11
       else pt_error)"

text \<open>The year of the two formats, and the day of the ISO C format.\<close>

definition pt_year :: "pt_fmt \<Rightarrow> ngx_str \<Rightarrow> nat \<Rightarrow> (ngx_uint \<times> nat) pt" where
  "pt_year fmt v p =
     (if fmt = Pt_rfc822 then pt_bind (pt_digits 4 0 v p) (\<lambda>year. pt_return (year, p + 4))
      else pt_bind (pt_digits 2 0 v p) (\<lambda>year. pt_return (year + (if year < 70 then 2000 else 1900), p + 2)))"

definition pt_isoc_day :: "ngx_str \<Rightarrow> nat \<Rightarrow> (ngx_uint \<times> nat) pt" where
  "pt_isoc_day v p0 =
     pt_bind (pt_read v p0) (\<lambda>c0. let p = (if c0 = ch_sp then p0 + 1 else p0) in
     pt_bind (pt_digits 1 0 v p) (\<lambda>day.
     pt_bind (pt_read v (p + 1)) (\<lambda>c1.
     pt_bind (if c1 \<noteq> ch_sp then pt_bind (pt_digits 1 day v (p + 1)) (\<lambda>day. pt_return (day, p + 2))
              else pt_return (day, p + 1)) (\<lambda>(day, p).
       if length v < p + 14 then pt_error else pt_return (day, p)))))"

text \<open>\<^verbatim>\<open>" hh:mm:ss"\<close>: the three numbers and the position after them.\<close>

definition pt_clock :: "ngx_str \<Rightarrow> nat \<Rightarrow> (ngx_uint \<times> ngx_uint \<times> ngx_uint \<times> nat) pt" where
  "pt_clock v p =
     pt_bind (pt_expect ch_sp v p) (\<lambda>p.
     pt_bind (pt_digits 2 0 v p) (\<lambda>hour.
     pt_bind (pt_expect ch_colon v (p + 2)) (\<lambda>p.
     pt_bind (pt_digits 2 0 v p) (\<lambda>min.
     pt_bind (pt_expect ch_colon v (p + 2)) (\<lambda>p.
     pt_bind (pt_digits 2 0 v p) (\<lambda>sec. pt_return (hour, min, sec, p + 2)))))))"

definition mday :: "ngx_uint list" where
  "mday = [31, 28, 31, 30, 31, 30, 31, 31, 30, 31, 30, 31]"

text \<open>The checks of the fields and Gauss' formula. The month is one of 0 to 11 here.\<close>

definition pt_time :: "ngx_uint \<Rightarrow> ngx_int \<Rightarrow> ngx_uint \<Rightarrow> ngx_uint \<Rightarrow> ngx_uint \<Rightarrow> ngx_uint \<Rightarrow> ngx_int" where
  "pt_time year month day hour mn sec =
     (if hour > 23 \<or> mn > 59 \<or> sec > 59 then NGX_ERROR
      else if (if day = 29 \<and> month = 1
               then year AND 3 \<noteq> 0 \<or> (year mod 100 = 0 \<and> year mod 400 \<noteq> 0)
               else day > mday ! unat month)
      then NGX_ERROR
      else let month = month - 1;
               (month, year) = (if month \<le>s 0 then (month + 12, year - 1) else (month, year))
           in (365 * year + year div 4 - year div 100 + year div 400
               + ngx_sdiv (367 * month) 12 - 30 + day - 1
               - 719527 + 31 + 28) * 86400 + hour * 3600 + mn * 60 + sec)"

text \<open>From the month on, and from the separator after it on.\<close>

definition pt_tail :: "pt_fmt \<Rightarrow> ngx_uint \<Rightarrow> ngx_int \<Rightarrow> ngx_str \<Rightarrow> nat \<Rightarrow> ngx_int pt" where
  "pt_tail fmt day month v p =
     pt_bind (if fmt = Pt_isoc then pt_bind (pt_isoc_day v p) (\<lambda>(day, p). pt_return (day, 0, p))
              else pt_bind (pt_year fmt v p) (\<lambda>(year, p). pt_return (day, year, p))) (\<lambda>(day, year, p).
     pt_bind (pt_clock v p) (\<lambda>(hour, min, sec, p).
     pt_bind (if fmt = Pt_isoc then pt_bind (pt_expect ch_sp v p) (pt_digits 4 0 v)
              else pt_return year) (\<lambda>year.
     pt_return (pt_time year month day hour min sec))))"

definition pt_rest :: "pt_fmt \<Rightarrow> ngx_uint \<Rightarrow> ngx_str \<Rightarrow> nat \<Rightarrow> ngx_int pt" where
  "pt_rest fmt day v p =
     pt_bind (pt_month v p) (\<lambda>month.
     pt_bind (if fmt = Pt_rfc822 then pt_expect ch_sp v (p + 3)
              else if fmt = Pt_rfc850 then pt_expect ch_minus v (p + 3)
              else pt_return (p + 4)) (\<lambda>p. pt_tail fmt day month v p))"

definition ngx_http_parse_time :: "ngx_str \<Rightarrow> ngx_int option" where
  "ngx_http_parse_time v =
     (let (fmt, p) = pt_skip v
      in map_option (case_sum id id)
       (if length v < p + 18 then pt_error
        else pt_bind (if fmt \<noteq> Pt_isoc then pt_day v p else pt_return (Pt_isoc, 0, p))
               (\<lambda>(fmt, day, p). pt_rest fmt day v p)))"

section \<open>Reads stay inside the value\<close>

text \<open>A piece that does not read outside and whose result, if it goes on, satisfies \<open>Q\<close>.\<close>

definition pt_ok :: "('a \<Rightarrow> bool) \<Rightarrow> 'a pt \<Rightarrow> bool" where
  "pt_ok Q m \<longleftrightarrow> m \<noteq> None \<and> (\<forall>x. m = Some (Inr x) \<longrightarrow> Q x)"

lemma pt_ok_bind: "pt_ok Q m \<Longrightarrow> (\<And>x. Q x \<Longrightarrow> pt_ok R (f x)) \<Longrightarrow> pt_ok R (pt_bind m f)"
  by (auto simp: pt_ok_def pt_bind_def split: option.splits sum.splits)

lemma pt_ok_return [intro]: "Q x \<Longrightarrow> pt_ok Q (pt_return x)"
  by (simp add: pt_ok_def pt_return_def)

lemma pt_ok_error [intro]: "pt_ok Q pt_error"
  by (simp add: pt_ok_def pt_error_def)

lemma pt_ok_if: "(c \<Longrightarrow> pt_ok Q a) \<Longrightarrow> (\<not> c \<Longrightarrow> pt_ok Q b) \<Longrightarrow> pt_ok Q (if c then a else b)"
  by simp

declare pt_digits.simps(2) [simp del]

lemma pt_ok_read [intro]: "p < length v \<Longrightarrow> pt_ok (\<lambda>_. True) (pt_read v p)"
  by (simp add: pt_ok_def pt_read_def)

lemma pt_ok_expect [intro]: "p < length v \<Longrightarrow> pt_ok (\<lambda>q. q = p + 1) (pt_expect c v p)"
  unfolding pt_expect_def by (intro pt_ok_bind [OF pt_ok_read] pt_ok_if) auto

lemma pt_ok_digits [intro]: "p + k \<le> length v \<Longrightarrow> pt_ok (\<lambda>_. True) (pt_digits k acc v p)"
proof (induction k arbitrary: acc p)
  case (Suc k)
  show ?case
    unfolding pt_digits.simps
    by (intro pt_ok_bind [OF pt_ok_read] pt_ok_if pt_ok_error Suc.IH) (use Suc.prems in simp_all)
qed auto

lemma pt_ok_month: "p + 2 < length v \<Longrightarrow> pt_ok (\<lambda>_. True) (pt_month v p)"
  unfolding pt_month_def by (intro pt_ok_bind [OF pt_ok_read] pt_ok_return pt_ok_error TrueI pt_ok_if) simp_all

lemma pt_ok_day:
  assumes "p + 18 \<le> length v"
  shows "pt_ok (\<lambda>(fmt, day, q). fmt = Pt_rfc822 \<and> q + 17 \<le> length v \<or> fmt = Pt_rfc850 \<and> q + 15 \<le> length v) (pt_day v p)"
  unfolding pt_day_def
  by (rule pt_ok_bind [OF pt_ok_digits], use assms in simp, rule pt_ok_bind [OF pt_ok_read], use assms in simp)
    (use assms in \<open>auto split: if_split\<close>)

lemma pt_ok_clock: "p + 9 \<le> length v \<Longrightarrow> pt_ok (\<lambda>(h, m, s, q). q = p + 9) (pt_clock v p)"
  unfolding pt_clock_def
  by (intro pt_ok_bind [OF pt_ok_expect] pt_ok_bind [OF pt_ok_digits] pt_ok_return) auto

lemma pt_ok_isoc_day:
  assumes "p + 4 \<le> length v"
  shows "pt_ok (\<lambda>(day, q). q + 14 \<le> length v) (pt_isoc_day v p)"
proof -
  have step: "pt_ok (\<lambda>(day, q). q + 14 \<le> length v)
      (pt_bind (pt_digits 1 0 v q) (\<lambda>day.
       pt_bind (pt_read v (q + 1)) (\<lambda>c1.
       pt_bind (if c1 \<noteq> ch_sp then pt_bind (pt_digits 1 day v (q + 1)) (\<lambda>day. pt_return (day, q + 2))
                else pt_return (day, q + 1)) (\<lambda>(day, p).
         if length v < p + 14 then pt_error else pt_return (day, p)))))" if "q + 3 \<le> length v" for q
  proof (intro pt_ok_bind [OF pt_ok_digits] pt_ok_bind [OF pt_ok_read])
    fix day :: ngx_uint and c1 :: u_char
    have "pt_ok (\<lambda>_. True) (if c1 \<noteq> ch_sp then pt_bind (pt_digits 1 day v (q + 1)) (\<lambda>day. pt_return (day, q + 2))
        else pt_return (day, q + 1))"
      by (intro pt_ok_if pt_ok_bind [OF pt_ok_digits] pt_ok_return TrueI) (use that in simp)
    then show "pt_ok (\<lambda>(day, q). q + 14 \<le> length v)
        (pt_bind (if c1 \<noteq> ch_sp then pt_bind (pt_digits 1 day v (q + 1)) (\<lambda>day. pt_return (day, q + 2))
                  else pt_return (day, q + 1)) (\<lambda>(day, p).
           if length v < p + 14 then pt_error else pt_return (day, p)))"
      by (rule pt_ok_bind) (clarsimp, intro conjI impI pt_ok_error pt_ok_return, simp)
  qed (use that in simp_all)
  show ?thesis
    unfolding pt_isoc_day_def Let_def
    by (rule pt_ok_bind [OF pt_ok_read]; use assms step in simp)
qed

lemma pt_ok_year: "p + 4 \<le> length v \<or> p + 2 \<le> length v \<and> fmt \<noteq> Pt_rfc822 \<Longrightarrow>
    pt_ok (\<lambda>(y, q). q = p + (if fmt = Pt_rfc822 then 4 else 2)) (pt_year fmt v p)"
  unfolding pt_year_def by (intro pt_ok_if pt_ok_bind [OF pt_ok_digits] pt_ok_return) auto

text \<open>How much of the value is left at each point of the three formats.\<close>

definition pt_left :: "pt_fmt \<Rightarrow> nat" where
  "pt_left fmt = (case fmt of Pt_rfc822 \<Rightarrow> 17 | Pt_rfc850 \<Rightarrow> 15 | _ \<Rightarrow> 18)"

lemma pt_ok_tail:
  assumes "p + pt_left fmt \<le> length v + 4" "fmt \<noteq> Pt_no"
  shows "pt_ok (\<lambda>_. True) (pt_tail fmt day month v p)"
proof -
  have "pt_ok (\<lambda>(d, y, q). q + (if fmt = Pt_isoc then 14 else 9) \<le> length v)
      (if fmt = Pt_isoc then pt_bind (pt_isoc_day v p) (\<lambda>(day, p). pt_return (day, 0 :: ngx_uint, p))
       else pt_bind (pt_year fmt v p) (\<lambda>(year, p). pt_return (day, year, p)))"
    using assms by (cases fmt)
      (auto simp: pt_left_def intro!: pt_ok_bind [OF pt_ok_isoc_day] pt_ok_bind [OF pt_ok_year] pt_ok_return)
  then show ?thesis
    unfolding pt_tail_def
    by (rule pt_ok_bind)
      (cases "fmt = Pt_isoc"; auto intro!: pt_ok_bind [OF pt_ok_clock] pt_ok_bind [OF pt_ok_return]
        pt_ok_bind [OF pt_ok_bind [OF pt_ok_expect pt_ok_digits]] pt_ok_return)
qed

lemma pt_ok_rest:
  assumes "p + pt_left fmt \<le> length v" "fmt \<noteq> Pt_no"
  shows "pt_ok (\<lambda>_. True) (pt_rest fmt day v p)"
proof -
  have "pt_ok (\<lambda>q. q = p + 4) (if fmt = Pt_rfc822 then pt_expect ch_sp v (p + 3)
      else if fmt = Pt_rfc850 then pt_expect ch_minus v (p + 3) else pt_return (p + 4))"
    using assms pt_ok_expect [of "p + 3" v] by (cases fmt) (auto simp: pt_left_def add.commute)
  then show ?thesis
    unfolding pt_rest_def
    by (intro pt_ok_bind [OF pt_ok_month] pt_ok_bind [where Q = "\<lambda>q. q = p + 4"] pt_ok_tail)
      (use assms in \<open>auto simp: pt_left_def split: pt_fmt.splits\<close>)
qed

lemma parse_time_total: "\<exists>rc. ngx_http_parse_time v = Some rc"
proof -
  obtain fmt p where sk: "pt_skip v = (fmt, p)" by (metis surj_pair)
  have "pt_ok (\<lambda>_. True) (if length v < p + 18 then pt_error
        else pt_bind (if fmt \<noteq> Pt_isoc then pt_day v p else pt_return (Pt_isoc, 0, p))
               (\<lambda>(fmt, day, p). pt_rest fmt day v p))"
    by (intro pt_ok_if pt_ok_error; cases "fmt = Pt_isoc")
      (auto simp: pt_left_def intro!: pt_ok_bind [OF pt_ok_day] pt_ok_bind [OF pt_ok_return [where Q = "\<lambda>x. x = (Pt_isoc, 0, p)"]] pt_ok_rest)
  then show ?thesis by (auto simp: ngx_http_parse_time_def sk pt_ok_def)
qed

section \<open>Writing a date\<close>

text \<open>The decimal digits of a number with a fixed width.\<close>

definition dig :: "nat \<Rightarrow> u_char" where
  "dig i = of_nat (48 + i)"

lemma base_repr_step: "\<not> n < 10 \<Longrightarrow> base_repr 10 dec_table n = base_repr 10 dec_table (n div 10) @ [dig (n mod 10)]"
  by (subst base_repr.simps) (simp add: dec_table_nth dig_def add.commute)

lemma base_repr_digit: "n < 10 \<Longrightarrow> base_repr 10 dec_table n = [dig n]"
  by (subst base_repr.simps) (simp add: dec_table_nth dig_def add.commute)

lemma two_digits:
  assumes "n < 100"
  shows "replicate (2 - length (base_repr 10 dec_table n)) ch_0 @ base_repr 10 dec_table n = [dig (n div 10), dig (n mod 10)]"
  using assms by (cases "n < 10") (auto simp: base_repr_digit base_repr_step, simp add: dig_def)

lemma four_digits:
  assumes "1000 \<le> n" "n < 10000"
  shows "base_repr 10 dec_table n = [dig (n div 1000), dig (n div 100 mod 10), dig (n div 10 mod 10), dig (n mod 10)]"
  using assms by (simp add: base_repr_digit base_repr_step div_mult2_eq [symmetric])

lemma scast_small: "v < 2 ^ 31 \<Longrightarrow> (scast (of_nat v :: 32 word) :: 64 word) = of_nat v"
  by (simp add: signed_of_nat signed_take_bit_int_eq_self)

lemma conv_d:
  assumes "v < 2 ^ 31" "fs_sign sp" "fs_hex sp = 0"
  shows "fmt_conv None buf sp ch_d (Arg32 (of_nat v) # args) =
    Some (buf @ replicate (unat (fs_width sp) - length (base_repr 10 dec_table v)) (fs_zero sp) @ base_repr 10 dec_table v, args)"
proof -
  have u: "unat (of_nat v :: 64 word) = v" using assms(1) by (simp add: unat_of_nat)
  then have "\<not> (of_nat v :: 64 word) <s 0" using assms(1) by (simp add: sless_zero_iff)
  with u assms show ?thesis
    by (simp add: fmt_conv_def fmt_is_integer_def fmt_integer_def arg32_def scast_small fmt_put_integer_def
        ngx_sprintf_num_def sprintf_digits_repr Let_def)
qed

lemma conv_s:
  assumes "fs_slen sp = - 1" "0 \<notin> set s"
  shows "fmt_conv None buf sp ch_s (ArgPtr (s @ [0]) # args) = Some (buf @ s, args)"
  using assms by (simp add: fmt_conv_def takeWhile_append takeWhile_eq_all_conv [THEN iffD2])

lemma http_time_format:
  assumes "0 \<notin> set wd" "0 \<notin> set mn" "d < 100" "1000 \<le> y" "y < 10000" "h < 100" "mi < 100" "se < 100"
  shows "ngx_sprintf (bytes ''%s, %02d %s %4d %02d:%02d:%02d GMT'')
      [ArgPtr (wd @ [0]), Arg32 (of_nat d), ArgPtr (mn @ [0]), Arg32 (of_nat y), Arg32 (of_nat h), Arg32 (of_nat mi), Arg32 (of_nat se)] =
    Some (wd @ [ch_comma, ch_sp, dig (d div 10), dig (d mod 10), ch_sp] @ mn @
      [ch_sp, dig (y div 1000), dig (y div 100 mod 10), dig (y div 10 mod 10), dig (y mod 10), ch_sp,
       dig (h div 10), dig (h mod 10), ch_colon, dig (mi div 10), dig (mi mod 10), ch_colon,
       dig (se div 10), dig (se mod 10), ch_sp, ch_G, ch_M, ch_T])"
  using assms
  by (simp add: ngx_sprintf_def bytes_def fmt_spec_init_def conv_s conv_d two_digits four_digits)

section \<open>Reading back what was written\<close>

lemma pt_bind_return [simp]: "pt_bind (pt_return x) f = f x"
  by (simp add: pt_bind_def pt_return_def)

lemma pt_read_return [simp]: "p < length v \<Longrightarrow> pt_read v p = pt_return (v ! p)"
  by (simp add: pt_read_def pt_return_def)

lemma dig_facts:
  assumes "i < 10"
  shows "\<not> dig i < ch_0" "\<not> ch_9 < dig i" "ucast (dig i) - 0x30 = (of_nat i :: ngx_uint)" "dig i \<noteq> ch_sp"
proof -
  have u: "unat (dig i) = 48 + i" using assms by (simp add: dig_def unat_of_nat del: of_nat_add)
  then show "\<not> dig i < ch_0" "\<not> ch_9 < dig i" "dig i \<noteq> ch_sp" using assms by (auto simp: word_less_nat_alt)
  have "(ucast (dig i) :: ngx_uint) = of_nat (48 + i)"
    by (rule word_unat_eq_iff [THEN iffD2]) (use u assms in \<open>simp add: unat_of_nat del: of_nat_add\<close>)
  then show "ucast (dig i) - 0x30 = (of_nat i :: ngx_uint)" by simp
qed

lemma pt_digits_dig:
  "i < 10 \<Longrightarrow> p < length v \<Longrightarrow> v ! p = dig i \<Longrightarrow>
   pt_digits (Suc k) acc v p = pt_digits k (acc * 10 + of_nat i) v (p + 1)"
  by (simp add: pt_digits.simps(2) dig_facts)

lemma pt_month_name:
  assumes "m < 12" "months ! m = [a, b, c]" "p + 2 < length v" "v ! p = a" "v ! (p + 1) = b" "v ! (p + 2) = c"
  shows "pt_month v p = pt_return (of_nat m)"
proof -
  have "m = 0 \<or> m = 1 \<or> m = 2 \<or> m = 3 \<or> m = 4 \<or> m = 5 \<or> m = 6 \<or> m = 7 \<or> m = 8 \<or> m = 9 \<or> m = 10 \<or> m = 11"
    using assms(1) by presburger
  then show ?thesis
    using assms(2-) by (elim disjE) (simp_all add: months_def bytes_def pt_month_def)
qed

text \<open>The 29 bytes of a date in the format of RFC 822.\<close>

definition rfc822_text :: "u_char \<Rightarrow> u_char \<Rightarrow> u_char \<Rightarrow> nat \<Rightarrow> u_char \<Rightarrow> u_char \<Rightarrow> u_char \<Rightarrow> nat \<Rightarrow> nat \<Rightarrow> nat \<Rightarrow> nat \<Rightarrow> ngx_str" where
  "rfc822_text a b c d m0 m1 m2 y h mi se =
     [a, b, c, ch_comma, ch_sp, dig (d div 10), dig (d mod 10), ch_sp, m0, m1, m2,
      ch_sp, dig (y div 1000), dig (y div 100 mod 10), dig (y div 10 mod 10), dig (y mod 10), ch_sp,
      dig (h div 10), dig (h mod 10), ch_colon, dig (mi div 10), dig (mi mod 10), ch_colon,
      dig (se div 10), dig (se mod 10), ch_sp, ch_G, ch_M, ch_T]"

lemma pt_skip_rfc822:
  assumes "a \<notin> {ch_comma, ch_sp}" "b \<notin> {ch_comma, ch_sp}" "c \<notin> {ch_comma, ch_sp}" "d < 100"
  shows "pt_skip (rfc822_text a b c d m0 m1 m2 y h mi se) = (Pt_no, 5)"
  using assms dig_facts(4) [of "d div 10"] by (simp add: pt_skip_def rfc822_text_def)

lemma two_digit_value: "n < 100 \<Longrightarrow> of_nat (n div 10) * 10 + of_nat (n mod 10) = (of_nat n :: ngx_uint)"
  using arg_cong [OF div_mult_mod_eq [of n 10], of "of_nat :: nat \<Rightarrow> ngx_uint"]
  by (simp only: of_nat_add of_nat_mult of_nat_numeral)

lemma four_digit_value:
  "((of_nat (n div 1000) * 10 + of_nat (n div 100 mod 10)) * 10 + of_nat (n div 10 mod 10)) * 10 + of_nat (n mod 10) = (of_nat n :: ngx_uint)"
proof -
  have e: "n div 1000 = n div 10 div 10 div 10" "n div 100 = n div 10 div 10" by (simp_all add: div_mult2_eq [symmetric])
  have "((n div 1000 * 10 + n div 100 mod 10) * 10 + n div 10 mod 10) * 10 + n mod 10 = n"
    unfolding e by (simp only: div_mult_mod_eq)
  from arg_cong [OF this, of "of_nat :: nat \<Rightarrow> ngx_uint"] show ?thesis
    by (simp only: of_nat_add of_nat_mult of_nat_numeral)
qed

lemma pt_digits2:
  assumes "n < 100" "p + 1 < length v" "v ! p = dig (n div 10)" "v ! (p + 1) = dig (n mod 10)"
  shows "pt_digits 2 0 v p = pt_return (of_nat n)"
  using assms pt_digits_dig [of "n div 10" p v 1 0] pt_digits_dig [of "n mod 10" "p + 1" v 0 "of_nat (n div 10)"]
  by (simp add: numeral_2_eq_2 two_digit_value)

lemma pt_digits4:
  assumes "n < 10000" "p + 3 < length v" "v ! p = dig (n div 1000)" "v ! (p + 1) = dig (n div 100 mod 10)"
    "v ! (p + 2) = dig (n div 10 mod 10)" "v ! (p + 3) = dig (n mod 10)"
  shows "pt_digits 4 0 v p = pt_return (of_nat n)"
proof -
  have "pt_digits (Suc (Suc (Suc (Suc 0)))) 0 v p =
      pt_return (((of_nat (n div 1000) * 10 + of_nat (n div 100 mod 10)) * 10 + of_nat (n div 10 mod 10)) * 10 + of_nat (n mod 10))"
    using assms pt_digits_dig [of "n div 1000" p v "Suc (Suc (Suc 0))" 0]
      pt_digits_dig [of "n div 100 mod 10" "p + 1" v "Suc (Suc 0)"]
      pt_digits_dig [of "n div 10 mod 10" "p + 2" v "Suc 0"] pt_digits_dig [of "n mod 10" "p + 3" v 0]
    by (simp add: numeral_2_eq_2 numeral_3_eq_3)
  then show ?thesis unfolding four_digit_value by (simp add: eval_nat_numeral)
qed

lemma parse_rfc822:
  assumes wd: "a \<notin> {ch_comma, ch_sp}" "b \<notin> {ch_comma, ch_sp}" "c \<notin> {ch_comma, ch_sp}"
    and mn: "m < 12" "months ! m = [m0, m1, m2]"
    and rng: "d < 100" "y < 10000" "h < 100" "mi < 100" "se < 100"
  shows "ngx_http_parse_time (rfc822_text a b c d m0 m1 m2 y h mi se) =
    Some (pt_time (of_nat y) (of_nat m) (of_nat d) (of_nat h) (of_nat mi) (of_nat se))"
proof -
  define v where "v = rfc822_text a b c d m0 m1 m2 y h mi se"
  note v = v_def rfc822_text_def
  have len: "length v = 29" by (simp add: v)
  have "pt_digits 2 0 v 5 = pt_return (of_nat d)" "v ! 7 = ch_sp"
    using rng by (auto intro!: pt_digits2 simp: v)
  then have day: "pt_day v 5 = pt_return (Pt_rfc822, of_nat d, 8)" by (simp add: pt_day_def len)
  have month: "pt_month v 8 = pt_return (of_nat m)"
    using mn by (rule pt_month_name) (simp_all add: v)
  have sep: "pt_expect ch_sp v 11 = pt_return 12" by (simp add: pt_expect_def v)
  have year: "pt_year Pt_rfc822 v 12 = pt_return (of_nat y, 16)"
    using rng pt_digits4 [of y 12 v] by (simp add: pt_year_def v)
  have "pt_digits 2 0 v 17 = pt_return (of_nat h)" "pt_digits 2 0 v 20 = pt_return (of_nat mi)"
      "pt_digits 2 0 v 23 = pt_return (of_nat se)"
    using rng by (auto intro!: pt_digits2 simp: v)
  moreover have "pt_expect ch_sp v 16 = pt_return 17" "pt_expect ch_colon v 19 = pt_return 20" "pt_expect ch_colon v 22 = pt_return 23"
    by (simp_all add: pt_expect_def v)
  ultimately have clock: "pt_clock v 16 = pt_return (of_nat h, of_nat mi, of_nat se, 25)"
    by (simp add: pt_clock_def)
  have "pt_rest Pt_rfc822 (of_nat d) v 8 =
      pt_return (pt_time (of_nat y) (of_nat m) (of_nat d) (of_nat h) (of_nat mi) (of_nat se))"
    by (simp add: pt_rest_def pt_tail_def month sep year clock)
  then show ?thesis
    using pt_skip_rfc822 [OF wd, of d m0 m1 m2 y h mi se] rng(1)
    by (simp add: ngx_http_parse_time_def v_def [symmetric] len day) (simp add: pt_return_def)
qed

text \<open>Gauss' formula inverts the computation of the date.\<close>

lemma wi_less: "0 \<le> a \<Longrightarrow> a < 2 ^ 64 \<Longrightarrow> 0 \<le> b \<Longrightarrow> b < 2 ^ 64 \<Longrightarrow> (word_of_int a < (word_of_int b :: 64 word)) = (a < b)"
  by (simp only: word_less_def uint_wi)

lemma wi_and_3: "0 \<le> y \<Longrightarrow> y < 2 ^ 64 \<Longrightarrow> (word_of_int y AND 3 = (0 :: 64 word)) = (y mod 4 = 0)"
proof -
  assume y: "0 \<le> y" "y < 2 ^ 64"
  have "(word_of_int y :: 64 word) AND 3 = word_of_int y AND mask 2" by (simp add: mask_numeral)
  also have "\<dots> = word_of_int y mod 4" unfolding take_bit_eq_mask [symmetric] by (simp add: take_bit_eq_mod)
  also have "\<dots> = word_of_int (y mod 4)" using wi_mod [of y 4] y by simp
  finally show ?thesis using wi_eq_0 [of "y mod 4"] by (simp add: pos_mod_bound less_trans [OF pos_mod_bound])
qed

lemma mday_lengths: "mday = map (\<lambda>m. word_of_int (month_length False m)) [1..12]"
  by code_simp

lemma gauss_inverse:
  assumes "civil x = (y, m, d)"
  defines "Y \<equiv> (if m \<le> 2 then y - 1 else y)" and "M \<equiv> (if m \<le> 2 then m + 10 else m - 2)"
  shows "march1 Y + 367 * M div 12 - 30 + d - 1 = x" "1 \<le> M" "M \<le> 12" "Y = gauss_year x"
proof -
  define k where "k = gauss_yday x"
  define mon where "mon = (k + 31) * 10 div 306"
  have k: "0 \<le> k" "k < 366" and x: "x = march1 (gauss_year x) + k"
    using gauss_year_bounds [of x] march1_step [of "gauss_year x"] by (auto simp: k_def gauss_yday_def split: if_splits)
  have mon: "1 \<le> mon" "mon \<le> 12" "306 \<le> k \<Longrightarrow> 11 \<le> mon" "k < 306 \<Longrightarrow> mon \<le> 10"
    using k by (auto simp: mon_def)
  have "(y, m, d) = (if 306 \<le> k then (gauss_year x + 1, mon - 10, k - (367 * mon div 12 - 30) + 1)
      else (gauss_year x, mon + 2, k - (367 * mon div 12 - 30) + 1))"
    unfolding assms(1) [symmetric] by (simp add: civil_def gauss_date_def mon_def k_def Let_def)
  then have "Y = gauss_year x" "M = mon" "d = k - (367 * mon div 12 - 30) + 1"
    using mon by (auto simp: Y_def M_def split: if_splits)
  then show "march1 Y + 367 * M div 12 - 30 + d - 1 = x" "1 \<le> M" "M \<le> 12" "Y = gauss_year x" using x mon by simp_all
qed

lemma mday_nth:
  assumes "1 \<le> m" "m \<le> 12"
  shows "mday ! unat (word_of_int (m - 1) :: ngx_int) = word_of_int (month_length False m)"
proof -
  have i: "unat (word_of_int (m - 1) :: ngx_int) = nat (m - 1)"
    using uint_wi [of "m - 1"] assms by (simp add: unat_eq_nat_uint)
  have n: "[1..12 :: int] ! nat (m - 1) = m" "nat (m - 1) < length [1..12 :: int]"
    using nth_upto [of 1 "nat (m - 1)" 12] assms by (simp_all only: length_upto)
  show ?thesis unfolding mday_lengths i using n by (simp only: nth_map)
qed

lemma pt_time_civil:
  assumes c: "civil x = (y, m, d)" and x: "719468 \<le> x" "x < 2 ^ 40"
    and rng: "0 \<le> h" "h < 24" "0 \<le> mi" "mi < 60" "0 \<le> se" "se < 60"
  shows "pt_time (word_of_int y) (word_of_int (m - 1)) (word_of_int d) (word_of_int h) (word_of_int mi) (word_of_int se) =
    word_of_int ((x - 719468) * 86400 + h * 3600 + mi * 60 + se)"
proof -
  note cr = civil_range [OF c] and gr = gmtime_range(7,8) [OF x] and gi = gauss_inverse [OF c]
  define Y M where "Y = (if m \<le> 2 then y - 1 else y)" and "M = (if m \<le> 2 then m + 10 else m - 2)"
  note gi = gi [folded Y_def M_def]
  have y: "0 < y" "y < 2 ^ 32" using cr(5) gr by auto
  have Y: "0 < Y" "Y < 2 ^ 32" using gi(4) gr by auto
  have d: "d \<le> 31" using cr(4) by (auto simp: month_length_def split: if_splits)
  have clock: "\<not> (23 < (word_of_int h :: 64 word) \<or> 59 < (word_of_int mi :: 64 word) \<or> 59 < (word_of_int se :: 64 word))"
    using wi_less [of 23 h] wi_less [of 59 mi] wi_less [of 59 se] rng by simp
  have date: "\<not> (if word_of_int d = (29 :: 64 word) \<and> word_of_int (m - 1) = (1 :: 64 word)
      then word_of_int y AND 3 \<noteq> (0 :: 64 word) \<or> (word_of_int y mod 100 = (0 :: 64 word) \<and> word_of_int y mod 400 \<noteq> (0 :: 64 word))
      else word_of_int d > mday ! unat (word_of_int (m - 1) :: ngx_int))"
  proof -
    have "(word_of_int d = (29 :: 64 word)) = (d = 29)" "(word_of_int (m - 1) = (1 :: 64 word)) = (m = 2)"
      using uint_wi [of d] uint_wi [of "m - 1"] cr(1-3) d by (auto simp: word_uint_eq_iff)
    moreover have "word_of_int y mod 100 = (word_of_int (y mod 100) :: 64 word)" "word_of_int y mod 400 = (word_of_int (y mod 400) :: 64 word)"
      using wi_mod [of y 100] wi_mod [of y 400] y by simp_all
    moreover have "(word_of_int (y mod 100) = (0 :: 64 word)) = (y mod 100 = 0)" "(word_of_int (y mod 400) = (0 :: 64 word)) = (y mod 400 = 0)"
      using pos_mod_bound [of 100 y] pos_mod_bound [of 400 y] by (auto intro!: wi_eq_0)
    moreover have "(word_of_int y AND 3 = (0 :: 64 word)) = (y mod 4 = 0)" using wi_and_3 [of y] y by simp
    moreover have "(word_of_int (month_length False m) < (word_of_int d :: 64 word)) = (month_length False m < d)"
      using wi_less [of "month_length False m" d] cr(3) d by (simp add: month_length_def)
    moreover have "d = 29 \<and> m = 2 \<Longrightarrow> leap y" "\<not> (d = 29 \<and> m = 2) \<Longrightarrow> d \<le> month_length False m"
      using cr(4) by (auto simp: month_length_def split: if_splits)
    ultimately show ?thesis
      using mday_nth [OF cr(1,2)] by (auto simp: leap_def)
  qed
  have shift: "(if (word_of_int (m - 1) - 1 :: 64 word) \<le>s 0 then (word_of_int (m - 1) - 1 + 12, word_of_int y - 1)
      else (word_of_int (m - 1) - 1, word_of_int y)) = (word_of_int M :: 64 word, word_of_int Y :: 64 word)"
    using wi_sle [of "m - 2" 0] cr(1,2) by (simp add: M_def Y_def)
  have quot: "ngx_sdiv (367 * word_of_int M) 12 = word_of_int (367 * M div 12)"
    using wi_sdiv [of "367 * M" 12] gi(2,3) by simp
  have Yd: "word_of_int Y div 4 = (word_of_int (Y div 4) :: 64 word)" "word_of_int Y div 100 = (word_of_int (Y div 100) :: 64 word)"
    "word_of_int Y div 400 = (word_of_int (Y div 400) :: 64 word)"
    using wi_div [of Y 4] wi_div [of Y 100] wi_div [of Y 400] Y by simp_all
  have "365 * word_of_int Y + word_of_int (Y div 4) - word_of_int (Y div 100) + word_of_int (Y div 400)
      + word_of_int (367 * M div 12) - 30 + word_of_int d - 1 - 719527 + 31 + 28 =
    (word_of_int (march1 Y + 367 * M div 12 - 30 + d - 1 - 719468) :: 64 word)"
    by (simp add: march1_def)
  then have days: "365 * word_of_int Y + word_of_int (Y div 4) - word_of_int (Y div 100) + word_of_int (Y div 400)
      + word_of_int (367 * M div 12) - 30 + word_of_int d - 1 - 719527 + 31 + 28 = (word_of_int (x - 719468) :: 64 word)"
    unfolding gi(1) .
  show ?thesis
    unfolding pt_time_def Let_def if_not_P [OF clock] if_not_P [OF date] shift prod.case quot Yd days
    by simp
qed

lemma civil_year:
  assumes "civil x = (y, m, d)" "719468 \<le> x" "x < 3652365"
  shows "1000 \<le> y" "y < 10000"
proof -
  have lo: "1969 \<le> gauss_year x"
  proof (rule ccontr)
    assume "\<not> 1969 \<le> gauss_year x"
    then have "march1 (gauss_year x + 1) \<le> march1 1969" by (intro march1_mono) simp
    then show False using gauss_year_bounds(2) [of x] assms(2) by (simp add: march1_def)
  qed
  have hi: "gauss_year x \<le> 9999"
  proof (rule ccontr)
    assume "\<not> gauss_year x \<le> 9999"
    then have "march1 10000 \<le> march1 (gauss_year x)" by (intro march1_mono) simp
    then show False using gauss_year_bounds(1) [of x] assms(3) by (simp add: march1_def)
  qed
  have "gauss_year x < 9999 \<or> gauss_yday x < 306" using hi assms(3) by (auto simp: gauss_yday_def march1_def)
  then show "1000 \<le> y" "y < 10000"
    using assms(1) lo hi by (auto simp: civil_def gauss_date_def Let_def split: if_splits)
qed

lemma week_names:
  "w < 7 \<Longrightarrow> \<exists>a b c. week ! w = [a, b, c] \<and> 0 \<notin> {a, b, c} \<and> {a, b, c} \<inter> {ch_comma, ch_sp} = {}"
proof -
  assume "w < 7"
  then have "w = 0 \<or> w = 1 \<or> w = 2 \<or> w = 3 \<or> w = 4 \<or> w = 5 \<or> w = 6" by presburger
  then show ?thesis by (elim disjE) (simp_all add: week_def bytes_def)
qed

lemma month_names: "m < 12 \<Longrightarrow> \<exists>a b c. months ! m = [a, b, c] \<and> 0 \<notin> {a, b, c}"
proof -
  assume "m < 12"
  then have "m = 0 \<or> m = 1 \<or> m = 2 \<or> m = 3 \<or> m = 4 \<or> m = 5 \<or> m = 6 \<or> m = 7 \<or> m = 8 \<or> m = 9 \<or> m = 10 \<or> m = 11" by presburger
  then show ?thesis by (elim disjE) (simp_all add: months_def bytes_def)
qed

text \<open>\<^verbatim>\<open>ngx_http_time\<close> on fields in range.\<close>

lemma http_time_text:
  assumes g: "ngx_gmtime t = \<lparr>ngx_tm_sec = of_nat se, ngx_tm_min = of_nat mi, ngx_tm_hour = of_nat h,
      ngx_tm_mday = of_nat d, ngx_tm_mon = of_nat (Suc m), ngx_tm_year = of_nat y, ngx_tm_wday = of_nat w\<rparr>"
    and rng: "w < 7" "m < 12" "d < 100" "1000 \<le> y" "y < 10000" "h < 100" "mi < 100" "se < 100"
  shows "\<exists>a b c m0 m1 m2. ngx_http_time t = Some (rfc822_text a b c d m0 m1 m2 y h mi se)
    \<and> a \<notin> {ch_comma, ch_sp} \<and> b \<notin> {ch_comma, ch_sp} \<and> c \<notin> {ch_comma, ch_sp} \<and> months ! m = [m0, m1, m2]"
proof -
  obtain a b c where wd: "week ! w = [a, b, c]" "0 \<notin> {a, b, c}" "{a, b, c} \<inter> {ch_comma, ch_sp} = {}"
    using week_names [OF rng(1)] by blast
  obtain m0 m1 m2 where mn: "months ! m = [m0, m1, m2]" "0 \<notin> {m0, m1, m2}"
    using month_names [OF rng(2)] by blast
  have idx: "unat (of_nat w :: uint32) = w" "unat (of_nat (Suc m) - 1 :: uint32) = m"
    using rng by (simp_all add: unat_of_nat)
  have "length week = 7" "length months = 12" by code_simp+
  then have "ngx_http_time t = Some (rfc822_text a b c d m0 m1 m2 y h mi se)"
    using http_time_format [of "[a, b, c]" "[m0, m1, m2]" d y h mi se] wd mn rng
    by (simp add: ngx_http_time_def g cstr_def idx rfc822_text_def del: of_nat_Suc)
  then show ?thesis using wd(3) mn(1) by blast
qed

text \<open>
  C20. Dates survive the trip to a client and back: for every time from the epoch to the end of
  the year 9999, \<^verbatim>\<open>ngx_http_time\<close> writes 29 bytes from which \<^verbatim>\<open>ngx_http_parse_time\<close> reads
  the same time, so that a \<^verbatim>\<open>Last-Modified\<close> sent back in \<^verbatim>\<open>If-Modified-Since\<close> compares
  equal.
\<close>

theorem http_time_roundtrip:
  assumes "0 \<le> sint t" "sint t < 253402300800"
  shows "\<exists>s. ngx_http_time t = Some s \<and> length s = 29 \<and> ngx_http_parse_time s = Some t"
proof -
  define n where "n = sint t"
  have n: "0 \<le> n" "n < 2 ^ 55" and t: "t = word_of_int n" using assms by (simp_all add: n_def)
  define x h mi se where "x = 719468 + n div 86400" and "h = n mod 86400 div 3600" and "mi = n mod 3600 div 60" and "se = n mod 60"
  have x: "719468 \<le> x" "x < 3652365" "x < 2 ^ 40" using assms by (auto simp: x_def n_def)
  have rng: "0 \<le> h" "h < 24" "0 \<le> mi" "mi < 60" "0 \<le> se" "se < 60"
    unfolding h_def mi_def se_def by auto
  obtain y m d where c: "civil x = (y, m, d)" by (metis surj_pair)
  note cr = civil_range [OF c] and yr = civil_year [OF c x(1,2)]
  have d31: "d \<le> 31" using cr(4) by (auto simp: month_length_def split: if_splits)
  define w where "w = (4 + n div 86400) mod 7"
  have w: "0 \<le> w" "w < 7" unfolding w_def by simp_all
  have "ngx_gmtime t = \<lparr>ngx_tm_sec = of_nat (nat se), ngx_tm_min = of_nat (nat mi), ngx_tm_hour = of_nat (nat h),
      ngx_tm_mday = of_nat (nat d), ngx_tm_mon = of_nat (Suc (nat (m - 1))), ngx_tm_year = of_nat (nat y), ngx_tm_wday = of_nat (nat w)\<rparr>"
    using rng cr(1-3) yr w by (simp add: t gmtime_date [OF n] x_def [symmetric] c h_def [symmetric] mi_def [symmetric] se_def [symmetric] w_def [symmetric])
  note g = this
  have nr: "nat w < 7" "nat (m - 1) < 12" "nat d < 100" "1000 \<le> nat y" "nat y < 10000" "nat h < 100" "nat mi < 100" "nat se < 100"
    using rng cr(1-3) d31 yr w by simp_all
  from http_time_text [OF g nr] obtain a b c' m0 m1 m2
    where tx: "ngx_http_time t = Some (rfc822_text a b c' (nat d) m0 m1 m2 (nat y) (nat h) (nat mi) (nat se))"
      "a \<notin> {ch_comma, ch_sp}" "b \<notin> {ch_comma, ch_sp}" "c' \<notin> {ch_comma, ch_sp}" "months ! nat (m - 1) = [m0, m1, m2]"
    by blast
  have "ngx_http_parse_time (rfc822_text a b c' (nat d) m0 m1 m2 (nat y) (nat h) (nat mi) (nat se)) =
      Some (pt_time (word_of_int y) (word_of_int (m - 1)) (word_of_int d) (word_of_int h) (word_of_int mi) (word_of_int se))"
    using parse_rfc822 [OF tx(2-4) nr(2) tx(5) nr(3,5-8)] rng cr(1-3) yr by simp
  also have "\<dots> = Some t"
    unfolding pt_time_civil [OF c x(1,3) rng] unfolding t x_def h_def mi_def se_def
    by (simp only: add_diff_cancel_left' clock_split [symmetric])
  finally show ?thesis using tx(1) by (simp add: rfc822_text_def)
qed

theorem http_time_roundtrip_witness:
  "\<exists>s. ngx_http_time 784111777 = Some s \<and> length s = 29 \<and> ngx_http_parse_time s = Some 784111777"
  by (rule http_time_roundtrip) simp_all

lemma parse_day_zero:
  "ngx_http_parse_time (bytes ''Sun, 00 Nov 1994 08:49:37'') = Some 783593377"
  "ngx_http_parse_time (bytes ''Mon, 31 Oct 1994 08:49:37'') = Some 783593377"
  by code_simp+

text \<open>
  C28. Whatever bytes a client sends as a date, \<^verbatim>\<open>ngx_http_parse_time\<close> returns and reads only
  bytes of the value, although it advances through the three formats with two length checks
  only; and it accepts the day 0 of a month, which it takes for the last day of the month
  before.
\<close>

theorem parse_time_reads_in_bounds:
  "(\<exists>rc. ngx_http_parse_time v = Some rc)
   \<and> ngx_http_parse_time (bytes ''Sun, 00 Nov 1994 08:49:37'') = ngx_http_parse_time (bytes ''Mon, 31 Oct 1994 08:49:37'')
   \<and> ngx_http_parse_time (bytes ''Sun, 00 Nov 1994 08:49:37'') = Some 783593377"
  by (simp only: parse_time_total parse_day_zero simp_thms)

end
