(* ===== verification/Ngx_Round_Robin.thy ===== *)
theory Ngx_Round_Robin
  imports Ngx_Sort Ngx_Signed
begin

text \<open>
  The choice of an upstream server: \<^verbatim>\<open>src/http/ngx_http_upstream_round_robin.c\<close> with its
  weights, the bitmap of the servers a request has tried, the failure accounting and the
  backup servers. The
  peers and their \<^verbatim>\<open>next\<close> list are a list of peer sets of which \<^verbatim>\<open>rrp->peers\<close> is one; a
  peer keeps the fields that the choice depends on and its address. Reads and writes outside
  the arrays and a division by zero are \<open>None\<close>.
\<close>

section \<open>Definitions\<close>

record rr_peer =
  rp_sockaddr :: ngx_str
  rp_name :: ngx_str
  rp_current_weight :: ngx_int
  rp_weight :: ngx_int
  rp_fails :: ngx_uint
  rp_accessed :: ngx_int
  rp_max_fails :: ngx_uint
  rp_fail_timeout :: ngx_int
  rp_down :: bool

record rr_peers =
  ps_single :: bool
  ps_last_cached :: nat
  ps_cached :: "nat list"
  ps_name :: ngx_str
  ps_peer :: "rr_peer list"

abbreviation ps_number :: "rr_peers \<Rightarrow> nat" where "ps_number ps \<equiv> length (ps_peer ps)"

text \<open>
  The data of a request (\<^verbatim>\<open>ngx_http_upstream_rr_peer_data_t\<close>) with the peer sets, and the part
  of \<^verbatim>\<open>ngx_peer_connection_t\<close> that is used.
\<close>

record rr_data =
  rr_sets :: "rr_peers list"
  rr_peers :: nat
  rr_current :: nat
  rr_tried :: "64 word list"
  pc_tries :: ngx_uint
  pc_connection :: "nat option"
  pc_cached :: bool
  pc_sockaddr :: ngx_str
  pc_name :: ngx_str

abbreviation weight_of :: "rr_peer list \<Rightarrow> nat \<Rightarrow> ngx_int" where "weight_of ps i \<equiv> rp_weight (ps ! i)"
abbreviation current_of :: "rr_peer list \<Rightarrow> nat \<Rightarrow> ngx_int" where "current_of ps i \<equiv> rp_current_weight (ps ! i)"

text \<open>The inner loop of \<^verbatim>\<open>ngx_http_upstream_get_peer\<close>, from the candidate \<open>n\<close> at \<open>i\<close> on.\<close>

function get_peer_scan :: "rr_peer list \<Rightarrow> nat \<Rightarrow> nat \<Rightarrow> nat option" where
  "get_peer_scan ps n i =
     (if i < length ps - 1 then
        (let j = i + 1
         in if current_of ps j \<le>s 0 then get_peer_scan ps n j
            else if weight_of ps j = 0 then None
            else if ngx_sdiv (weight_of ps n * 1000) (weight_of ps j)
                      <s ngx_sdiv (current_of ps n * 1000) (current_of ps j)
            then Some n
            else get_peer_scan ps j j)
      else if 0 <s current_of ps i then Some i
      else Some n)"
  by pat_completeness auto
termination
  by (relation "measure (\<lambda>(ps, n, i). length ps - i)") auto

declare get_peer_scan.simps [simp del]

text \<open>The outer loop: the first peer with a positive weight; \<open>Some None\<close> when there is none.\<close>

function get_peer_pass :: "rr_peer list \<Rightarrow> nat \<Rightarrow> nat option option" where
  "get_peer_pass ps i =
     (if i < length ps then
        (if current_of ps i \<le>s 0 then get_peer_pass ps (i + 1)
         else map_option Some (get_peer_scan ps i i))
      else Some None)"
  by pat_completeness auto
termination
  by (relation "measure (\<lambda>(ps, i). length ps - i)") auto

declare get_peer_pass.simps [simp del]

definition reset_weight :: "rr_peer \<Rightarrow> rr_peer" where
  "reset_weight p = p\<lparr>rp_current_weight := rp_weight p\<rparr>"

definition ngx_http_upstream_get_peer :: "rr_peer list \<Rightarrow> (nat \<times> rr_peer list) option" where
  "ngx_http_upstream_get_peer ps =
     (case get_peer_pass ps 0 of
        None \<Rightarrow> None
      | Some (Some n) \<Rightarrow> Some (n, ps)
      | Some None \<Rightarrow>
          (let ps' = map reset_weight ps
           in case get_peer_pass ps' 0 of
                None \<Rightarrow> None
              | Some (Some n) \<Rightarrow> Some (n, ps')
              | Some None \<Rightarrow> Some (0, ps')))"

text \<open>The peers of the current set, and their update.\<close>

definition rr_set :: "rr_data \<Rightarrow> rr_peers" where
  "rr_set st = rr_sets st ! rr_peers st"

definition rr_put_peers :: "rr_peer list \<Rightarrow> rr_data \<Rightarrow> rr_data" where
  "rr_put_peers ps st =
     st\<lparr>rr_sets := (rr_sets st)[rr_peers st := (rr_set st)\<lparr>ps_peer := ps\<rparr>]\<rparr>"

definition rr_put_peer :: "nat \<Rightarrow> rr_peer \<Rightarrow> rr_data \<Rightarrow> rr_data" where
  "rr_put_peer i p st = rr_put_peers ((ps_peer (rr_set st))[i := p]) st"

definition rr_mask :: "nat \<Rightarrow> 64 word" where
  "rr_mask i = push_bit (i mod 64) 1"

definition rr_mark :: "nat \<Rightarrow> rr_data \<Rightarrow> rr_data option" where
  "rr_mark i st =
     (case rd (rr_tried st) (i div 64) of
        None \<Rightarrow> None
      | Some w \<Rightarrow> Some (st\<lparr>rr_tried := (rr_tried st)[i div 64 := w OR rr_mask i]\<rparr>))"

text \<open>
  The body shared by the two loops of \<^verbatim>\<open>ngx_http_upstream_get_round_robin_peer\<close>: is the current
  peer one to connect to? \<open>True\<close> is the \<^verbatim>\<open>break\<close>.
\<close>

definition rr_probe :: "ngx_int \<Rightarrow> rr_data \<Rightarrow> (bool \<times> rr_data) option" where
  "rr_probe now st =
     (case rd (rr_tried st) (rr_current st div 64) of
        None \<Rightarrow> None
      | Some w \<Rightarrow>
          if w AND rr_mask (rr_current st) \<noteq> 0 then Some (False, st)
          else
            (case rd (ps_peer (rr_set st)) (rr_current st) of
               None \<Rightarrow> None
             | Some p \<Rightarrow>
                 if \<not> rp_down p then
                   (if rp_max_fails p = 0 \<or> rp_fails p < rp_max_fails p then Some (True, st)
                    else if rp_fail_timeout p <s now - rp_accessed p
                    then Some (True, rr_put_peer (rr_current st) (p\<lparr>rp_fails := 0\<rparr>) st)
                    else Some (False, (rr_put_peer (rr_current st) (p\<lparr>rp_current_weight := 0\<rparr>) st)\<lparr>pc_tries := pc_tries st - 1\<rparr>))
                 else map_option (\<lambda>st. (False, st\<lparr>pc_tries := pc_tries st - 1\<rparr>)) (rr_mark (rr_current st) st)))"

text \<open>\<^verbatim>\<open>rrp->current = ngx_http_upstream_get_peer(rrp->peers)\<close>, and the step to the next peer.\<close>

definition rr_pick :: "rr_data \<Rightarrow> rr_data option" where
  "rr_pick st =
     map_option (\<lambda>(n, ps). (rr_put_peers ps st)\<lparr>rr_current := n\<rparr>)
       (ngx_http_upstream_get_peer (ps_peer (rr_set st)))"

definition rr_advance :: "rr_data \<Rightarrow> rr_data" where
  "rr_advance st =
     st\<lparr>rr_current := (if rr_current st + 1 \<ge> ps_number (rr_set st) then 0 else rr_current st + 1)\<rparr>"

text \<open>
  The two loops, for the first try and for the others, with the counter \<^verbatim>\<open>i\<close>. A counter of 0 at the
  start would wrap around at the first decrement.
\<close>

fun rr_loop :: "bool \<Rightarrow> ngx_int \<Rightarrow> nat \<Rightarrow> rr_data \<Rightarrow> (bool \<times> rr_data) option" where
  "rr_loop first now 0 st = Some (False, st)"
| "rr_loop first now (Suc i) st =
     (case (if first then rr_pick st else Some st) of
        None \<Rightarrow> None
      | Some st1 \<Rightarrow>
          (case rr_probe now st1 of
             None \<Rightarrow> None
           | Some (found, st2) \<Rightarrow>
               if found then Some (True, st2)
               else let st3 = (if first then st2 else rr_advance st2)
                    in if pc_tries st3 = 0 then Some (False, st3) else rr_loop first now i st3))"

definition rr_iterations :: "ngx_uint \<Rightarrow> nat" where
  "rr_iterations tries = (if tries = 0 then 2 ^ 64 else unat tries)"

text \<open>\<^verbatim>\<open>for (i = 0; i < n; i++) rrp->tried[i] = 0\<close> with \<^verbatim>\<open>n = number / 64 + 1\<close>.\<close>

definition rr_clear :: "nat \<Rightarrow> rr_data \<Rightarrow> rr_data option" where
  "rr_clear number st =
     (let n = number div 64 + 1
      in if n \<le> length (rr_tried st)
         then Some (st\<lparr>rr_tried := replicate n 0 @ drop n (rr_tried st)\<rparr>) else None)"

definition rr_next :: "rr_data \<Rightarrow> rr_peers option" where
  "rr_next st = rd (rr_sets st) (rr_peers st + 1)"

text \<open>From \<^verbatim>\<open>pc->sockaddr = peer->sockaddr\<close> on.\<close>

definition rr_connect :: "rr_peer \<Rightarrow> rr_data \<Rightarrow> (ngx_int \<times> rr_data) option" where
  "rr_connect p st =
     (let st = st\<lparr>pc_sockaddr := rp_sockaddr p, pc_name := rp_name p\<rparr>
      in case rr_next st of
           None \<Rightarrow> Some (NGX_OK, st)
         | Some nxt \<Rightarrow>
             if pc_tries st = 1
             then map_option (Pair NGX_OK) (rr_clear (ps_number nxt) (st\<lparr>pc_tries := pc_tries st + of_nat (ps_number nxt)\<rparr>))
             else Some (NGX_OK, st))"

text \<open>The peer that the loops found: \<^verbatim>\<open>peer->current_weight--; rrp->tried[n] |= m\<close>.\<close>

definition rr_take :: "rr_data \<Rightarrow> (ngx_int \<times> rr_data) option" where
  "rr_take st =
     (case rd (ps_peer (rr_set st)) (rr_current st) of
        None \<Rightarrow> None
      | Some p \<Rightarrow>
          Option.bind (rr_mark (rr_current st) (rr_put_peer (rr_current st)
            (p\<lparr>rp_current_weight := rp_current_weight p - 1\<rparr>) st)) (rr_connect p))"

text \<open>All peers of a set failed: \<^verbatim>\<open>peers->peer[i].fails = 0\<close> and \<^verbatim>\<open>pc->name = peers->name\<close>.\<close>

definition rr_recover :: "nat \<Rightarrow> ngx_str \<Rightarrow> rr_data \<Rightarrow> rr_data" where
  "rr_recover k name st =
     st\<lparr>rr_sets := (rr_sets st)[k := (rr_sets st ! k)\<lparr>ps_peer := map (\<lambda>p. p\<lparr>rp_fails := 0\<rparr>) (ps_peer (rr_sets st ! k))\<rparr>],
        pc_name := name\<rparr>"

text \<open>The recursion is on the \<^verbatim>\<open>next\<close> pointers: \<open>sets\<close> bounds the sets that are left.\<close>

fun rr_get :: "nat \<Rightarrow> ngx_int \<Rightarrow> rr_data \<Rightarrow> (ngx_int \<times> rr_data) option" where
  "rr_get sets now st =
     (let ps = rr_set st
      in if ps_last_cached ps \<noteq> 0 then
           (case rd (ps_cached ps) (ps_last_cached ps) of
              None \<Rightarrow> None
            | Some c \<Rightarrow>
                Some (NGX_OK, st\<lparr>rr_sets := (rr_sets st)[rr_peers st := ps\<lparr>ps_last_cached := ps_last_cached ps - 1\<rparr>],
                                 pc_connection := Some c, pc_cached := True\<rparr>))
         else
           let st = st\<lparr>pc_cached := False, pc_connection := None\<rparr>
           in if ps_single ps then Option.bind (rd (ps_peer ps) 0) (\<lambda>p. rr_connect p st)
              else
                (case rr_loop (unat (pc_tries st) = ps_number ps) now (rr_iterations (pc_tries st)) st of
                   None \<Rightarrow> None
                 | Some (found, st') \<Rightarrow>
                     if found then rr_take st'
                     else
                       (case rr_next st' of
                          None \<Rightarrow> Some (NGX_BUSY, rr_recover (rr_peers st') (ps_name ps) st')
                        | Some nxt \<Rightarrow>
                            (case sets of
                               0 \<Rightarrow> None
                             | Suc sets' \<Rightarrow>
                                 (case rr_clear (ps_number nxt)
                                         (st'\<lparr>rr_peers := rr_peers st' + 1, pc_tries := of_nat (ps_number nxt)\<rparr>) of
                                    None \<Rightarrow> None
                                  | Some st2 \<Rightarrow>
                                      (case rr_get sets' now st2 of
                                         None \<Rightarrow> None
                                       | Some (rc, st3) \<Rightarrow>
                                           if rc \<noteq> NGX_BUSY then Some (rc, st3)
                                           else Some (NGX_BUSY, rr_recover (rr_peers st') (ps_name ps) st3)))))))"

declare rr_get.simps [simp del]

definition ngx_http_upstream_get_round_robin_peer :: "ngx_int \<Rightarrow> rr_data \<Rightarrow> (ngx_int \<times> rr_data) option" where
  "ngx_http_upstream_get_round_robin_peer now st = rr_get (length (rr_sets st)) now st"

definition NGX_PEER_FAILED :: ngx_uint where "NGX_PEER_FAILED = 4"

text \<open>The accounting of a failed peer.\<close>

definition rr_failed :: "ngx_int \<Rightarrow> rr_peer \<Rightarrow> rr_peer" where
  "rr_failed now p =
     (let p = p\<lparr>rp_fails := rp_fails p + 1, rp_accessed := now\<rparr>;
          p = (if rp_max_fails p \<noteq> 0
               then p\<lparr>rp_current_weight := rp_current_weight p - rp_weight p div rp_max_fails p\<rparr> else p)
      in if rp_current_weight p <s 0 then p\<lparr>rp_current_weight := 0\<rparr> else p)"

definition ngx_http_upstream_free_round_robin_peer :: "ngx_int \<Rightarrow> ngx_uint \<Rightarrow> rr_data \<Rightarrow> rr_data option" where
  "ngx_http_upstream_free_round_robin_peer now state st =
     (if state = 0 \<and> pc_tries st = 0 then Some st
      else if ps_single (rr_set st) then Some (st\<lparr>pc_tries := 0\<rparr>)
      else map_option (\<lambda>st. let st = rr_advance st
                            in if pc_tries st \<noteq> 0 then st\<lparr>pc_tries := pc_tries st - 1\<rparr> else st)
             (if state AND NGX_PEER_FAILED \<noteq> 0
              then map_option (\<lambda>p. rr_put_peer (rr_current st) (rr_failed now p) st) (rd (ps_peer (rr_set st)) (rr_current st))
              else Some st))"

text \<open>\<^verbatim>\<open>ngx_http_upstream_init_round_robin_peer\<close>: the words of the bitmap and the initial data.\<close>

definition rr_words :: "nat \<Rightarrow> nat" where
  "rr_words n = (if n \<le> 64 then 1 else (n + 63) div 64)"

definition ngx_http_upstream_init_round_robin_peer :: "rr_peers list \<Rightarrow> rr_data" where
  "ngx_http_upstream_init_round_robin_peer sets =
     (let n = ps_number (hd sets);
          n = (case rd sets 1 of None \<Rightarrow> n | Some b \<Rightarrow> if ps_number b > n then ps_number b else n)
      in \<lparr>rr_sets = sets, rr_peers = 0, rr_current = 0, rr_tried = replicate (rr_words n) 0,
          pc_tries = of_nat (ps_number (hd sets)), pc_connection = None, pc_cached = False,
          pc_sockaddr = [], pc_name = []\<rparr>)"

text \<open>\<^verbatim>\<open>ngx_http_upstream_cmp_servers\<close>: the result of the C comparison is 1 or 0.\<close>

definition ngx_http_upstream_cmp_servers :: "rr_peer \<Rightarrow> rr_peer \<Rightarrow> int" where
  "ngx_http_upstream_cmp_servers first second =
     (if rp_weight first <s rp_weight second then 1 else 0)"

text \<open>
  \<^verbatim>\<open>ngx_http_upstream_init_round_robin\<close>: the peers from the servers of an upstream block, the
  ones that are not backup servers in front; \<open>alloc1\<close> and \<open>alloc2\<close> tell whether the two calls
  of \<^verbatim>\<open>ngx_sort\<close> get their memory. An upstream that is defined by a directive such as
  \<^verbatim>\<open>proxy_pass\<close> has one set, of the addresses to which \<open>resolve\<close>, the name lookup, maps the host.
  \<open>None\<close> is \<^verbatim>\<open>NGX_ERROR\<close>.
\<close>

record up_server =
  us_addrs :: "(ngx_str \<times> ngx_str) list"
  us_weight :: ngx_int
  us_max_fails :: ngx_uint
  us_fail_timeout :: ngx_int
  us_down :: bool
  us_backup :: bool

definition main_peer :: "up_server \<Rightarrow> ngx_str \<times> ngx_str \<Rightarrow> rr_peer" where
  "main_peer s addr = \<lparr>rp_sockaddr = fst addr, rp_name = snd addr,
     rp_current_weight = (if us_down s then 0 else us_weight s), rp_weight = (if us_down s then 0 else us_weight s),
     rp_fails = 0, rp_accessed = 0, rp_max_fails = us_max_fails s, rp_fail_timeout = us_fail_timeout s,
     rp_down = us_down s\<rparr>"

definition backup_peer :: "up_server \<Rightarrow> ngx_str \<times> ngx_str \<Rightarrow> rr_peer" where
  "backup_peer s addr = \<lparr>rp_sockaddr = fst addr, rp_name = snd addr,
     rp_current_weight = us_weight s, rp_weight = us_weight s,
     rp_fails = 0, rp_accessed = 0, rp_max_fails = us_max_fails s, rp_fail_timeout = us_fail_timeout s,
     rp_down = us_down s\<rparr>"

definition implicit_peer :: "ngx_str \<times> ngx_str \<Rightarrow> rr_peer" where
  "implicit_peer addr = \<lparr>rp_sockaddr = fst addr, rp_name = snd addr, rp_current_weight = 1, rp_weight = 1,
     rp_fails = 0, rp_accessed = 0, rp_max_fails = 1, rp_fail_timeout = 10, rp_down = False\<rparr>"

definition main_peers :: "up_server list \<Rightarrow> rr_peer list" where
  "main_peers servers = concat (map (\<lambda>s. if us_backup s then [] else map (main_peer s) (us_addrs s)) servers)"

definition backup_peers :: "up_server list \<Rightarrow> rr_peer list" where
  "backup_peers servers = concat (map (\<lambda>s. if \<not> us_backup s then [] else map (backup_peer s) (us_addrs s)) servers)"

definition server_sets :: "bool \<Rightarrow> bool \<Rightarrow> ngx_str \<Rightarrow> up_server list \<Rightarrow> rr_peers list" where
  "server_sets alloc1 alloc2 host servers =
     (let main = main_peers servers;
          peers = \<lparr>ps_single = (length main = 1), ps_last_cached = 0, ps_cached = [], ps_name = host,
                   ps_peer = ngx_sort alloc1 ngx_http_upstream_cmp_servers main\<rparr>;
          spare = backup_peers servers
      in if length spare = 0 then [peers]
         else [peers\<lparr>ps_single := False\<rparr>,
               \<lparr>ps_single = False, ps_last_cached = 0, ps_cached = [], ps_name = host,
                ps_peer = ngx_sort alloc2 ngx_http_upstream_cmp_servers spare\<rparr>])"

definition ngx_http_upstream_init_round_robin ::
    "(ngx_str \<Rightarrow> 16 word \<Rightarrow> (ngx_str \<times> ngx_str) list option) \<Rightarrow> bool \<Rightarrow> bool \<Rightarrow> ngx_str \<Rightarrow> 16 word \<Rightarrow> 16 word
     \<Rightarrow> up_server list option \<Rightarrow> rr_peers list option" where
  "ngx_http_upstream_init_round_robin resolve alloc1 alloc2 host port default_port servers =
     (case servers of
        Some servers \<Rightarrow> Some (server_sets alloc1 alloc2 host servers)
      | None \<Rightarrow>
          if port = 0 \<and> default_port = 0 then None
          else
            (case resolve host (if port \<noteq> 0 then port else default_port) of
               None \<Rightarrow> None
             | Some addrs \<Rightarrow>
                 Some [\<lparr>ps_single = (length addrs = 1), ps_last_cached = 0, ps_cached = [], ps_name = host,
                        ps_peer = map implicit_peer addrs\<rparr>]))"

section \<open>The weighted choice\<close>

lemma not_sle_0: "\<not> (w :: ngx_int) \<le>s 0 \<longleftrightarrow> 0 <s w"
  by (simp add: word_sle_eq word_sless_alt not_le)

text \<open>Every peer with a positive current weight has a weight, so nothing is divided by zero.\<close>

definition weights_ok :: "rr_peer list \<Rightarrow> bool" where
  "weights_ok ps \<longleftrightarrow> (\<forall>p \<in> set ps. 0 <s rp_current_weight p \<longrightarrow> rp_weight p \<noteq> 0)"

lemma weights_okD: "weights_ok ps \<Longrightarrow> j < length ps \<Longrightarrow> 0 <s current_of ps j \<Longrightarrow> weight_of ps j \<noteq> 0"
  by (simp add: weights_ok_def)

lemma weights_ok_reset: "weights_ok (map reset_weight ps)"
  by (auto simp: weights_ok_def reset_weight_def)

lemma get_peer_scan_positive:
  assumes "weights_ok ps" "n < length ps" "0 <s current_of ps n" "i < length ps"
  shows "\<exists>k. get_peer_scan ps n i = Some k \<and> k < length ps \<and> 0 <s current_of ps k"
  using assms
proof (induction ps n i rule: get_peer_scan.induct)
  case (1 ps n i)
  show ?case
  proof (cases "i < length ps - 1")
    case True
    then have j: "i + 1 < length ps" by simp
    show ?thesis
      using 1(1) [OF True refl] 1(2) [OF True refl] 1(3-) True j weights_okD [OF 1(3) j]
      by (simp add: get_peer_scan.simps [of ps n i] Let_def not_sle_0)
  next
    case False
    then show ?thesis using 1(3-) by (simp add: get_peer_scan.simps [of ps n i])
  qed
qed

lemma get_peer_pass_cases:
  assumes "weights_ok ps"
  shows "if \<exists>j. i \<le> j \<and> j < length ps \<and> 0 <s current_of ps j
    then \<exists>k. get_peer_pass ps i = Some (Some k) \<and> k < length ps \<and> 0 <s current_of ps k
    else get_peer_pass ps i = Some None"
  using assms
proof (induction ps i rule: get_peer_pass.induct)
  case (1 ps i)
  consider "length ps \<le> i" | "i < length ps" "0 <s current_of ps i" | "i < length ps" "current_of ps i \<le>s 0"
    using not_sle_0 by (metis not_le)
  then show ?case
  proof cases
    case 1
    then show ?thesis by (auto simp: get_peer_pass.simps [of ps i])
  next
    case 2
    then have "\<not> current_of ps i \<le>s 0" by (simp add: not_sle_0)
    with 2 get_peer_scan_positive [OF 1(2), of i i] show ?thesis
      by (auto simp: get_peer_pass.simps [of ps i])
  next
    case 3
    then have e: "(\<exists>j. i \<le> j \<and> j < length ps \<and> 0 <s current_of ps j) = (\<exists>j. i + 1 \<le> j \<and> j < length ps \<and> 0 <s current_of ps j)"
      using not_sle_0 by (metis Suc_eq_plus1 Suc_leD le_neq_implies_less less_eq_Suc_le)
    have step: "get_peer_pass ps i = get_peer_pass ps (i + 1)" using 3 by (simp add: get_peer_pass.simps [of ps i])
    show ?thesis unfolding e step by (rule 1(1) [OF 3 1(2)])
  qed
qed

definition positive :: "rr_peer list \<Rightarrow> bool" where
  "positive ps \<longleftrightarrow> (\<exists>p. p \<in> set ps \<and> 0 <s rp_current_weight p)"

lemma positive_conv: "positive ps = (\<exists>j. 0 \<le> j \<and> j < length ps \<and> 0 <s current_of ps j)"
  by (auto simp: positive_def in_set_conv_nth)

lemma get_peer_pass_positive:
  "weights_ok ps \<Longrightarrow> if positive ps then \<exists>k. get_peer_pass ps 0 = Some (Some k) \<and> k < length ps \<and> 0 <s current_of ps k
    else get_peer_pass ps 0 = Some None"
  unfolding positive_conv by (rule get_peer_pass_cases)

lemma get_peer_cases:
  assumes "weights_ok ps" "ps \<noteq> []"
  shows "\<exists>n. ngx_http_upstream_get_peer ps = Some (n, if positive ps then ps else map reset_weight ps) \<and> n < length ps
    \<and> (positive (if positive ps then ps else map reset_weight ps) \<longrightarrow> 0 <s current_of (if positive ps then ps else map reset_weight ps) n)"
  using get_peer_pass_positive [OF assms(1)] get_peer_pass_positive [OF weights_ok_reset [of ps]] assms(2)
  by (auto simp: ngx_http_upstream_get_peer_def Let_def split: if_splits)

text \<open>
  The choice of \<^verbatim>\<open>ngx_http_upstream_get_peer\<close> always ends, after at most one reset of the
  weights, and never divides by zero. It returns a peer of the array; if any peer has
  weight left, or any peer has a weight at all, the peer it returns has weight left; the
  weights are refilled exactly when no peer had any left.
\<close>

theorem get_peer_chooses_positive:
  assumes "weights_ok ps" "ps \<noteq> []"
  shows "\<exists>n ps'. ngx_http_upstream_get_peer ps = Some (n, ps') \<and> n < length ps
    \<and> ps' = (if positive ps then ps else map reset_weight ps) \<and> (positive ps' \<longrightarrow> 0 <s current_of ps' n)"
  using get_peer_cases [OF assms] by blast

definition sample_peer :: "string \<Rightarrow> ngx_int \<Rightarrow> rr_peer" where
  "sample_peer name w = \<lparr>rp_sockaddr = [], rp_name = bytes name, rp_current_weight = w, rp_weight = w,
     rp_fails = 0, rp_accessed = 0, rp_max_fails = 1, rp_fail_timeout = 10, rp_down = False\<rparr>"

theorem get_peer_chooses_positive_witness:
  "\<exists>n. ngx_http_upstream_get_peer [sample_peer ''a'' 5, sample_peer ''b'' 1] = Some (n, [sample_peer ''a'' 5, sample_peer ''b'' 1]) \<and> n < 2"
proof -
  let ?ps = "[sample_peer ''a'' 5, sample_peer ''b'' 1]"
  have ok: "weights_ok ?ps" by code_simp
  have "0 <s rp_current_weight (sample_peer ''a'' 5)" by code_simp
  then have pos: "positive ?ps" unfolding positive_def by (intro exI [of _ "sample_peer ''a'' 5"]) simp
  obtain n ps' where "ngx_http_upstream_get_peer ?ps = Some (n, ps')" "n < length ?ps" "ps' = ?ps"
    using get_peer_chooses_positive [OF ok] pos by auto
  then show ?thesis by (intro exI [of _ n]) simp
qed

section \<open>The invariant of the data of a request\<close>

text \<open>
  A peer without a weight is down and has no current weight. A peer set is not empty, its
  peers have their bits in the bitmap, and it has no cached connections, which no code stores.
  The sets after the first are not marked as single, and clearing their bits stays in the bitmap.
\<close>

definition peer_ok :: "rr_peer \<Rightarrow> bool" where
  "peer_ok p \<longleftrightarrow> (rp_weight p = 0 \<longrightarrow> rp_down p \<and> rp_current_weight p \<le>s 0)"

definition set_ok :: "nat \<Rightarrow> rr_peers \<Rightarrow> bool" where
  "set_ok w ps \<longleftrightarrow> ps_peer ps \<noteq> [] \<and> ps_number ps \<le> 64 * w \<and> ps_number ps < 2 ^ 64 \<and> (\<forall>p \<in> set (ps_peer ps). peer_ok p)
     \<and> ps_last_cached ps = 0"

definition rr_wf0 :: "rr_data \<Rightarrow> bool" where
  "rr_wf0 st \<longleftrightarrow> rr_peers st < length (rr_sets st)
     \<and> (\<forall>k < length (rr_sets st). set_ok (length (rr_tried st)) (rr_sets st ! k))
     \<and> (\<forall>k < length (rr_sets st). 0 < k \<longrightarrow>
          \<not> ps_single (rr_sets st ! k) \<and> ps_number (rr_sets st ! k) div 64 + 1 \<le> length (rr_tried st))"

definition rr_wf :: "rr_data \<Rightarrow> bool" where
  "rr_wf st \<longleftrightarrow> rr_wf0 st \<and> rr_current st < ps_number (rr_set st)"

text \<open>The current peer may be connected to.\<close>

definition usable :: "rr_data \<Rightarrow> bool" where
  "usable st \<longleftrightarrow>
     (let p = ps_peer (rr_set st) ! rr_current st
      in \<not> rp_down p \<and> (rp_max_fails p = 0 \<or> rp_fails p < rp_max_fails p))"

lemma rr_wf0_set: "rr_wf0 st \<Longrightarrow> set_ok (length (rr_tried st)) (rr_set st)"
  by (simp add: rr_wf0_def rr_set_def)

lemma peers_weights_ok: "(\<forall>p \<in> set ps. peer_ok p) \<Longrightarrow> weights_ok ps"
  using not_sle_0 by (auto simp: weights_ok_def peer_ok_def)

lemma peer_ok_reset: "peer_ok p \<Longrightarrow> peer_ok (reset_weight p)"
  by (auto simp: peer_ok_def reset_weight_def)

lemma rr_set_put [simp]: "rr_peers st < length (rr_sets st) \<Longrightarrow> rr_set (rr_put_peers ps st) = (rr_set st)\<lparr>ps_peer := ps\<rparr>"
  by (simp add: rr_set_def rr_put_peers_def)

lemma rr_put_fields [simp]:
  "rr_peers (rr_put_peers ps st) = rr_peers st" "rr_current (rr_put_peers ps st) = rr_current st"
  "rr_tried (rr_put_peers ps st) = rr_tried st" "pc_tries (rr_put_peers ps st) = pc_tries st"
  "length (rr_sets (rr_put_peers ps st)) = length (rr_sets st)"
  by (simp_all add: rr_put_peers_def)

lemma rr_wf0_put:
  assumes "rr_wf0 st" "length ps = ps_number (rr_set st)" "\<forall>p \<in> set ps. peer_ok p"
  shows "rr_wf0 (rr_put_peers ps st)"
proof -
  have "set_ok (length (rr_tried st)) (rr_sets (rr_put_peers ps st) ! k)
      \<and> ps_number (rr_sets (rr_put_peers ps st) ! k) = ps_number (rr_sets st ! k)
      \<and> ps_single (rr_sets (rr_put_peers ps st) ! k) = ps_single (rr_sets st ! k)" if "k < length (rr_sets st)" for k
  proof (cases "k = rr_peers st")
    case True
    have "ps \<noteq> []" using assms(2) rr_wf0_set [OF assms(1)] by (auto simp: set_ok_def)
    with True that assms(2,3) rr_wf0_set [OF assms(1)] show ?thesis
      by (simp add: rr_put_peers_def set_ok_def) (simp add: rr_set_def)
  next
    case False
    then show ?thesis using assms(1) that by (simp add: rr_put_peers_def rr_wf0_def)
  qed
  then show ?thesis using assms(1) by (simp add: rr_wf0_def)
qed

lemma rr_wf0_put_peer:
  assumes "rr_wf0 st" "peer_ok p"
  shows "rr_wf0 (rr_put_peer i p st)"
  unfolding rr_put_peer_def
proof (rule rr_wf0_put [OF assms(1)])
  have "\<forall>p \<in> set (ps_peer (rr_set st)). peer_ok p" using rr_wf0_set [OF assms(1)] by (simp add: set_ok_def)
  then show "\<forall>q \<in> set ((ps_peer (rr_set st))[i := p]). peer_ok q"
    using assms(2) set_update_subset_insert [of "ps_peer (rr_set st)" i p] by blast
qed simp

lemma rr_put_peer_fields [simp]:
  "rr_peers (rr_put_peer i p st) = rr_peers st" "rr_current (rr_put_peer i p st) = rr_current st"
  "rr_tried (rr_put_peer i p st) = rr_tried st" "pc_tries (rr_put_peer i p st) = pc_tries st"
  "length (rr_sets (rr_put_peer i p st)) = length (rr_sets st)"
  by (simp_all add: rr_put_peer_def)

lemma rr_set_put_peer [simp]:
  "rr_peers st < length (rr_sets st) \<Longrightarrow> rr_set (rr_put_peer i p st) = (rr_set st)\<lparr>ps_peer := (ps_peer (rr_set st))[i := p]\<rparr>"
  by (simp add: rr_put_peer_def)

lemma rr_set_updates [simp]:
  "rr_set (st\<lparr>rr_tried := t\<rparr>) = rr_set st" "rr_set (st\<lparr>pc_tries := n\<rparr>) = rr_set st"
  "rr_set (st\<lparr>rr_current := i\<rparr>) = rr_set st" "rr_set (st\<lparr>pc_sockaddr := a\<rparr>) = rr_set st"
  "rr_set (st\<lparr>pc_name := a\<rparr>) = rr_set st" "rr_set (st\<lparr>pc_cached := c\<rparr>) = rr_set st"
  "rr_set (st\<lparr>pc_connection := o'\<rparr>) = rr_set st"
  by (simp_all add: rr_set_def)

lemma rr_wf0_updates [simp]:
  "rr_wf0 (st\<lparr>pc_tries := n\<rparr>) = rr_wf0 st" "rr_wf0 (st\<lparr>rr_current := i\<rparr>) = rr_wf0 st"
  "rr_wf0 (st\<lparr>pc_sockaddr := a\<rparr>) = rr_wf0 st" "rr_wf0 (st\<lparr>pc_name := a\<rparr>) = rr_wf0 st"
  "rr_wf0 (st\<lparr>pc_cached := c\<rparr>) = rr_wf0 st" "rr_wf0 (st\<lparr>pc_connection := o'\<rparr>) = rr_wf0 st"
  "length t = length (rr_tried st) \<Longrightarrow> rr_wf0 (st\<lparr>rr_tried := t\<rparr>) = rr_wf0 st"
  by (simp_all add: rr_wf0_def)

lemma rr_wfD:
  assumes "rr_wf st"
  shows "rr_wf0 st" "rr_peers st < length (rr_sets st)" "rr_current st < ps_number (rr_set st)"
    "rr_current st div 64 < length (rr_tried st)" "peer_ok (ps_peer (rr_set st) ! rr_current st)"
proof -
  show wf: "rr_wf0 st" "rr_current st < ps_number (rr_set st)" using assms by (simp_all add: rr_wf_def)
  then show "rr_peers st < length (rr_sets st)" by (simp add: rr_wf0_def)
  have "set_ok (length (rr_tried st)) (rr_set st)" by (rule rr_wf0_set [OF wf(1)])
  then show "rr_current st div 64 < length (rr_tried st)" "peer_ok (ps_peer (rr_set st) ! rr_current st)"
    using wf(2) by (auto simp: set_ok_def less_mult_imp_div_less mult.commute)
qed

lemma rr_mark_ok:
  assumes "rr_wf st"
  shows "\<exists>t. rr_mark (rr_current st) st = Some (st\<lparr>rr_tried := t\<rparr>) \<and> rr_wf (st\<lparr>rr_tried := t\<rparr>) \<and> length t = length (rr_tried st)"
  using rr_wfD [OF assms]
  by (intro exI [of _ "(rr_tried st)[rr_current st div 64 := rr_tried st ! (rr_current st div 64) OR rr_mask (rr_current st)]"])
    (simp add: rr_mark_def rr_wf_def)

text \<open>The sizes that no call changes: of the bitmap and of the peer sets.\<close>

definition rr_shape :: "rr_data \<Rightarrow> nat \<times> nat list" where
  "rr_shape st = (length (rr_tried st), map ps_number (rr_sets st))"

lemma rr_shape_sets: "rr_shape st' = rr_shape st \<Longrightarrow> length (rr_sets st') = length (rr_sets st)"
  by (auto simp: rr_shape_def dest: map_eq_imp_length_eq)

lemma rr_shape_updates [simp]:
  "rr_shape (st\<lparr>pc_tries := n\<rparr>) = rr_shape st" "rr_shape (st\<lparr>rr_current := i\<rparr>) = rr_shape st"
  "rr_shape (st\<lparr>pc_sockaddr := a\<rparr>) = rr_shape st" "rr_shape (st\<lparr>pc_name := a\<rparr>) = rr_shape st"
  "rr_shape (st\<lparr>pc_cached := c\<rparr>) = rr_shape st" "rr_shape (st\<lparr>pc_connection := o'\<rparr>) = rr_shape st"
  "rr_shape (st\<lparr>rr_peers := k\<rparr>) = rr_shape st"
  "length t = length (rr_tried st) \<Longrightarrow> rr_shape (st\<lparr>rr_tried := t\<rparr>) = rr_shape st"
  by (simp_all add: rr_shape_def)

lemma rr_shape_put [simp]: "length ps = ps_number (rr_set st) \<Longrightarrow> rr_shape (rr_put_peers ps st) = rr_shape st"
  by (cases "rr_peers st < length (rr_sets st)")
    (simp_all add: rr_shape_def rr_put_peers_def map_update rr_set_def list_update_same_conv list_update_beyond)

lemma rr_shape_put_peer [simp]: "rr_shape (rr_put_peer i p st) = rr_shape st"
  by (simp add: rr_put_peer_def)

text \<open>What a step keeps: the invariant, the current set and the sizes.\<close>

definition rr_keeps :: "rr_data \<Rightarrow> rr_data \<Rightarrow> bool" where
  "rr_keeps st st' \<longleftrightarrow> rr_wf st' \<and> rr_peers st' = rr_peers st \<and> rr_shape st' = rr_shape st"

lemma rr_probe_ok:
  assumes "rr_wf st"
  shows "\<exists>b st'. rr_probe now st = Some (b, st') \<and> rr_keeps st st' \<and> (b \<longrightarrow> usable st')"
proof -
  note wf = rr_wfD [OF assms]
  define p where "p = ps_peer (rr_set st) ! rr_current st"
  have rd: "rd (ps_peer (rr_set st)) (rr_current st) = Some p" using wf(3) by (simp add: p_def)
  have put: "rr_wf (rr_put_peer (rr_current st) q st)" if "peer_ok q" for q
    using wf that by (simp add: rr_wf_def rr_wf0_put_peer)
  have q: "peer_ok (p\<lparr>rp_fails := 0\<rparr>)" "peer_ok (p\<lparr>rp_current_weight := 0\<rparr>)"
    using wf(5) by (auto simp: peer_ok_def p_def)
  have z: "rp_max_fails p \<noteq> 0 \<Longrightarrow> 0 < rp_max_fails p" by (simp add: word_neq_0_conv)
  have st': "rr_wf (st'\<lparr>pc_tries := n\<rparr>) = rr_wf st'" for st' n by (simp add: rr_wf_def)
  show ?thesis
    using rr_mark_ok [OF assms] put [OF q(1)] put [OF q(2)] wf rd z assms
    by (auto simp: rr_probe_def rr_keeps_def usable_def p_def [symmetric] st')
qed

lemma rr_pick_ok:
  assumes "rr_wf0 st"
  shows "\<exists>st'. rr_pick st = Some st' \<and> rr_keeps st st'"
proof -
  let ?ps = "ps_peer (rr_set st)"
  have ok: "\<forall>p \<in> set ?ps. peer_ok p" "?ps \<noteq> []" using rr_wf0_set [OF assms] by (simp_all add: set_ok_def)
  define ps' where "ps' = (if positive ?ps then ?ps else map reset_weight ?ps)"
  obtain n where n: "ngx_http_upstream_get_peer ?ps = Some (n, ps')" "n < length ?ps"
    using get_peer_cases [OF peers_weights_ok [OF ok(1)] ok(2)] by (auto simp: ps'_def)
  have "length ps' = length ?ps" "\<forall>p \<in> set ps'. peer_ok p" using ok(1) peer_ok_reset by (auto simp: ps'_def)
  with rr_wf0_put [OF assms] n assms show ?thesis
    by (simp add: rr_pick_def rr_keeps_def rr_wf_def rr_wf0_def [of st])
qed

lemma rr_keeps_trans: "rr_keeps st st1 \<Longrightarrow> rr_keeps st1 st2 \<Longrightarrow> rr_keeps st st2"
  by (simp add: rr_keeps_def)

lemma rr_advance_ok: "rr_keeps st st1 \<Longrightarrow> rr_keeps st (rr_advance st1)"
  by (auto simp: rr_keeps_def rr_wf_def rr_advance_def dest!: rr_wf0_set)

lemma rr_loop_ok:
  assumes "rr_wf0 st" "first \<or> rr_wf st" "0 < i \<or> rr_wf st"
  shows "\<exists>b st'. rr_loop first now i st = Some (b, st') \<and> rr_keeps st st' \<and> (b \<longrightarrow> usable st')"
  using assms
proof (induction i arbitrary: st)
  case 0
  then show ?case by (auto simp: rr_keeps_def)
next
  case (Suc i)
  obtain st1 where st1: "(if first then rr_pick st else Some st) = Some st1" "rr_keeps st st1"
    using rr_pick_ok [OF Suc.prems(1)] Suc.prems(2) by (cases first) (auto simp: rr_keeps_def)
  obtain b st2 where st2: "rr_probe now st1 = Some (b, st2)" "rr_keeps st1 st2" "b \<longrightarrow> usable st2"
    using rr_probe_ok [of st1 now] st1(2) unfolding rr_keeps_def by blast
  define st3 where "st3 = (if first then st2 else rr_advance st2)"
  have k3: "rr_keeps st st3" using rr_keeps_trans [OF st1(2) st2(2)] rr_advance_ok by (simp add: st3_def)
  then have "rr_wf st3" by (simp add: rr_keeps_def)
  then obtain b' st' where "rr_loop first now i st3 = Some (b', st')" "rr_keeps st3 st'" "b' \<longrightarrow> usable st'"
    using Suc.IH [of st3] by (auto simp: rr_wf_def)
  then show ?case
    using st1 st2 k3 rr_keeps_trans [OF st1(2) st2(2)] rr_keeps_trans [OF k3]
    by (auto simp: st3_def [symmetric])
qed

lemma rr_clear_ok:
  assumes "number div 64 + 1 \<le> length (rr_tried st)"
  shows "\<exists>t. rr_clear number st = Some (st\<lparr>rr_tried := t\<rparr>) \<and> length t = length (rr_tried st)"
  using assms
  by (intro exI [of _ "replicate (number div 64 + 1) 0 @ drop (number div 64 + 1) (rr_tried st)"])
    (simp add: rr_clear_def Let_def)

lemma rr_next_number:
  "rr_wf0 st \<Longrightarrow> rr_next st = Some nxt \<Longrightarrow> ps_number nxt div 64 + 1 \<le> length (rr_tried st) \<and> \<not> ps_single nxt
    \<and> ps_number nxt < 2 ^ 64 \<and> rr_peers st + 1 < length (rr_sets st)
    \<and> nxt = rr_sets st ! (rr_peers st + 1)"
  by (auto simp: rr_next_def rr_wf0_def rd_def set_ok_def split: if_splits)

text \<open>Connecting changes the bitmap and the connection only.\<close>

lemma rr_connect_ok:
  assumes "rr_wf st"
  shows "\<exists>t n. rr_connect p st = Some (NGX_OK, st\<lparr>rr_tried := t, pc_tries := n, pc_sockaddr := rp_sockaddr p, pc_name := rp_name p\<rparr>)
    \<and> length t = length (rr_tried st)"
proof -
  let ?st = "st\<lparr>pc_sockaddr := rp_sockaddr p, pc_name := rp_name p\<rparr>"
  have wf: "rr_wf0 st" using assms by (simp add: rr_wf_def)
  have nx: "rr_next ?st = rr_next st" by (simp add: rr_next_def)
  show ?thesis
  proof (cases "rr_next st")
    case None
    then show ?thesis
      by (intro exI [of _ "rr_tried st"] exI [of _ "pc_tries st"]) (simp add: rr_connect_def nx Let_def)
  next
    case (Some nxt)
    with rr_next_number [OF wf] obtain t where
      "rr_clear (ps_number nxt) (?st\<lparr>pc_tries := pc_tries st + of_nat (ps_number nxt)\<rparr>) =
        Some (?st\<lparr>pc_tries := pc_tries st + of_nat (ps_number nxt), rr_tried := t\<rparr>)" "length t = length (rr_tried st)"
      using rr_clear_ok [of "ps_number nxt" "?st\<lparr>pc_tries := pc_tries st + of_nat (ps_number nxt)\<rparr>"] by auto
    moreover have "?st\<lparr>pc_tries := n, rr_tried := t\<rparr> =
        st\<lparr>rr_tried := t, pc_tries := n, pc_sockaddr := rp_sockaddr p, pc_name := rp_name p\<rparr>" for n by simp
    ultimately show ?thesis
      using Some
      by (cases "pc_tries st = 1")
        ((intro exI [of _ t] exI [of _ "pc_tries st + of_nat (ps_number nxt)"], simp add: rr_connect_def nx Let_def),
         (intro exI [of _ "rr_tried st"] exI [of _ "pc_tries st"], simp add: rr_connect_def nx Let_def))
  qed
qed

lemma rr_take_ok:
  assumes "rr_wf st" "usable st"
  shows "\<exists>st'. rr_take st = Some (NGX_OK, st') \<and> rr_keeps st st' \<and> usable st'
    \<and> pc_name st' = rp_name (ps_peer (rr_set st') ! rr_current st')"
proof -
  note wf = rr_wfD [OF assms(1)]
  define p where "p = ps_peer (rr_set st) ! rr_current st"
  define q where "q = p\<lparr>rp_current_weight := rp_current_weight p - 1\<rparr>"
  define st1 where "st1 = rr_put_peer (rr_current st) q st"
  have "peer_ok q" using wf(5) assms(2) by (auto simp: peer_ok_def q_def p_def usable_def Let_def)
  then have wf1: "rr_wf st1" using wf by (simp add: st1_def rr_wf_def rr_wf0_put_peer)
  have set1: "ps_peer (rr_set st1) ! rr_current st1 = q" using wf by (simp add: st1_def)
  obtain t where t: "rr_mark (rr_current st1) st1 = Some (st1\<lparr>rr_tried := t\<rparr>)" "rr_wf (st1\<lparr>rr_tried := t\<rparr>)" "length t = length (rr_tried st1)"
    using rr_mark_ok [OF wf1] by blast
  obtain t' n where c: "rr_connect p (st1\<lparr>rr_tried := t\<rparr>) =
      Some (NGX_OK, st1\<lparr>rr_tried := t, rr_tried := t', pc_tries := n, pc_sockaddr := rp_sockaddr p, pc_name := rp_name p\<rparr>)"
      "length t' = length t"
    using rr_connect_ok [OF t(2), of p] by auto
  let ?st' = "st1\<lparr>rr_tried := t', pc_tries := n, pc_sockaddr := rp_sockaddr p, pc_name := rp_name p\<rparr>"
  have "rr_keeps st ?st'" using wf1 c(2) t(3) by (simp add: rr_keeps_def rr_wf_def st1_def)
  moreover have "usable ?st'" using set1 assms(2) by (simp add: usable_def q_def p_def Let_def)
  moreover have "pc_name ?st' = rp_name (ps_peer (rr_set ?st') ! rr_current ?st')" using set1 by (simp add: q_def)
  moreover have "rr_take st = Some (NGX_OK, ?st')"
    using wf t(1) c(1) by (simp add: rr_take_def p_def [symmetric] q_def [symmetric] st1_def)
  ultimately show ?thesis by blast
qed

text \<open>What one call promises.\<close>

definition rr_promise :: "rr_data \<Rightarrow> ngx_int \<Rightarrow> rr_data \<Rightarrow> bool" where
  "rr_promise st rc st' \<longleftrightarrow> rr_wf st' \<and> rr_shape st' = rr_shape st \<and> rr_peers st \<le> rr_peers st'
     \<and> (rc = NGX_OK \<and> (ps_single (rr_set st') \<or>
           usable st' \<and> pc_name st' = rp_name (ps_peer (rr_set st') ! rr_current st'))
        \<or> rc = NGX_BUSY \<and> (\<forall>k. rr_peers st \<le> k \<and> k \<le> rr_peers st' \<longrightarrow> (\<forall>p \<in> set (ps_peer (rr_sets st' ! k)). rp_fails p = 0)))"

lemma set_ok_recover: "set_ok w ps \<Longrightarrow> set_ok w (ps\<lparr>ps_peer := map (\<lambda>p. p\<lparr>rp_fails := 0\<rparr>) (ps_peer ps)\<rparr>)"
  by (auto simp: set_ok_def peer_ok_def)

lemma rr_recover_number:
  "ps_number (rr_sets (rr_recover k name st) ! i) = ps_number (rr_sets st ! i)
   \<and> ps_single (rr_sets (rr_recover k name st) ! i) = ps_single (rr_sets st ! i)"
  by (cases "i = k \<and> k < length (rr_sets st)") (auto simp: rr_recover_def nth_list_update list_update_beyond)

lemma rr_recover_shape: "rr_shape (rr_recover k name st) = rr_shape st"
  by (cases "k < length (rr_sets st)") (simp_all add: rr_shape_def rr_recover_def map_update list_update_same_conv list_update_beyond)

lemma rr_recover_wf:
  assumes "rr_wf st"
  shows "rr_wf (rr_recover k name st)"
proof -
  have "set_ok (length (rr_tried st)) (rr_sets (rr_recover k name st) ! i)" if "i < length (rr_sets st)" for i
    using assms that set_ok_recover
    by (cases "i = k") (auto simp: rr_recover_def rr_wf_def rr_wf0_def)
  then show ?thesis
    using assms rr_recover_number [of k name st]
    by (simp add: rr_wf_def rr_wf0_def rr_set_def) (simp add: rr_recover_def)
qed

lemma rr_recover_fails:
  "k < length (rr_sets st) \<Longrightarrow> p \<in> set (ps_peer (rr_sets (rr_recover k name st) ! k)) \<Longrightarrow> rp_fails p = 0"
  "i \<noteq> k \<Longrightarrow> rr_sets (rr_recover k name st) ! i = rr_sets st ! i"
  by (auto simp: rr_recover_def)

lemma rr_recover_promise:
  assumes "rr_wf st3" "rr_shape st3 = rr_shape st" "rr_peers st \<le> rr_peers st3"
    and "\<And>k p. rr_peers st < k \<Longrightarrow> k \<le> rr_peers st3 \<Longrightarrow> p \<in> set (ps_peer (rr_sets st3 ! k)) \<Longrightarrow> rp_fails p = 0"
  shows "rr_promise st NGX_BUSY (rr_recover (rr_peers st) name st3)"
proof -
  let ?r = "rr_recover (rr_peers st) name st3"
  have f: "rr_peers ?r = rr_peers st3" "rr_shape ?r = rr_shape st3" by (simp add: rr_recover_def, rule rr_recover_shape)
  have "rr_peers st3 < length (rr_sets st3)" using assms(1) by (simp add: rr_wf_def rr_wf0_def)
  then have "rp_fails p = 0" if "rr_peers st \<le> k" "k \<le> rr_peers st3" "p \<in> set (ps_peer (rr_sets ?r ! k))" for k p
    using that assms(3,4) rr_recover_fails(1) [of "rr_peers st" st3 p name] rr_recover_fails(2) [of k "rr_peers st" name st3]
    by (cases "k = rr_peers st") (auto, metis le_neq_implies_less)
  then show ?thesis using rr_recover_wf [OF assms(1)] assms(2,3) f by (auto simp: rr_promise_def)
qed

text \<open>One call, given that the call for the next set keeps its promise.\<close>

definition rr_fallback :: "nat \<Rightarrow> ngx_int \<Rightarrow> ngx_str \<Rightarrow> rr_data \<Rightarrow> (ngx_int \<times> rr_data) option" where
  "rr_fallback n now name st' =
     (case rr_next st' of
        None \<Rightarrow> Some (NGX_BUSY, rr_recover (rr_peers st') name st')
      | Some nxt \<Rightarrow>
          (case n of
             0 \<Rightarrow> None
           | Suc m \<Rightarrow>
               (case rr_clear (ps_number nxt) (st'\<lparr>rr_peers := rr_peers st' + 1, pc_tries := of_nat (ps_number nxt)\<rparr>) of
                  None \<Rightarrow> None
                | Some st2 \<Rightarrow>
                    (case rr_get m now st2 of
                       None \<Rightarrow> None
                     | Some (rc, st3) \<Rightarrow>
                         if rc \<noteq> NGX_BUSY then Some (rc, st3)
                         else Some (NGX_BUSY, rr_recover (rr_peers st') name st3)))))"

lemma rr_get_unfold:
  assumes "ps_last_cached (rr_set st) = 0" "\<not> ps_single (rr_set st)"
  shows "rr_get n now st =
     (case rr_loop (unat (pc_tries st) = ps_number (rr_set st)) now (rr_iterations (pc_tries st))
             (st\<lparr>pc_cached := False, pc_connection := None\<rparr>) of
        None \<Rightarrow> None
      | Some (b, st') \<Rightarrow> if b then rr_take st' else rr_fallback n now (ps_name (rr_set st)) st')"
  unfolding rr_get.simps [of n] Let_def rr_fallback_def using assms by simp

lemma rr_fallback_ok:
  assumes wf: "rr_wf st'" "rr_peers st' = rr_peers st" "rr_shape st' = rr_shape st"
    and fuel: "length (rr_sets st) \<le> n + rr_peers st + 1"
    and ih: "\<And>m st2. n = Suc m \<Longrightarrow> rr_wf0 st2 \<Longrightarrow> unat (pc_tries st2) = ps_number (rr_set st2) \<Longrightarrow> \<not> ps_single (rr_set st2) \<Longrightarrow>
      length (rr_sets st2) \<le> m + rr_peers st2 + 1 \<Longrightarrow> \<exists>rc st'. rr_get m now st2 = Some (rc, st') \<and> rr_promise st2 rc st'"
  shows "\<exists>rc st''. rr_fallback n now name st' = Some (rc, st'') \<and> rr_promise st rc st''"
proof (cases "rr_next st'")
  case None
  have "rr_promise st NGX_BUSY (rr_recover (rr_peers st) name st')"
    by (rule rr_recover_promise) (use wf in auto)
  with None wf(2) show ?thesis by (simp add: rr_fallback_def)
next
  case (Some nxt)
  have wf0: "rr_wf0 st'" using wf(1) by (simp add: rr_wf_def)
  note len = rr_shape_sets [OF wf(3)]
  note nx = rr_next_number [OF wf0 Some]
  then have nn: "ps_number nxt < 2 ^ 64" "\<not> ps_single nxt" by blast+
  from nx obtain m where m: "n = Suc m" using fuel wf len by (cases n) auto
  let ?st = "st'\<lparr>rr_peers := rr_peers st' + 1, pc_tries := of_nat (ps_number nxt)\<rparr>"
  obtain t where t: "rr_clear (ps_number nxt) ?st = Some (?st\<lparr>rr_tried := t\<rparr>)" "length t = length (rr_tried st')"
    using rr_clear_ok [of "ps_number nxt" ?st] nx by auto
  let ?st2 = "?st\<lparr>rr_tried := t\<rparr>"
  have set2: "rr_set ?st2 = nxt" using nx by (simp add: rr_set_def)
  have "rr_wf0 ?st2" using wf0 nx t(2) by (simp add: rr_wf0_def)
  moreover have "unat (pc_tries ?st2) = ps_number (rr_set ?st2)" "\<not> ps_single (rr_set ?st2)"
    unfolding set2 using nn by (simp_all add: unat_of_nat)
  moreover have "length (rr_sets ?st2) \<le> m + rr_peers ?st2 + 1" using fuel wf len m by simp
  ultimately obtain rc st3 where g: "rr_get m now ?st2 = Some (rc, st3)" "rr_promise ?st2 rc st3"
    using ih [OF m] by blast
  have p: "rr_wf st3" "rr_shape st3 = rr_shape st" "rr_peers st + 1 \<le> rr_peers st3"
    using g(2) wf t(2) by (auto simp: rr_promise_def)
  show ?thesis
  proof (cases "rc = NGX_BUSY")
    case True
    have busy: "NGX_BUSY \<noteq> NGX_OK" by (simp add: ngx_rc)
    have "rr_promise st NGX_BUSY (rr_recover (rr_peers st) name st3)"
      by (rule rr_recover_promise) (use p g(2) True wf busy in \<open>auto simp: rr_promise_def Suc_le_eq\<close>)
    with True Some m t g wf show ?thesis by (simp add: rr_fallback_def)
  next
    case False
    then have "rr_promise st rc st3" using g(2) p wf by (auto simp: rr_promise_def)
    with False Some m t g wf show ?thesis by (simp add: rr_fallback_def)
  qed
qed

lemma rr_get_ok:
  assumes "rr_wf0 st" "unat (pc_tries st) = ps_number (rr_set st) \<and> \<not> ps_single (rr_set st) \<or> rr_wf st"
    and "length (rr_sets st) \<le> n + rr_peers st + 1"
  shows "\<exists>rc st'. rr_get n now st = Some (rc, st') \<and> rr_promise st rc st'"
  using assms
proof (induction n arbitrary: st rule: less_induct)
  case (less n st)
  define st0 where "st0 = st\<lparr>pc_cached := False, pc_connection := None\<rparr>"
  have st0: "rr_wf0 st0" "rr_set st0 = rr_set st" "rr_peers st0 = rr_peers st" "rr_sets st0 = rr_sets st" "pc_tries st0 = pc_tries st"
      "rr_wf st \<Longrightarrow> rr_wf st0" "rr_shape st0 = rr_shape st"
    using less.prems(1) by (simp_all add: st0_def rr_wf_def)
  have c0: "ps_last_cached (rr_set st) = 0" "ps_peer (rr_set st) \<noteq> []"
    using rr_wf0_set [OF less.prems(1)] by (simp_all add: set_ok_def)
  show ?case
  proof (cases "ps_single (rr_set st)")
    case True
    with less.prems have wf: "rr_wf st0" using st0 by simp
    obtain t k where "rr_connect (ps_peer (rr_set st) ! 0) st0 = Some (NGX_OK, st0\<lparr>rr_tried := t, pc_tries := k,
        pc_sockaddr := rp_sockaddr (ps_peer (rr_set st) ! 0), pc_name := rp_name (ps_peer (rr_set st) ! 0)\<rparr>)"
        "length t = length (rr_tried st0)"
      using rr_connect_ok [OF wf] by blast
    with True c0 st0 wf show ?thesis
      by (simp add: rr_get.simps [of n] st0_def [symmetric] Let_def rr_promise_def rr_wf_def)
  next
    case False
    let ?first = "unat (pc_tries st) = ps_number (rr_set st)"
    have "0 < rr_iterations (pc_tries st)" by (simp add: rr_iterations_def unat_gt_0)
    then obtain b st' where l: "rr_loop ?first now (rr_iterations (pc_tries st)) st0 = Some (b, st')"
        and k: "rr_keeps st0 st'" and u: "b \<longrightarrow> usable st'"
      using rr_loop_ok [OF st0(1), of ?first "rr_iterations (pc_tries st)" now] less.prems(2) st0(6) by auto
    have wf': "rr_wf st'" "rr_peers st' = rr_peers st" "rr_shape st' = rr_shape st"
      using k st0 by (simp_all add: rr_keeps_def)
    have get: "rr_get n now st = (if b then rr_take st' else rr_fallback n now (ps_name (rr_set st)) st')"
      using rr_get_unfold [OF c0(1) False] l by (simp add: st0_def)
    show ?thesis
    proof (cases b)
      case True
      with rr_take_ok [OF wf'(1)] u get wf' show ?thesis by (auto simp: rr_promise_def rr_keeps_def)
    next
      case False
      with rr_fallback_ok [OF wf' less.prems(3), of now] less.IH get show ?thesis by auto
    qed
  qed
qed

lemma rr_failed_ok: "peer_ok p \<Longrightarrow> peer_ok (rr_failed now p)"
  by (auto simp: peer_ok_def rr_failed_def Let_def)

lemma rr_free_ok:
  assumes "rr_wf st"
  shows "\<exists>st'. ngx_http_upstream_free_round_robin_peer now state st = Some st' \<and> rr_wf st' \<and> rr_shape st' = rr_shape st"
proof -
  note wf = rr_wfD [OF assms]
  have shape: "rr_shape (rr_advance st') = rr_shape st'" for st' by (simp add: rr_advance_def)
  have tries: "rr_wf (st'\<lparr>pc_tries := n\<rparr>) = rr_wf st'" for st' n by (simp add: rr_wf_def)
  have put: "rr_wf (rr_put_peer (rr_current st) (rr_failed now (ps_peer (rr_set st) ! rr_current st)) st)"
    using wf rr_failed_ok by (simp add: rr_wf_def rr_wf0_put_peer)
  have adv: "rr_wf (rr_advance st')" if "rr_wf st'" for st'
    using rr_advance_ok [of st' st'] that by (simp add: rr_keeps_def)
  show ?thesis
    using assms wf(3) adv [OF put] adv [OF assms]
    by (simp add: ngx_http_upstream_free_round_robin_peer_def tries Let_def shape)
qed

lemma rr_init_wf:
  assumes "sets = [main] \<or> sets = [main, backup] \<and> \<not> ps_single backup \<and> \<not> (64 dvd ps_number backup \<and> ps_number main \<le> ps_number backup)"
    and "\<And>ps. ps \<in> set sets \<Longrightarrow> ps_peer ps \<noteq> [] \<and> ps_number ps < 2 ^ 63 \<and> (\<forall>p. p \<in> set (ps_peer ps) \<longrightarrow> peer_ok p) \<and> ps_last_cached ps = 0"
  shows "rr_wf (ngx_http_upstream_init_round_robin_peer sets)"
proof -
  define n where "n = (case rd sets 1 of None \<Rightarrow> ps_number main | Some b \<Rightarrow> if ps_number b > ps_number main then ps_number b else ps_number main)"
  have w: "n \<le> 64 * rr_words n" by (auto simp: rr_words_def)
  have le: "ps_number ps \<le> n" if "ps \<in> set sets" for ps
    using assms(1) that by (auto simp: n_def rd_def)
  have cl: "ps_number backup div 64 + 1 \<le> rr_words n" if "sets = [main, backup]"
  proof (cases "64 dvd ps_number backup")
    case True
    with assms(1) that have "ps_number backup < ps_number main" by (auto simp: not_le)
    then have "n = ps_number main" "ps_number backup < n" using that by (auto simp: n_def rd_def)
    moreover obtain q where "ps_number backup = 64 * q" using True by (auto elim: dvdE)
    ultimately show ?thesis using w by simp
  next
    case False
    have "ps_number backup \<le> 64 * rr_words n" using le [of backup] w that by simp
    moreover from this False have "ps_number backup \<noteq> 64 * rr_words n" by auto
    ultimately have "ps_number backup div 64 < rr_words n" by (simp add: less_mult_imp_div_less mult.commute)
    then show ?thesis by simp
  qed
  have hd: "hd sets = main" using assms(1) by auto
  have ok: "set_ok (rr_words n) ps" if "ps \<in> set sets" for ps
    using assms(2) [OF that] le [OF that] w by (auto simp: set_ok_def)
  let ?st = "ngx_http_upstream_init_round_robin_peer sets"
  have f: "rr_sets ?st = sets" "rr_peers ?st = 0" "rr_current ?st = 0" "rr_tried ?st = replicate (rr_words n) 0"
    by (simp_all add: ngx_http_upstream_init_round_robin_peer_def Let_def hd n_def)
  have "sets \<noteq> []" "ps_peer main \<noteq> []" using assms by auto
  with assms(1) ok cl show ?thesis
    unfolding rr_wf_def rr_wf0_def rr_set_def f by (auto simp: less_Suc_eq f)
qed

section \<open>The configuration of an upstream\<close>

interpretation servers: comparator ngx_http_upstream_cmp_servers "\<lambda>_. True"
  by unfold_locales (auto simp: ngx_http_upstream_cmp_servers_def word_sless_alt split: if_splits)

text \<open>
  Sorting the servers of an upstream: \<^verbatim>\<open>ngx_sort\<close> with
  \<^verbatim>\<open>ngx_http_upstream_cmp_servers\<close> returns a permutation of the servers in descending
  weight order, and servers of equal weight keep their configuration order.
\<close>

theorem sort_servers_stable_descending:
  "mset (ngx_sort True ngx_http_upstream_cmp_servers xs) = mset xs
   \<and> sorted_wrt (\<lambda>a b. rp_weight b \<le>s rp_weight a) (ngx_sort True ngx_http_upstream_cmp_servers xs)
   \<and> filter (\<lambda>a. rp_weight a = w) (ngx_sort True ngx_http_upstream_cmp_servers xs)
     = filter (\<lambda>a. rp_weight a = w) xs"
proof -
  let ?k = "(undefined :: rr_peer)\<lparr>rp_weight := w\<rparr>"
  have "(\<lambda>a b. ngx_http_upstream_cmp_servers a b \<le> 0) = (\<lambda>a b. rp_weight b \<le>s rp_weight a)"
    by (auto simp: ngx_http_upstream_cmp_servers_def fun_eq_iff word_sless_alt word_sle_eq)
  moreover have "(\<lambda>a. ngx_http_upstream_cmp_servers ?k a \<le> 0 \<and> ngx_http_upstream_cmp_servers a ?k \<le> 0)
      = (\<lambda>a. rp_weight a = w)"
    by (auto simp: ngx_http_upstream_cmp_servers_def fun_eq_iff word_sless_alt signed_word_eqI)
  ultimately show ?thesis
    using servers.sort_mset [of xs] servers.sort_sorted [of xs] servers.sort_stable [of xs ?k]
    by (simp_all add: list_all_iff)
qed

lemma sort_peers_set: "mset (ngx_sort alloc ngx_http_upstream_cmp_servers xs) = mset xs"
  using servers.sort_mset [of xs] by (cases alloc) (simp_all add: ngx_sort_def)

lemma sort_peers [simp]:
  "set (ngx_sort alloc ngx_http_upstream_cmp_servers xs) = set xs"
  "length (ngx_sort alloc ngx_http_upstream_cmp_servers xs) = length xs"
  using sort_peers_set [of alloc xs] by (metis set_mset_mset) (metis size_mset sort_peers_set)

text \<open>
  A configuration for which the bitmap is large enough: every weight is positive, as the
  \<^verbatim>\<open>server\<close> directive checks; there is a server that is not a backup server; and the number
  of backup addresses is not a multiple of 64 that is at least the number of the others.
\<close>

definition naddrs :: "bool \<Rightarrow> up_server list \<Rightarrow> nat" where
  "naddrs spare servers = sum_list (map (\<lambda>s. length (us_addrs s)) (filter (\<lambda>s. us_backup s = spare) servers))"

definition servers_ok :: "up_server list \<Rightarrow> bool" where
  "servers_ok servers \<longleftrightarrow> list_all (\<lambda>s. us_weight s \<noteq> 0) servers
     \<and> 0 < naddrs False servers \<and> naddrs False servers < 2 ^ 63 \<and> naddrs True servers < 2 ^ 63
     \<and> (naddrs True servers = 0 \<or> naddrs True servers mod 64 \<noteq> 0 \<or> naddrs True servers < naddrs False servers)"

lemma peers_number [simp]:
  "length (main_peers servers) = naddrs False servers" "length (backup_peers servers) = naddrs True servers"
  by (induction servers) (auto simp: naddrs_def main_peers_def backup_peers_def)

lemma peers_empty [simp]:
  "ngx_sort alloc ngx_http_upstream_cmp_servers xs = [] \<longleftrightarrow> xs = []"
  "main_peers servers = [] \<longleftrightarrow> naddrs False servers = 0" "backup_peers servers = [] \<longleftrightarrow> naddrs True servers = 0"
  by (metis length_0_conv sort_peers(2), metis length_0_conv peers_number(1), metis length_0_conv peers_number(2))

lemma configured_peers_ok:
  assumes "servers_ok servers"
  shows "p \<in> set (main_peers servers) \<Longrightarrow> peer_ok p" "p \<in> set (backup_peers servers) \<Longrightarrow> peer_ok p"
  using assms
  by (auto simp: servers_ok_def list_all_iff main_peers_def backup_peers_def peer_ok_def main_peer_def backup_peer_def
      split: if_splits)

lemma server_sets_wf:
  assumes "servers_ok servers"
  shows "rr_wf (ngx_http_upstream_init_round_robin_peer (server_sets alloc1 alloc2 host servers))"
proof -
  let ?sets = "server_sets alloc1 alloc2 host servers"
  note ok = configured_peers_ok [OF assms]
  have ne: "ps_peer ps \<noteq> []" if "0 < ps_number ps" for ps using that by simp
  have sets: "ps_number ps > 0 \<and> ps_number ps < 2 ^ 63 \<and> (\<forall>p. p \<in> set (ps_peer ps) \<longrightarrow> peer_ok p) \<and> ps_last_cached ps = 0"
    if "ps \<in> set ?sets" for ps
    using that ok assms by (auto simp: server_sets_def Let_def servers_ok_def split: if_splits)
  show ?thesis
  proof (cases "naddrs True servers = 0")
    case True
    then obtain main where "?sets = [main]" by (simp add: server_sets_def Let_def)
    with sets ne show ?thesis by (intro rr_init_wf [where main = main and backup = main]) auto
  next
    case False
    then obtain main backup where s: "?sets = [main, backup]" "\<not> ps_single backup"
        "ps_number main = naddrs False servers" "ps_number backup = naddrs True servers"
      by (simp add: server_sets_def Let_def)
    with sets ne False assms show ?thesis
      by (intro rr_init_wf [where main = main and backup = backup]) (auto simp: servers_ok_def)
  qed
qed

definition sample_server :: "string \<Rightarrow> ngx_int \<Rightarrow> bool \<Rightarrow> bool \<Rightarrow> up_server" where
  "sample_server name w down spare = \<lparr>us_addrs = [([], bytes name)], us_weight = w, us_max_fails = 1,
     us_fail_timeout = 10, us_down = down, us_backup = spare\<rparr>"

abbreviation rr_start :: "up_server list \<Rightarrow> rr_data" where
  "rr_start servers \<equiv> ngx_http_upstream_init_round_robin_peer (server_sets True True [] servers)"

section \<open>What a call does\<close>

text \<open>
  \<^verbatim>\<open>ngx_http_upstream_get_round_robin_peer\<close> keeps the invariant and returns: with a peer
  of the current set that is up and below its limit of failures, whose name it hands to the
  connection; or with \<^verbatim>\<open>NGX_BUSY\<close>, after the failures of every set it went through are
  forgotten. It never leaves its arrays, and it moves to later sets only.
\<close>

theorem round_robin_get_safe:
  assumes "rr_wf st"
  shows "\<exists>rc st'. ngx_http_upstream_get_round_robin_peer now st = Some (rc, st') \<and> rr_promise st rc st'"
  unfolding ngx_http_upstream_get_round_robin_peer_def
  by (rule rr_get_ok) (use assms in \<open>auto simp: rr_wf_def\<close>)

theorem round_robin_get_safe_witness:
  "\<exists>rc st'. ngx_http_upstream_get_round_robin_peer 7 (rr_start [sample_server ''a'' 5 False False, sample_server ''b'' 1 False True])
     = Some (rc, st') \<and> rr_wf st'"
proof -
  have "servers_ok [sample_server ''a'' 5 False False, sample_server ''b'' 1 False True]"
    by (simp add: servers_ok_def naddrs_def sample_server_def)
  from round_robin_get_safe [OF server_sets_wf [OF this]] show ?thesis unfolding rr_promise_def by blast
qed

section \<open>Finding a server that is up\<close>

text \<open>The peer can be connected to now.\<close>

definition live :: "ngx_int \<Rightarrow> rr_peer \<Rightarrow> bool" where
  "live now p \<longleftrightarrow> \<not> rp_down p \<and> (rp_max_fails p = 0 \<or> rp_fails p < rp_max_fails p \<or> rp_fail_timeout p <s now - rp_accessed p)"

text \<open>The peers that the loop can lose an iteration on.\<close>

definition dead_weights :: "ngx_int \<Rightarrow> rr_peer list \<Rightarrow> nat" where
  "dead_weights now ps = length (filter (\<lambda>p. 0 <s rp_current_weight p \<and> \<not> live now p) ps)"

lemma dead_weights_update:
  assumes "n < length ps" "0 <s current_of ps n" "\<not> live now (ps ! n)"
  shows "Suc (dead_weights now (ps[n := (ps ! n)\<lparr>rp_current_weight := 0\<rparr>])) = dead_weights now ps"
proof -
  have "dead_weights now (take n ps @ ps ! n # drop (Suc n) ps) = dead_weights now (take n ps) + 1 + dead_weights now (drop (Suc n) ps)"
    using assms(2,3) by (simp add: dead_weights_def)
  then have "dead_weights now ps = dead_weights now (take n ps) + 1 + dead_weights now (drop (Suc n) ps)"
    unfolding id_take_nth_drop [OF assms(1), symmetric] .
  moreover have "dead_weights now (ps[n := (ps ! n)\<lparr>rp_current_weight := 0\<rparr>]) = dead_weights now (take n ps) + dead_weights now (drop (Suc n) ps)"
    using assms(1) by (simp add: upd_conv_take_nth_drop dead_weights_def)
  ultimately show ?thesis by simp
qed

text \<open>No bit of the bitmap is set; a peer that is down has no weight left; and a live peer has some.\<close>

definition fresh :: "ngx_int \<Rightarrow> rr_data \<Rightarrow> bool" where
  "fresh now st \<longleftrightarrow> (\<forall>w \<in> set (rr_tried st). w = 0)
     \<and> (\<forall>p \<in> set (ps_peer (rr_set st)). rp_down p \<longrightarrow> rp_current_weight p \<le>s 0)
     \<and> (\<exists>p \<in> set (ps_peer (rr_set st)). live now p \<and> 0 <s rp_current_weight p)"

lemma rr_loop_finds:
  assumes "rr_wf0 st" "fresh now st" "dead_weights now (ps_peer (rr_set st)) < i"
    and "dead_weights now (ps_peer (rr_set st)) < unat (pc_tries st)"
  shows "\<exists>st'. rr_loop True now i st = Some (True, st')"
  using assms
proof (induction i arbitrary: st)
  case (Suc i)
  let ?ps = "ps_peer (rr_set st)"
  have ok: "\<forall>p \<in> set ?ps. peer_ok p" "?ps \<noteq> []" using rr_wf0_set [OF Suc.prems(1)] by (simp_all add: set_ok_def)
  have pos: "positive ?ps" using Suc.prems(2) by (auto simp: fresh_def positive_def)
  obtain n where n: "ngx_http_upstream_get_peer ?ps = Some (n, ?ps)" "n < length ?ps" "0 <s current_of ?ps n"
    using get_peer_cases [OF peers_weights_ok [OF ok(1)] ok(2)] pos by auto
  let ?st1 = "(rr_put_peers ?ps st)\<lparr>rr_current := n\<rparr>"
  have pk: "rr_pick st = Some ?st1" using n by (simp add: rr_pick_def)
  have same: "rr_put_peers ?ps st = st" using Suc.prems(1) by (simp add: rr_put_peers_def rr_set_def rr_wf0_def)
  define p where "p = ?ps ! n"
  have wf1: "rr_wf ?st1" using Suc.prems(1) n(2) by (simp add: same rr_wf_def)
  note w1 = rr_wfD [OF wf1]
  have down: "\<not> rp_down p" using Suc.prems(2) n(2,3) not_sle_0 nth_mem unfolding fresh_def p_def by metis
  have bit: "rd (rr_tried st) (n div 64) = Some 0"
    using w1(4) Suc.prems(2) by (simp add: same fresh_def)
  have rd: "rd ?ps n = Some p" using n(2) by (simp add: p_def)
  show ?case
  proof (cases "live now p")
    case True
    then show ?thesis using pk bit rd down
      by (auto simp: rr_probe_def same live_def)
  next
    case False
    define q where "q = p\<lparr>rp_current_weight := 0\<rparr>"
    define st3 where "st3 = (rr_put_peer n q (st\<lparr>rr_current := n\<rparr>))\<lparr>pc_tries := pc_tries st - 1\<rparr>"
    have pb: "rr_probe now ?st1 = Some (False, st3)"
      using False bit rd down by (auto simp: rr_probe_def same live_def q_def st3_def)
    have rp: "rr_peers st < length (rr_sets st)" using Suc.prems(1) by (simp add: rr_wf0_def)
    have ps3: "ps_peer (rr_set st3) = ?ps[n := q]" using rp by (simp add: st3_def)
    have d: "Suc (dead_weights now (?ps[n := q])) = dead_weights now ?ps"
      using dead_weights_update [OF n(2,3)] False by (simp add: q_def p_def)
    have t: "unat (pc_tries st3) = unat (pc_tries st) - 1" using Suc.prems(4) by (simp add: st3_def unat_sub word_le_nat_alt)
    have "peer_ok q" using ok(1) n(2) by (auto simp: q_def p_def peer_ok_def)
    then have wf3: "rr_wf0 st3" using Suc.prems(1) by (simp add: st3_def rr_wf0_put_peer)
    obtain l where l: "l \<in> set ?ps" "live now l" "0 <s rp_current_weight l" using Suc.prems(2) by (auto simp: fresh_def)
    then obtain j where j: "j < length ?ps" "?ps ! j = l" by (auto simp: in_set_conv_nth)
    then have "j \<noteq> n" using False l by (auto simp: p_def)
    then have "l \<in> set (?ps[n := q])" using j by (metis length_list_update nth_list_update_neq nth_mem)
    moreover have "rp_current_weight x \<le>s 0" if "x \<in> set (?ps[n := q])" "rp_down x" for x
      using that set_update_subset_insert [of ?ps n q] Suc.prems(2) by (auto simp: fresh_def q_def)
    ultimately have fresh: "fresh now st3" using Suc.prems(2) l by (auto simp: fresh_def ps3) (simp add: st3_def)
    have "dead_weights now (ps_peer (rr_set st3)) < i" "dead_weights now (ps_peer (rr_set st3)) < unat (pc_tries st3)"
      using Suc.prems(3,4) d t by (simp_all add: ps3)
    with Suc.IH [OF wf3 fresh] have "\<exists>st'. rr_loop True now i st3 = Some (True, st')" by blast
    moreover have "pc_tries st3 \<noteq> 0" using t Suc.prems(4) d by (auto simp: unat_eq_0 dest!: arg_cong [where f = unat])
    ultimately show ?thesis using pk pb by (simp add: Let_def)
  qed
qed simp

text \<open>
  C16. A server that is up is found: at the first try of a request, when no server that is down
  has weight left and some live server has, the call returns \<^verbatim>\<open>NGX_OK\<close> with a live server of
  the same set, however many of the others have failed; the backup servers are not used.
\<close>

theorem round_robin_finds_server:
  assumes "rr_wf st" "\<not> ps_single (rr_set st)" "pc_tries st = of_nat (ps_number (rr_set st))" "fresh now st"
  shows "\<exists>st'. ngx_http_upstream_get_round_robin_peer now st = Some (NGX_OK, st') \<and> rr_peers st' = rr_peers st \<and> usable st'
    \<and> pc_name st' = rp_name (ps_peer (rr_set st') ! rr_current st')"
proof -
  let ?ps = "ps_peer (rr_set st)" and ?st = "st\<lparr>pc_cached := False, pc_connection := None\<rparr>"
  have so: "set_ok (length (rr_tried st)) (rr_set st)" using rr_wf0_set rr_wfD(1) [OF assms(1)] by blast
  then have c0: "ps_last_cached (rr_set st) = 0" and tries: "unat (pc_tries st) = length ?ps"
    using assms(3) by (auto simp: set_ok_def unat_of_nat)
  obtain p where "p \<in> set ?ps" "live now p" using assms(4) by (auto simp: fresh_def)
  then have d: "dead_weights now ?ps < length ?ps" unfolding dead_weights_def by (intro length_filter_less [of p]) auto
  then have it: "dead_weights now ?ps < rr_iterations (pc_tries st)" using tries by (auto simp: rr_iterations_def)
  have "rr_wf0 ?st" "fresh now ?st" "0 < rr_iterations (pc_tries st)"
    using assms(1,4) it by (simp_all add: rr_wf_def fresh_def)
  then obtain st' where l: "rr_loop True now (rr_iterations (pc_tries st)) ?st = Some (True, st')" "rr_keeps ?st st'" "usable st'"
    using rr_loop_finds [of ?st now "rr_iterations (pc_tries st)"] rr_loop_ok [of ?st True "rr_iterations (pc_tries st)" now] it d tries by force
  have "rr_wf st'" "rr_peers st' = rr_peers st" using l(2) by (simp_all add: rr_keeps_def)
  with rr_take_ok [of st'] l(3) rr_get_unfold [OF c0 assms(2), of "length (rr_sets st)" now] l(1) tries show ?thesis
    by (auto simp: ngx_http_upstream_get_round_robin_peer_def rr_keeps_def)
qed

theorem round_robin_finds_server_witness:
  "\<exists>st'. ngx_http_upstream_get_round_robin_peer 7 (rr_start [sample_server ''a'' 5 False False, sample_server ''b'' 1 True False])
     = Some (NGX_OK, st') \<and> rr_peers st' = 0 \<and> usable st'"
proof -
  let ?servers = "[sample_server ''a'' 5 False False, sample_server ''b'' 1 True False]"
  have "servers_ok ?servers" by (simp add: servers_ok_def naddrs_def sample_server_def)
  moreover have "\<not> ps_single (rr_set (rr_start ?servers))" by code_simp
  moreover have "pc_tries (rr_start ?servers) = of_nat (ps_number (rr_set (rr_start ?servers)))" by code_simp
  moreover have "fresh 7 (rr_start ?servers)" by code_simp
  moreover have "rr_peers (rr_start ?servers) = 0" by code_simp
  ultimately show ?thesis using round_robin_finds_server [OF server_sets_wf, of ?servers True True "[]" 7] by auto
qed

section \<open>Where the configuration breaks the invariant\<close>


lemma rr_words_Suc: "\<exists>k. replicate (rr_words n) (0 :: 64 word) = 0 # replicate k 0"
proof -
  have "0 < rr_words n" by (auto simp: rr_words_def)
  then show ?thesis by (cases "rr_words n") auto
qed

text \<open>
  An upstream whose servers are all backup servers is accepted, with an array of no peers, and
  every first try of a request reads a peer past it.
\<close>

theorem backup_only_reads_past:
  assumes "naddrs False servers = 0" "naddrs True servers \<noteq> 0"
  shows "ngx_http_upstream_get_round_robin_peer now
    (ngx_http_upstream_init_round_robin_peer (server_sets alloc1 alloc2 host servers)) = None"
proof -
  obtain backup where s: "server_sets alloc1 alloc2 host servers =
      [\<lparr>ps_single = False, ps_last_cached = 0, ps_cached = [], ps_name = host, ps_peer = []\<rparr>, backup]"
    using assms by (simp add: server_sets_def Let_def)
  let ?st = "ngx_http_upstream_init_round_robin_peer (server_sets alloc1 alloc2 host servers)"
  have st: "rr_set ?st = \<lparr>ps_single = False, ps_last_cached = 0, ps_cached = [], ps_name = host, ps_peer = []\<rparr>"
      "rr_current ?st = 0" "pc_tries ?st = 0" "\<exists>k. rr_tried ?st = replicate (Suc k) 0" "rr_peers ?st < length (rr_sets ?st)"
    using rr_words_Suc by (simp_all add: s ngx_http_upstream_init_round_robin_peer_def Let_def rr_set_def)
  let ?upd = "?st\<lparr>pc_cached := False, pc_connection := None\<rparr>"
  have "ngx_http_upstream_get_peer [] = Some (0, [])"
    by (simp add: ngx_http_upstream_get_peer_def get_peer_pass.simps Let_def)
  then have pk: "rr_pick ?upd = Some ((rr_put_peers [] ?upd)\<lparr>rr_current := 0\<rparr>)" using st by (simp add: rr_pick_def)
  have pb: "rr_probe now ((rr_put_peers [] ?upd)\<lparr>rr_current := 0\<rparr>) = None" using st by (auto simp: rr_probe_def)
  have it: "rr_iterations (pc_tries ?st) = Suc (2 ^ 64 - 1)" "unat (pc_tries ?st) = ps_number (rr_set ?st)"
    using st by (simp_all add: rr_iterations_def)
  have lp: "rr_loop True now (Suc k) ?upd = None" for k using pk pb by simp
  show ?thesis
    unfolding ngx_http_upstream_get_round_robin_peer_def
    by (subst rr_get_unfold) (simp add: st, simp add: st, simp only: it lp simp_thms option.case)
qed

theorem backup_only_reads_past_witness:
  "ngx_http_upstream_get_round_robin_peer 0 (rr_start [sample_server ''c'' 1 False True]) = None"
  by (rule backup_only_reads_past) (simp_all add: naddrs_def sample_server_def)


end
