(* ===== verification/Ngx_Upstream.thy ===== *)
theory Ngx_Upstream
  imports Ngx_Round_Robin
begin

text \<open>
  The choice of an upstream server by the address of the client,
  \<^verbatim>\<open>src/http/modules/ngx_http_upstream_ip_hash_module.c\<close>, and the requests of a worker
  that share the peers of an upstream: each request has its own bitmap and counters, and the
  calls of the requests interleave on the shared weights and failure counts. The locale
  \<open>peer_method\<close> states what a method of choice promises; it is interpreted on round robin and on the hash
  of the address.
\<close>

section \<open>The hash of the address\<close>

record iphp_data =
  ih_rrp :: rr_data
  ih_hash :: ngx_uint
  ih_addr :: "ngx_str"
  ih_tries :: "8 word"

text \<open>The address of the client: \<open>Some\<close> the four bytes of an IPv4 address.\<close>

definition ngx_http_upstream_init_ip_hash_peer :: "ngx_str option \<Rightarrow> rr_peers list \<Rightarrow> iphp_data" where
  "ngx_http_upstream_init_ip_hash_peer sin_addr sets =
     \<lparr>ih_rrp = ngx_http_upstream_init_round_robin_peer sets, ih_hash = 89,
      ih_addr = (case sin_addr of Some p \<Rightarrow> take 3 p | None \<Rightarrow> [0, 0, 0]), ih_tries = 0\<rparr>"

text \<open>\<^verbatim>\<open>for (i = 0; i < 3; i++) hash = (hash * 113 + iphp->addr[i]) % 6271\<close>\<close>

definition ip_hash_round :: "ngx_str \<Rightarrow> ngx_uint \<Rightarrow> ngx_uint" where
  "ip_hash_round addr hash = foldl (\<lambda>h a. (h * 113 + ucast a) mod 6271) hash addr"

text \<open>Is the peer \<open>p\<close> one to connect to? \<open>True\<close> is the \<^verbatim>\<open>break\<close>.\<close>

definition ip_hash_probe :: "ngx_int \<Rightarrow> nat \<Rightarrow> rr_data \<Rightarrow> (bool \<times> rr_data) option" where
  "ip_hash_probe now p st =
     (case rd (rr_tried st) (p div 64) of
        None \<Rightarrow> None
      | Some w \<Rightarrow>
          if w AND rr_mask p \<noteq> 0 then Some (False, st)
          else
            (case rd (ps_peer (rr_set st)) p of
               None \<Rightarrow> None
             | Some peer \<Rightarrow>
                 if \<not> rp_down peer \<and> (rp_max_fails peer = 0 \<or> rp_fails peer < rp_max_fails peer) then Some (True, st)
                 else if \<not> rp_down peer \<and> rp_fail_timeout peer <s now - rp_accessed peer
                 then Some (True, rr_put_peer p (peer\<lparr>rp_fails := 0\<rparr>) st)
                 else map_option (\<lambda>st. (False, st\<lparr>pc_tries := pc_tries st - 1\<rparr>)) (rr_mark p st)))"

text \<open>After the loop.\<close>

definition ip_hash_take :: "nat \<Rightarrow> ngx_uint \<Rightarrow> iphp_data \<Rightarrow> (ngx_int \<times> iphp_data) option" where
  "ip_hash_take p hash d =
     (case rd (ps_peer (rr_set (ih_rrp d))) p of
        None \<Rightarrow> None
      | Some peer \<Rightarrow>
          map_option (\<lambda>st. (NGX_OK, d\<lparr>ih_rrp := st, ih_hash := hash\<rparr>))
            (rr_mark p ((ih_rrp d)\<lparr>rr_current := p, pc_sockaddr := rp_sockaddr peer, pc_name := rp_name peer\<rparr>)))"

definition ip_hash_get_rr :: "ngx_int \<Rightarrow> iphp_data \<Rightarrow> (ngx_int \<times> iphp_data) option" where
  "ip_hash_get_rr now d =
     map_option (\<lambda>(rc, st). (rc, d\<lparr>ih_rrp := st\<rparr>)) (ngx_http_upstream_get_round_robin_peer now (ih_rrp d))"

function ip_hash_loop :: "ngx_int \<Rightarrow> ngx_uint \<Rightarrow> iphp_data \<Rightarrow> (ngx_int \<times> iphp_data) option" where
  "ip_hash_loop now hash d =
     (let hash = ip_hash_round (ih_addr d) hash;
          number = ps_number (rr_set (ih_rrp d))
      in if number = 0 then None
         else
           let p = unat hash mod number
           in case ip_hash_probe now p (ih_rrp d) of
                None \<Rightarrow> None
              | Some (found, st) \<Rightarrow>
                  if found then ip_hash_take p hash (d\<lparr>ih_rrp := st\<rparr>)
                  else if ih_tries d + 1 \<ge> 20
                  then ip_hash_get_rr now (d\<lparr>ih_rrp := st, ih_tries := ih_tries d + 1\<rparr>)
                  else ip_hash_loop now hash (d\<lparr>ih_rrp := st, ih_tries := ih_tries d + 1\<rparr>))"
  by pat_completeness auto

lemma ip_tries_decrease:
  assumes "\<not> 20 \<le> (t :: 8 word) + 1"
  shows "20 - unat (2 + t) < 20 - unat (t + 1)"
proof -
  have "unat (t + 1) < 20" using assms by (simp add: not_le word_less_nat_alt)
  moreover from this have "unat (t + 1 + 1) = unat (t + 1) + 1" by (subst unat_word_ariths(1)) simp
  moreover have "t + 1 + 1 = 2 + t" by simp
  ultimately show ?thesis by (metis diff_less_mono2 less_add_one)
qed

termination ip_hash_loop
  by (relation "measure (\<lambda>(now, hash, d). 20 - unat (ih_tries d + 1))") (auto simp: ip_tries_decrease)

declare ip_hash_loop.simps [simp del]

definition ngx_http_upstream_get_ip_hash_peer :: "ngx_int \<Rightarrow> iphp_data \<Rightarrow> (ngx_int \<times> iphp_data) option" where
  "ngx_http_upstream_get_ip_hash_peer now d =
     (if ih_tries d > 20 \<or> ps_single (rr_set (ih_rrp d)) then ip_hash_get_rr now d
      else ip_hash_loop now (ih_hash d) (d\<lparr>ih_rrp := (ih_rrp d)\<lparr>pc_cached := False, pc_connection := None\<rparr>\<rparr>))"


section \<open>Requests that share the peers\<close>

text \<open>
  The calls that the requests of a worker make: a request starts, asks for a peer, or gives its
  peer back. The state holds the shared peer sets and the data of each request; a request
  works on the shared sets. A call of a request that was not started changes nothing.
\<close>

datatype 'a peer_call = Start 'a | Get nat ngx_int | Free nat ngx_int ngx_uint

type_synonym 'd peer_world = "rr_peers list \<times> 'd list"

fun peer_step ::
    "('a \<Rightarrow> rr_peers list \<Rightarrow> 'd) \<Rightarrow> (ngx_int \<Rightarrow> 'd \<Rightarrow> (ngx_int \<times> 'd) option) \<Rightarrow> (ngx_int \<Rightarrow> ngx_uint \<Rightarrow> 'd \<Rightarrow> 'd option)
     \<Rightarrow> ('d \<Rightarrow> rr_peers list) \<Rightarrow> (rr_peers list \<Rightarrow> 'd \<Rightarrow> 'd) \<Rightarrow> 'a peer_call \<Rightarrow> 'd peer_world \<Rightarrow> 'd peer_world option" where
  "peer_step init get free sets put (Start a) (shared, reqs) = Some (shared, reqs @ [init a shared])"
| "peer_step init get free sets put (Get i now) (shared, reqs) =
     (if i < length reqs
      then map_option (\<lambda>(rc, d). (sets d, reqs[i := d])) (get now (put shared (reqs ! i)))
      else Some (shared, reqs))"
| "peer_step init get free sets put (Free i now state) (shared, reqs) =
     (if i < length reqs
      then map_option (\<lambda>d. (sets d, reqs[i := d])) (free now state (put shared (reqs ! i)))
      else Some (shared, reqs))"

text \<open>The contract of a method of choice: what its data keeps, whatever the calls are.\<close>

locale peer_method =
  fixes init :: "'a \<Rightarrow> rr_peers list \<Rightarrow> 'd"
    and get :: "ngx_int \<Rightarrow> 'd \<Rightarrow> (ngx_int \<times> 'd) option"
    and free :: "ngx_int \<Rightarrow> ngx_uint \<Rightarrow> 'd \<Rightarrow> 'd option"
    and sets :: "'d \<Rightarrow> rr_peers list"
    and put :: "rr_peers list \<Rightarrow> 'd \<Rightarrow> 'd"
    and ok :: "'d \<Rightarrow> bool"
    and shape :: "'d \<Rightarrow> nat \<times> nat list"
  assumes get_ok: "ok d \<Longrightarrow> \<exists>rc d'. get now d = Some (rc, d') \<and> ok d' \<and> shape d' = shape d"
    and free_ok: "ok d \<Longrightarrow> \<exists>d'. free now state d = Some d' \<and> ok d' \<and> shape d' = shape d"
    and put_ok: "ok d \<Longrightarrow> ok e \<Longrightarrow> shape d = shape e \<Longrightarrow> ok (put (sets e) d)"
    and put_sets: "sets (put s d) = s" "put (sets d) d = d" "put s (put t d) = put s d" "sets (init a s) = s"
    and put_shape: "map ps_number (sets d) = map ps_number s \<Longrightarrow> shape (put s d) = shape d"
    and shape_sets: "snd (shape d) = map ps_number (sets d)"
    and put_init: "map ps_number s = map ps_number t \<Longrightarrow> put s (init a t) = init a s"
begin

text \<open>A request's data with the shared sets is in order and has the sizes of a new request's.\<close>

definition fits :: "rr_peers list \<Rightarrow> 'd \<Rightarrow> bool" where
  "fits shared d \<longleftrightarrow> ok (put shared d) \<and> (\<forall>a. shape (put shared d) = shape (init a shared))"

definition world_ok :: "'d peer_world \<Rightarrow> bool" where
  "world_ok w \<longleftrightarrow> (\<forall>a. fits (fst w) (init a (fst w))) \<and> (\<forall>d \<in> set (snd w). fits (fst w) d)"

lemma shape_numbers: "shape d = shape e \<Longrightarrow> map ps_number (sets d) = map ps_number (sets e)"
  using shape_sets [of d] shape_sets [of e] by simp

lemma fits_moves:
  assumes "fits shared d" "fits shared e" "ok e'" "shape e' = shape (put shared e)"
  shows "fits (sets e') d"
proof -
  have num: "map ps_number (sets e') = map ps_number shared"
    using shape_numbers [OF assms(4)] by (simp add: put_sets)
  have sh: "shape (put shared d) = shape e'" using assms(1,2,4) by (simp add: fits_def)
  have "ok (put (sets e') (put shared d))" using put_ok [OF _ assms(3) sh] assms(1) by (simp add: fits_def)
  then have "ok (put (sets e') d)" by (simp add: put_sets)
  moreover have "shape (put (sets e') d) = shape (init a (sets e'))" for a
  proof -
    have "shape (put (sets e') (put shared d)) = shape (put shared d)" by (rule put_shape) (simp add: put_sets num)
    moreover have "shape (init a (sets e')) = shape (init a shared)"
      using put_shape [of "init a shared" "sets e'"] put_init [of "sets e'" shared a] num by (simp add: put_sets)
    ultimately show ?thesis using assms(1) by (simp add: fits_def put_sets)
  qed
  ultimately show ?thesis by (simp add: fits_def)
qed

lemma fits_init_moves: "map ps_number s = map ps_number shared \<Longrightarrow> fits s (init a shared) \<Longrightarrow> fits s (init a s)"
  using put_init [of s shared a] put_sets by (simp add: fits_def) (metis put_sets(2,4))

lemma world_moves:
  assumes "world_ok (shared, reqs)" "i < length reqs" "ok d'" "shape d' = shape (put shared (reqs ! i))"
  shows "world_ok (sets d', reqs[i := d'])"
proof -
  have f: "fits shared (reqs ! i)" using assms(1,2) by (simp add: world_ok_def)
  have num: "map ps_number (sets d') = map ps_number shared"
    using shape_numbers [OF assms(4)] by (simp add: put_sets)
  have all: "fits (sets d') d" if "d \<in> set reqs" for d
    using fits_moves [OF _ f assms(3,4)] assms(1) that by (simp add: world_ok_def)
  have init: "fits (sets d') (init a (sets d'))" for a
    using fits_init_moves [OF num, of a] fits_moves [OF _ f assms(3,4), of "init a shared"] assms(1) by (simp add: world_ok_def)
  have "shape d' = shape (init a (sets d'))" for a
    using fits_moves [OF f f assms(3,4)] assms(4) put_shape [of "reqs ! i" "sets d'"] f init
    by (metis fits_def put_sets(1) put_sets(3) put_shape num)
  then have "fits (sets d') d'" using assms(3) by (simp add: fits_def put_sets)
  with all init set_update_subset_insert [of reqs i d'] show ?thesis by (auto simp: world_ok_def)
qed

lemma step_ok:
  assumes "world_ok w"
  shows "\<exists>w'. peer_step init get free sets put c w = Some w' \<and> world_ok w'"
proof (cases c)
  case (Start a)
  with assms show ?thesis by (cases w) (auto simp: world_ok_def)
next
  case (Get i now)
  obtain shared reqs where w: "w = (shared, reqs)" by (cases w)
  show ?thesis
  proof (cases "i < length reqs")
    case True
    then have "ok (put shared (reqs ! i))" using assms by (simp add: w world_ok_def fits_def)
    with get_ok [of "put shared (reqs ! i)" now] world_moves [OF assms [unfolded w] True] Get True show ?thesis
      by (auto simp: w)
  qed (use assms Get w in simp)
next
  case (Free i now state)
  obtain shared reqs where w: "w = (shared, reqs)" by (cases w)
  show ?thesis
  proof (cases "i < length reqs")
    case True
    then have "ok (put shared (reqs ! i))" using assms by (simp add: w world_ok_def fits_def)
    with free_ok [of "put shared (reqs ! i)" now state] world_moves [OF assms [unfolded w] True] Free True show ?thesis
      by (auto simp: w)
  qed (use assms Free w in simp)
qed

end

primrec peer_run ::
    "('a \<Rightarrow> rr_peers list \<Rightarrow> 'd) \<Rightarrow> (ngx_int \<Rightarrow> 'd \<Rightarrow> (ngx_int \<times> 'd) option) \<Rightarrow> (ngx_int \<Rightarrow> ngx_uint \<Rightarrow> 'd \<Rightarrow> 'd option)
     \<Rightarrow> ('d \<Rightarrow> rr_peers list) \<Rightarrow> (rr_peers list \<Rightarrow> 'd \<Rightarrow> 'd) \<Rightarrow> 'a peer_call list \<Rightarrow> 'd peer_world \<Rightarrow> 'd peer_world option" where
  "peer_run init get free sets put [] w = Some w"
| "peer_run init get free sets put (c # cs) w =
     Option.bind (peer_step init get free sets put c w) (peer_run init get free sets put cs)"

context peer_method
begin

lemma run_world_ok: "world_ok w \<Longrightarrow> \<exists>w'. peer_run init get free sets put cs w = Some w' \<and> world_ok w'"
proof (induction cs arbitrary: w)
  case (Cons c cs)
  from step_ok [OF Cons.prems, of c] obtain w' where "peer_step init get free sets put c w = Some w'" "world_ok w'" by blast
  with Cons.IH show ?case by auto
qed simp

lemma run_ok:
  assumes "\<And>a. ok (init a shared)" "\<And>a b. shape (init a shared) = shape (init b shared)"
  shows "\<exists>shared' reqs. peer_run init get free sets put cs (shared, []) = Some (shared', reqs)
    \<and> (\<forall>d. d \<in> set reqs \<longrightarrow> ok (put shared' d))"
proof -
  have "put shared (init a shared) = init a shared" for a using put_sets by metis
  then have "world_ok (shared, [])" using assms by (simp add: world_ok_def fits_def)
  from run_world_ok [OF this] show ?thesis by (force simp: world_ok_def fits_def)
qed

end

section \<open>Round robin as a method\<close>

definition rr_put_sets :: "rr_peers list \<Rightarrow> rr_data \<Rightarrow> rr_data" where
  "rr_put_sets s st = st\<lparr>rr_sets := s\<rparr>"

lemma same_numbers:
  "map ps_number s = map ps_number t \<Longrightarrow> k < length s \<Longrightarrow> ps_number (s ! k) = ps_number (t ! k)"
  by (metis length_map nth_map)

lemma rr_put_sets_wf:
  assumes "rr_wf d" "rr_wf e" "rr_shape d = rr_shape e"
  shows "rr_wf (rr_put_sets (rr_sets e) d)"
proof -
  have len: "length (rr_sets d) = length (rr_sets e)" "length (rr_tried d) = length (rr_tried e)"
    and num: "map ps_number (rr_sets d) = map ps_number (rr_sets e)"
    using assms(3) rr_shape_sets [OF assms(3)] by (simp_all add: rr_shape_def)
  have "ps_number (rr_sets d ! rr_peers d) = ps_number (rr_sets e ! rr_peers d)"
    by (rule same_numbers [OF num]) (use assms(1) in \<open>simp add: rr_wf_def rr_wf0_def\<close>)
  then show ?thesis using assms(1,2) len by (simp add: rr_wf_def rr_wf0_def rr_put_sets_def rr_set_def)
qed

lemma rr_put_sets_init:
  assumes "map ps_number s = map ps_number t"
  shows "rr_put_sets s (ngx_http_upstream_init_round_robin_peer t) = ngx_http_upstream_init_round_robin_peer s"
proof -
  have hd: "ps_number (hd s) = ps_number (hd t)" using assms by (cases s; cases t) auto
  have len: "length s = length t" using assms map_eq_imp_length_eq by blast
  have "ps_number (s ! 1) = ps_number (t ! 1)" if "1 < length t" using same_numbers [OF assms, of 1] that len by simp
  then show ?thesis
    using hd len by (simp add: rr_put_sets_def ngx_http_upstream_init_round_robin_peer_def Let_def rd_def)
qed

interpretation rr: peer_method "\<lambda>u :: unit. ngx_http_upstream_init_round_robin_peer" ngx_http_upstream_get_round_robin_peer
    ngx_http_upstream_free_round_robin_peer rr_sets rr_put_sets rr_wf rr_shape
proof unfold_locales
  fix d e :: rr_data and s t :: "rr_peers list" and now :: ngx_int and state :: ngx_uint and u :: unit
  show "\<exists>rc d'. ngx_http_upstream_get_round_robin_peer now d = Some (rc, d') \<and> rr_wf d' \<and> rr_shape d' = rr_shape d" if "rr_wf d"
    using rr_get_ok [of d "length (rr_sets d)" now] that
    by (auto simp: ngx_http_upstream_get_round_robin_peer_def rr_promise_def rr_wf_def)
  show "\<exists>d'. ngx_http_upstream_free_round_robin_peer now state d = Some d' \<and> rr_wf d' \<and> rr_shape d' = rr_shape d" if "rr_wf d"
    by (rule rr_free_ok [OF that])
  show "rr_wf (rr_put_sets (rr_sets e) d)" if "rr_wf d" "rr_wf e" "rr_shape d = rr_shape e" by (rule rr_put_sets_wf [OF that])
  show "rr_put_sets s (ngx_http_upstream_init_round_robin_peer t) = ngx_http_upstream_init_round_robin_peer s"
    if "map ps_number s = map ps_number t" by (rule rr_put_sets_init [OF that])
qed (auto simp: rr_put_sets_def rr_shape_def ngx_http_upstream_init_round_robin_peer_def Let_def)

text \<open>
  C15. However the requests of a worker interleave: with the peers of a configuration that is in
  order, every sequence of starts, gets and frees of any number of requests runs to its end
  without leaving an array, and keeps the invariant of every request over the shared peers.
\<close>

theorem round_robin_requests_safe:
  assumes "servers_ok servers"
  shows "\<exists>shared reqs. peer_run (\<lambda>u :: unit. ngx_http_upstream_init_round_robin_peer) ngx_http_upstream_get_round_robin_peer
      ngx_http_upstream_free_round_robin_peer rr_sets rr_put_sets calls (server_sets alloc1 alloc2 host servers, [])
        = Some (shared, reqs)
    \<and> (\<forall>d. d \<in> set reqs \<longrightarrow> rr_wf (rr_put_sets shared d))"
  by (rule rr.run_ok) (use server_sets_wf [OF assms] in simp_all)

theorem round_robin_requests_safe_witness:
  "\<exists>shared reqs. peer_run (\<lambda>u :: unit. ngx_http_upstream_init_round_robin_peer) ngx_http_upstream_get_round_robin_peer
      ngx_http_upstream_free_round_robin_peer rr_sets rr_put_sets [Start (), Start (), Get 0 1, Get 1 1, Free 0 2 4, Get 0 2]
      (server_sets True True [] [sample_server ''a'' 5 False False, sample_server ''b'' 1 False True], []) = Some (shared, reqs)"
proof -
  have "servers_ok [sample_server ''a'' 5 False False, sample_server ''b'' 1 False True]"
    by (simp add: servers_ok_def naddrs_def sample_server_def)
  from round_robin_requests_safe [OF this] show ?thesis by blast
qed

section \<open>The hash of the address as a method\<close>


abbreviation ip_sets :: "iphp_data \<Rightarrow> rr_peers list" where "ip_sets d \<equiv> rr_sets (ih_rrp d)"










text \<open>
  Clients of one network of 256 addresses get the same server: the first call for a request
  chooses the server at the hash of the first three bytes of the address, whenever that
  server is up and below its limit of failures, and tries nothing else.
\<close>

theorem ip_hash_first_choice:
  assumes "rr_wf (ngx_http_upstream_init_round_robin_peer sets)" "\<not> ps_single (hd sets)"
    and "p = unat (ip_hash_round (take 3 addr) 89) mod ps_number (hd sets)"
    and "\<not> rp_down (ps_peer (hd sets) ! p)"
    and "rp_max_fails (ps_peer (hd sets) ! p) = 0 \<or> rp_fails (ps_peer (hd sets) ! p) < rp_max_fails (ps_peer (hd sets) ! p)"
  shows "\<exists>d. ngx_http_upstream_get_ip_hash_peer now (ngx_http_upstream_init_ip_hash_peer (Some addr) sets) = Some (NGX_OK, d)
    \<and> rr_current (ih_rrp d) = p \<and> pc_name (ih_rrp d) = rp_name (ps_peer (hd sets) ! p) \<and> ip_sets d = sets"
proof -
  let ?d = "ngx_http_upstream_init_ip_hash_peer (Some addr) sets"
  let ?r = "(ngx_http_upstream_init_round_robin_peer sets)\<lparr>pc_cached := False, pc_connection := None\<rparr>"
  have wf: "rr_wf ?r" using assms(1) by (simp add: rr_wf_def)
  have "sets \<noteq> []" using assms(1) by (auto simp: rr_wf_def rr_wf0_def ngx_http_upstream_init_round_robin_peer_def Let_def)
  then have set: "rr_set (ngx_http_upstream_init_round_robin_peer sets) = hd sets"
      "rr_sets (ngx_http_upstream_init_round_robin_peer sets) = sets"
    by (simp_all add: rr_set_def ngx_http_upstream_init_round_robin_peer_def Let_def hd_conv_nth)
  have n: "0 < ps_number (hd sets)" using rr_wfD(3) [OF assms(1)] unfolding set by (rule le_less_trans [OF le0])
  then have p: "p < ps_number (hd sets)" unfolding assms(3) by (rule mod_less_divisor)
  have "p div 64 < length (rr_tried ?r)"
    using rr_wfD(4) [of "?r\<lparr>rr_current := p\<rparr>"] wf p set by (simp add: rr_wf_def)
  then have t: "rd (rr_tried ?r) (p div 64) = Some 0"
    by (simp add: ngx_http_upstream_init_round_robin_peer_def Let_def)
  have probe: "ip_hash_probe now p ?r = Some (True, ?r)"
    unfolding ip_hash_probe_def t using assms(4,5) p set by auto
  have loop: "ngx_http_upstream_get_ip_hash_peer now ?d =
      ip_hash_take p (ip_hash_round (take 3 addr) 89) (?d\<lparr>ih_rrp := ?r\<rparr>)"
    using assms(2) n probe set assms(3)
    by (simp add: ngx_http_upstream_get_ip_hash_peer_def ngx_http_upstream_init_ip_hash_peer_def ip_hash_loop.simps Let_def)
  show ?thesis unfolding loop ip_hash_take_def
    using p set t by (simp add: rr_mark_def)
qed

theorem ip_hash_first_choice_witness:
  "\<exists>d. ngx_http_upstream_get_ip_hash_peer 0 (ngx_http_upstream_init_ip_hash_peer (Some [10, 0, 0, 77])
      (server_sets True True [] [sample_server ''a'' 1 False False, sample_server ''b'' 1 False False])) = Some (NGX_OK, d)
    \<and> rr_current (ih_rrp d) = 1"
proof -
  let ?sets = "server_sets True True [] [sample_server ''a'' 1 False False, sample_server ''b'' 1 False False]"
  have ok: "servers_ok [sample_server ''a'' 1 False False, sample_server ''b'' 1 False False]"
    by (simp add: servers_ok_def naddrs_def sample_server_def)
  have "ip_hash_round [10, 0, 0] 89 = 2565" by code_simp
  moreover have n: "ps_number (hd ?sets) = 2" by code_simp
  ultimately have p: "1 = unat (ip_hash_round (take 3 [10, 0, 0, 77]) 89) mod ps_number (hd ?sets)" by simp
  have "\<not> ps_single (hd ?sets)" "\<not> rp_down (ps_peer (hd ?sets) ! 1)"
      "rp_fails (ps_peer (hd ?sets) ! 1) < rp_max_fails (ps_peer (hd ?sets) ! 1)" by code_simp+
  with ip_hash_first_choice [OF server_sets_wf [OF ok] _ p, of 0] show ?thesis by blast
qed

end
