(* ===== verification/Ngx_Queue.thy ===== *)
theory Ngx_Queue
  imports Ngx_Sort
begin

text \<open>
  The doubly linked queue of \<^verbatim>\<open>src/core/ngx_queue.h\<close> and \<^verbatim>\<open>ngx_queue.c\<close> on an explicit heap
  of links: the macros with their assignments in order, the search of the middle element and the
  stable insertion sort. \<open>is_queue h s xs\<close> is the abstraction: in the heap \<open>h\<close> the queue with the
  sentinel \<open>s\<close> holds the elements \<open>xs\<close>. Every operation refines one on lists.
\<close>

section \<open>Definitions\<close>

record 'a links =
  prev :: "'a \<Rightarrow> 'a"
  nxt :: "'a \<Rightarrow> 'a"

definition set_prev :: "'a \<Rightarrow> 'a \<Rightarrow> 'a links \<Rightarrow> 'a links" where
  "set_prev x y h = h\<lparr>prev := (prev h)(x := y)\<rparr>"

definition set_next :: "'a \<Rightarrow> 'a \<Rightarrow> 'a links \<Rightarrow> 'a links" where
  "set_next x y h = h\<lparr>nxt := (nxt h)(x := y)\<rparr>"

definition ngx_queue_init :: "'a \<Rightarrow> 'a links \<Rightarrow> 'a links" where
  "ngx_queue_init q h = (let h = set_prev q q h in set_next q q h)"

definition ngx_queue_empty :: "'a \<Rightarrow> 'a links \<Rightarrow> bool" where
  "ngx_queue_empty q h \<longleftrightarrow> q = prev h q"

definition ngx_queue_insert_head :: "'a \<Rightarrow> 'a \<Rightarrow> 'a links \<Rightarrow> 'a links" where
  "ngx_queue_insert_head q x h =
     (let h = set_next x (nxt h q) h;
          h = set_prev (nxt h x) x h;
          h = set_prev x q h
      in set_next q x h)"


definition ngx_queue_head :: "'a \<Rightarrow> 'a links \<Rightarrow> 'a" where "ngx_queue_head q h = nxt h q"
definition ngx_queue_last :: "'a \<Rightarrow> 'a links \<Rightarrow> 'a" where "ngx_queue_last q h = prev h q"

text \<open>Without \<^verbatim>\<open>NGX_DEBUG\<close>, which also clears the links of the element.\<close>

definition ngx_queue_remove :: "'a \<Rightarrow> 'a links \<Rightarrow> 'a links" where
  "ngx_queue_remove x h =
     (let h = set_prev (nxt h x) (prev h x) h
      in set_next (prev h x) (nxt h x) h)"



text \<open>The loops may run forever on links that are no queue: \<open>None\<close> is not returning.\<close>

partial_function (option) queue_middle_loop :: "'a \<Rightarrow> 'a links \<Rightarrow> 'a \<Rightarrow> 'a \<Rightarrow> 'a option" where
  "queue_middle_loop q h middle next' =
     (let middle = nxt h middle;
          next' = nxt h next'
      in if next' = ngx_queue_last q h then Some middle
         else let next' = nxt h next'
              in if next' = ngx_queue_last q h then Some middle
                 else queue_middle_loop q h middle next')"

definition ngx_queue_middle :: "'a \<Rightarrow> 'a links \<Rightarrow> 'a option" where
  "ngx_queue_middle q h =
     (if ngx_queue_head q h = ngx_queue_last q h then Some (ngx_queue_head q h)
      else queue_middle_loop q h (ngx_queue_head q h) (ngx_queue_head q h))"

partial_function (option) queue_sort_inner :: "('a \<Rightarrow> 'a \<Rightarrow> int) \<Rightarrow> 'a \<Rightarrow> 'a links \<Rightarrow> 'a \<Rightarrow> 'a \<Rightarrow> 'a option" where
  "queue_sort_inner cmp s h q p =
     (if cmp p q \<le> 0 then Some p
      else let p = prev h p
           in if p = s then Some p else queue_sort_inner cmp s h q p)"

partial_function (option) queue_sort_outer :: "('a \<Rightarrow> 'a \<Rightarrow> int) \<Rightarrow> 'a \<Rightarrow> 'a \<Rightarrow> 'a links \<Rightarrow> 'a links option" where
  "queue_sort_outer cmp s q h =
     (if q = s then Some h
      else
        let p = prev h q;
            next' = nxt h q;
            h = ngx_queue_remove q h
        in Option.bind (queue_sort_inner cmp s h q p)
             (\<lambda>p. queue_sort_outer cmp s next' (ngx_queue_insert_head p q h)))"

definition ngx_queue_sort :: "('a \<Rightarrow> 'a \<Rightarrow> int) \<Rightarrow> 'a \<Rightarrow> 'a links \<Rightarrow> 'a links option" where
  "ngx_queue_sort cmp queue h =
     (let q = ngx_queue_head queue h
      in if q = ngx_queue_last queue h then Some h
         else queue_sort_outer cmp queue (nxt h q) h)"

section \<open>The abstraction\<close>

fun linked :: "'a links \<Rightarrow> 'a list \<Rightarrow> bool" where
  "linked h (x # y # zs) = (nxt h x = y \<and> prev h y = x \<and> linked h (y # zs))"
| "linked h zs = True"

definition is_queue :: "'a links \<Rightarrow> 'a \<Rightarrow> 'a list \<Rightarrow> bool" where
  "is_queue h s xs \<longleftrightarrow> distinct (s # xs) \<and> linked h (s # xs @ [s])"

lemma set_links [simp]:
  "prev (set_prev x y h) = (prev h)(x := y)" "nxt (set_prev x y h) = nxt h"
  "nxt (set_next x y h) = (nxt h)(x := y)" "prev (set_next x y h) = prev h"
  by (simp_all add: set_prev_def set_next_def)

lemma linked_append: "linked h (xs @ x # ys) \<longleftrightarrow> linked h (xs @ [x]) \<and> linked h (x # ys)"
  by (induction xs rule: induct_list012) auto

lemma linked_cong:
  assumes "linked h xs" "\<And>x. x \<in> set (butlast xs) \<Longrightarrow> nxt h' x = nxt h x" "\<And>x. x \<in> set (tl xs) \<Longrightarrow> prev h' x = prev h x"
  shows "linked h' xs"
  using assms by (induction h xs rule: linked.induct) auto

lemma linked_two [simp]: "linked h [x, y] \<longleftrightarrow> nxt h x = y \<and> prev h y = x" by simp

text \<open>The cycle cut at any link: the elements up to \<open>p\<close> and those from \<open>q\<close> on.\<close>

lemma queue_cut:
  assumes "is_queue h s (ys @ zs)"
  obtains as p q bs where "s # ys = as @ [p]" "zs @ [s] = q # bs" "linked h (as @ [p])" "nxt h p = q" "prev h q = p"
    "linked h (q # bs)" "p = last (s # ys)" "q = hd (zs @ [s])"
    "p \<notin> set as" "p \<notin> set (butlast (q # bs))" "q \<notin> set (tl (as @ [p]))" "q \<notin> set bs"
proof -
  obtain as p where ap: "s # ys = as @ [p]" by (metis append_butlast_last_id list.distinct(1))
  obtain q bs where qb: "zs @ [s] = q # bs" by (cases "zs @ [s]") auto
  have l: "linked h ((as @ [p]) @ (q # bs))"
    using assms unfolding is_queue_def ap [symmetric] qb [symmetric] by simp
  have d: "distinct (s # ys @ zs)" using assms by (simp add: is_queue_def)
  have 1: "linked h (as @ [p])" "nxt h p = q" "prev h q = p" "linked h (q # bs)"
    using l linked_append [of h as p "q # bs"] by simp_all
  have 2: "p \<notin> set as" using d ap by (metis distinct.simps(2) distinct_append append_Cons not_distinct_conv_prefix)
  have b: "butlast (q # bs) = zs" using qb by (metis butlast_snoc)
  have "p \<in> set (s # ys)" using ap by simp
  then have 3: "p \<notin> set (butlast (q # bs))" using d b by auto
  have 4: "q \<notin> set (tl (as @ [p]))" using d qb by (cases zs) (auto simp: ap [symmetric])
  have 5: "q \<notin> set bs" using d qb by (cases zs) auto
  show thesis
    by (rule that [OF ap qb 1(1,2,3,4) _ _ 2 3 4 5]) (metis ap last_snoc, metis qb list.sel(1))
qed

lemma queue_join:
  assumes "distinct (s # ys @ zs)" "s # ys = as @ [p]" "zs @ [s] = q # bs" "linked h (as @ [p])" "nxt h p = q" "prev h q = p" "linked h (q # bs)"
  shows "is_queue h s (ys @ zs)"
proof -
  have "linked h ((as @ [p]) @ (q # bs))" using assms(4-) linked_append [of h as p "q # bs"] by simp
  moreover have "s # (ys @ zs) @ [s] = (as @ [p]) @ (q # bs)" using assms(2,3) by simp
  ultimately show ?thesis using assms(1) by (simp add: is_queue_def)
qed

lemma queue_init: "is_queue (ngx_queue_init q h) q []"
  by (simp add: is_queue_def ngx_queue_init_def)

lemma queue_ends:
  assumes "is_queue h s xs"
  shows "ngx_queue_head s h = hd (xs @ [s])" "ngx_queue_last s h = last (s # xs)"
  using queue_cut [of h s "[]" xs] queue_cut [of h s xs "[]"] assms
  by (force simp: ngx_queue_head_def ngx_queue_last_def)+

lemma queue_empty_iff: "is_queue h s xs \<Longrightarrow> ngx_queue_empty s h \<longleftrightarrow> xs = []"
  using queue_ends(2) [of h s xs] by (auto simp: ngx_queue_empty_def ngx_queue_last_def is_queue_def)

text \<open>Inserting after any element of the cycle, the sentinel included.\<close>

lemma queue_insert_after:
  assumes "is_queue h s (ys @ zs)" "x \<notin> set (s # ys @ zs)"
  shows "is_queue (ngx_queue_insert_head (last (s # ys)) x h) s (ys @ x # zs)"
proof -
  obtain as p q bs where c: "s # ys = as @ [p]" "zs @ [s] = q # bs" "linked h (as @ [p])" "nxt h p = q" "prev h q = p"
    "linked h (q # bs)" "p = last (s # ys)" "q = hd (zs @ [s])"
    "p \<notin> set as" "p \<notin> set (butlast (q # bs))" "q \<notin> set (tl (as @ [p]))" "q \<notin> set bs"
    by (rule queue_cut [OF assms(1)])
  let ?h = "ngx_queue_insert_head p x h"
  have x: "x \<notin> set (as @ [p])" "x \<notin> set (q # bs)" using assms(2) c(1,2) by (metis Un_iff insert_iff list.set(2) set_append)+
  have xt: "x \<notin> set (tl (as @ [p]))" using x(1) by (cases as) auto
  have xb: "x \<notin> set (butlast (q # bs))" using x(2) in_set_butlastD by metis
  have h: "nxt ?h = (nxt h)(x := q, p := x)" "prev ?h = (prev h)(q := x, x := p)"
    using x c(4) by (auto simp: ngx_queue_insert_head_def Let_def)
  have l1: "linked ?h (as @ [p])"
    by (rule linked_cong [OF c(3)]) (use x xt c(9,11) h in auto)
  have l2: "linked ?h (q # bs)"
    by (rule linked_cong [OF c(6)]) (use x xb c(10,12) h in \<open>auto simp del: butlast.simps\<close>)
  have d: "distinct (s # ys @ x # zs)" using assms by (auto simp: is_queue_def)
  show ?thesis unfolding c(7) [symmetric]
    by (rule queue_join [OF d c(1), of x "q # bs"]) (use l1 l2 x h c(2) in auto)
qed

lemma queue_insert_head: "is_queue h s xs \<Longrightarrow> x \<notin> set (s # xs) \<Longrightarrow> is_queue (ngx_queue_insert_head s x h) s (x # xs)"
  using queue_insert_after [of h s "[]" xs x] by simp



lemma queue_remove:
  assumes "is_queue h s (ys @ x # zs)"
  shows "is_queue (ngx_queue_remove x h) s (ys @ zs)"
proof -
  obtain as p bs where c: "s # ys = as @ [p]" "linked h (as @ [p])" "nxt h p = x" "prev h x = p" "(x # zs) @ [s] = x # bs"
      "linked h (x # bs)" "p \<notin> set as" "p \<notin> set (butlast (x # bs))" "x \<notin> set (tl (as @ [p]))"
    by (rule queue_cut [OF assms]) (metis hd_append2 list.sel(1) list.distinct(1))
  obtain q cs where q: "zs @ [s] = q # cs" "bs = q # cs" using c(5) by (cases "zs @ [s]") auto
  have l: "linked h (q # cs)" "nxt h x = q" "prev h q = x" using c(6) q by auto
  have d: "distinct (s # ys @ x # zs)" using assms by (simp add: is_queue_def)
  let ?h = "ngx_queue_remove x h"
  have h: "nxt ?h = (nxt h)(p := q)" "prev ?h = (prev h)(q := p)"
    using c l d by (auto simp: ngx_queue_remove_def Let_def)
  have qc: "q \<notin> set cs" "q \<notin> set (tl (as @ [p]))" using d q(1) c(1) [symmetric] by (cases zs; force)+
  have l1: "linked ?h (as @ [p])" by (rule linked_cong [OF c(2)]) (use c(7) qc h in auto)
  have l2: "linked ?h (q # cs)" by (rule linked_cong [OF l(1)]) (use c(8) q qc h in \<open>auto dest: in_set_butlastD\<close>)
  show ?thesis by (rule queue_join [OF _ c(1) q(1) l1 _ _ l2]) (use d h in auto)
qed


lemma linked_appendD: "linked h (xs @ ys) \<Longrightarrow> linked h xs"
  by (induction h xs rule: linked.induct) auto


lemma queue_nth:
  assumes "is_queue h s xs" "Suc i < length xs"
  shows "nxt h (xs ! i) = xs ! Suc i"
proof -
  have "linked h xs \<Longrightarrow> Suc i < length xs \<Longrightarrow> nxt h (xs ! i) = xs ! Suc i" for i
    by (induction h xs arbitrary: i rule: linked.induct) (auto simp: nth_Cons split: nat.split)
  moreover have "linked h xs"
    using assms(1) linked_appendD [of h xs "[s]"] by (cases xs) (auto simp: is_queue_def)
  ultimately show ?thesis using assms(2) by blast
qed

lemma queue_last_nth: "is_queue h s xs \<Longrightarrow> xs \<noteq> [] \<Longrightarrow> ngx_queue_last s h = xs ! (length xs - 1)"
  by (simp add: queue_ends(2) last_conv_nth)

lemma queue_middle_loop_ok:
  assumes "is_queue h s xs" "2 * i + 1 < length xs"
  shows "queue_middle_loop s h (xs ! i) (xs ! (2 * i)) = Some (xs ! (length xs div 2))"
  using assms(2)
proof (induction "length xs - 2 * i" arbitrary: i rule: less_induct)
  case less
  have d: "distinct xs" "xs \<noteq> []" using assms(1) less.prems by (auto simp: is_queue_def)
  have n: "nxt h (xs ! i) = xs ! Suc i" "nxt h (xs ! (2 * i)) = xs ! Suc (2 * i)"
    using queue_nth [OF assms(1)] less.prems by simp_all
  have eq: "xs ! j = ngx_queue_last s h \<longleftrightarrow> j = length xs - 1" if "j < length xs" for j
    using that d queue_last_nth [OF assms(1) d(2)] by (simp add: nth_eq_iff_index_eq)
  consider "length xs = 2 * i + 2" | "length xs = 2 * i + 3" | "2 * i + 3 < length xs" using less.prems by linarith
  then show ?case
  proof cases
    case 1
    then show ?thesis using n eq [of "Suc (2 * i)"] by (simp add: queue_middle_loop.simps [of s h "xs ! i"] Let_def)
  next
    case 2
    then have "length xs div 2 = Suc i" by simp
    with 2 show ?thesis using n eq [of "Suc (2 * i)"] eq [of "Suc (Suc (2 * i))"] queue_nth [OF assms(1), of "Suc (2 * i)"]
      by (simp add: queue_middle_loop.simps [of s h "xs ! i"] Let_def)
  next
    case 3
    then have "Suc (2 * i) \<noteq> length xs - 1" "Suc (Suc (2 * i)) \<noteq> length xs - 1" by linarith+
    with 3 show ?thesis
      using n eq [of "Suc (2 * i)"] eq [of "Suc (Suc (2 * i))"] queue_nth [OF assms(1), of "Suc (2 * i)"] less.hyps [of "Suc i"]
      by (simp add: queue_middle_loop.simps [of s h "xs ! i"] Let_def)
  qed
qed

lemma queue_middle:
  assumes "is_queue h s xs" "xs \<noteq> []"
  shows "ngx_queue_middle s h = Some (xs ! (length xs div 2))"
proof -
  have hd: "ngx_queue_head s h = xs ! 0" using assms queue_ends(1) [of h s xs] by (cases xs) simp_all
  have last: "ngx_queue_last s h = xs ! (length xs - 1)" by (rule queue_last_nth [OF assms])
  have "distinct xs" using assms(1) by (simp add: is_queue_def)
  then have "xs ! 0 = xs ! (length xs - 1) \<longleftrightarrow> length xs = 1" using assms(2) nth_eq_iff_index_eq [of xs 0 "length xs - 1"]
    by (cases "length xs") auto
  then show ?thesis using queue_middle_loop_ok [OF assms(1), of 0] assms(2)
    by (cases "Suc 0 < length xs") (auto simp: ngx_queue_middle_def hd last not_less le_Suc_eq)
qed

section \<open>Sorting\<close>

lemma queue_prev:
  assumes "is_queue h s (ys @ y # zs)"
  shows "prev h y = last (s # ys)"
  by (rule queue_cut [OF assms]) simp

lemma queue_next:
  assumes "is_queue h s (ys @ y # zs)"
  shows "nxt h y = hd (zs @ [s])"
  using queue_cut [of h s "ys @ [y]" zs] assms by (metis append.assoc append_Cons append_Nil last_snoc last.simps snoc_eq_iff_butlast)

lemma queue_sort_inner_ok:
  assumes "is_queue h s (ys @ zs)" "ys \<noteq> []"
  shows "queue_sort_inner cmp s h q (last ys) = Some (last (s # rev (dropWhile (\<lambda>y. cmp y q > 0) (rev ys))))"
  using assms
proof (induction ys arbitrary: zs rule: rev_induct)
  case (snoc y ys)
  have p: "prev h y = last (s # ys)" using queue_prev [of h s ys y zs] snoc.prems(1) by simp
  have ne: "ys \<noteq> [] \<Longrightarrow> last ys \<noteq> s" using snoc.prems(1) by (auto simp: is_queue_def)
  show ?case
    using p ne snoc.IH [of "y # zs"] snoc.prems(1)
    by (cases "ys = []") (auto simp: queue_sort_inner.simps [of cmp s h q y] Let_def)
qed simp

lemma queue_sort_outer_ok:
  assumes "is_queue h s (ys @ zs)" "ys \<noteq> []"
  shows "\<exists>h'. queue_sort_outer cmp s (hd (zs @ [s])) h = Some h' \<and> is_queue h' s (foldl (\<lambda>acc x. ins_right cmp x acc) ys zs)"
  using assms
proof (induction zs arbitrary: h ys)
  case Nil
  then show ?case by (simp add: queue_sort_outer.simps)
next
  case (Cons q zs)
  let ?h = "ngx_queue_remove q h"
  define front where "front = rev (dropWhile (\<lambda>y. cmp y q > 0) (rev ys))"
  define behind where "behind = rev (takeWhile (\<lambda>y. cmp y q > 0) (rev ys))"
  have fb: "ys = front @ behind" unfolding front_def behind_def by (metis rev_append rev_rev_ident takeWhile_dropWhile_id)
  have ins: "ins_right cmp q ys = front @ q # behind" by (simp add: ins_right_def front_def behind_def)
  have q: "q \<noteq> s" "q \<notin> set (s # ys @ zs)" using Cons.prems(1) by (auto simp: is_queue_def)
  have h: "is_queue ?h s (ys @ zs)" by (rule queue_remove [OF Cons.prems(1)])
  have "is_queue (ngx_queue_insert_head (last (s # front)) q ?h) s (front @ q # behind @ zs)"
    by (rule queue_insert_after) (use h q fb in auto)
  then have "is_queue (ngx_queue_insert_head (last (s # front)) q ?h) s (ins_right cmp q ys @ zs)" by (simp add: ins)
  from Cons.IH [OF this] obtain h' where
    "queue_sort_outer cmp s (hd (zs @ [s])) (ngx_queue_insert_head (last (s # front)) q ?h) = Some h'"
    "is_queue h' s (foldl (\<lambda>acc x. ins_right cmp x acc) (ins_right cmp q ys) zs)" by (auto simp: ins)
  moreover have "prev h q = last ys" "nxt h q = hd (zs @ [s])"
    using queue_prev [OF Cons.prems(1)] queue_next [OF Cons.prems(1)] Cons.prems(2) by auto
  moreover have "queue_sort_inner cmp s ?h q (last ys) = Some (last (s # front))"
    unfolding front_def by (rule queue_sort_inner_ok [OF h Cons.prems(2)])
  ultimately show ?case using q(1) by (simp add: queue_sort_outer.simps [of cmp s q] Let_def)
qed

lemma queue_sort:
  assumes "is_queue h s xs"
  shows "\<exists>h'. ngx_queue_sort cmp s h = Some h' \<and> is_queue h' s (ngx_sort True cmp xs)"
proof (cases xs)
  case Nil
  with assms queue_ends [OF assms] show ?thesis by (simp add: ngx_queue_sort_def ngx_sort_fold)
next
  case (Cons x zs)
  have ends: "ngx_queue_head s h = x" "ngx_queue_last s h = last (x # zs)" "nxt h x = hd (zs @ [s])"
    using queue_ends [OF assms] queue_next [of h s "[]" x zs] assms Cons by auto
  have fold: "ngx_sort True cmp xs = foldl (\<lambda>acc y. ins_right cmp y acc) [x] zs"
    by (simp add: ngx_sort_fold Cons ins_right_def)
  show ?thesis
  proof (cases zs)
    case Nil
    with assms Cons ends show ?thesis unfolding fold by (simp add: ngx_queue_sort_def)
  next
    case (Cons y ys)
    have "x \<noteq> last (x # zs)" using assms \<open>xs = x # zs\<close> Cons by (auto simp: is_queue_def split: if_splits)
    with queue_sort_outer_ok [of h s "[x]" zs cmp] assms \<open>xs = x # zs\<close> ends show ?thesis
      unfolding fold by (auto simp: ngx_queue_sort_def Let_def)
  qed
qed



text \<open>
  C14. Sorting a queue always ends, and its result is that of the array sort \<^verbatim>\<open>ngx_sort\<close>: the same
  stable insertion sort. The middle element that \<^verbatim>\<open>ngx_queue_middle\<close> finds by two pointers is the
  one with half of the elements before it.
\<close>

theorem queue_sort_is_array_sort:
  assumes "is_queue h s xs"
  shows "(\<exists>h'. ngx_queue_sort cmp s h = Some h' \<and> is_queue h' s (ngx_sort True cmp xs))
    \<and> (xs \<noteq> [] \<longrightarrow> ngx_queue_middle s h = Some (xs ! (length xs div 2)))"
  using queue_sort [OF assms] queue_middle [OF assms] by blast

theorem queue_sort_is_array_sort_witness:
  "\<exists>h'. ngx_queue_sort (\<lambda>a b. int a - int b) 0
      (ngx_queue_insert_head 0 2 (ngx_queue_insert_head 0 (1 :: nat) (ngx_queue_init 0 \<lparr>prev = id, nxt = id\<rparr>))) = Some h'
    \<and> is_queue h' 0 [1, 2]"
proof -
  have "is_queue (ngx_queue_insert_head 0 2 (ngx_queue_insert_head 0 (1 :: nat) (ngx_queue_init 0 \<lparr>prev = id, nxt = id\<rparr>))) 0 [2, 1]"
    by (intro queue_insert_head queue_init) simp_all
  moreover have "ngx_sort True (\<lambda>a b. int a - int b) [2, 1] = [1, 2]" by code_simp
  ultimately show ?thesis using queue_sort_is_array_sort [of _ 0 "[2, 1]" "\<lambda>a b. int a - int b"] by auto
qed

end
