(* ===== verification/Ngx_Locations.thy ===== *)
theory Ngx_Locations
  imports Ngx_Queue Ngx_Strings "HOL-Library.List_Lexorder" "HOL-Library.Sublist"
begin

text \<open>
  The static locations of a server: \<^verbatim>\<open>src/http/ngx_http.c\<close> sorts the queue of the locations,
  joins an exact and an inclusive location of the same name, moves the locations below an
  inclusive one into its own list and builds the search tree;
  \<^verbatim>\<open>ngx_http_core_find_static_location\<close> of \<^verbatim>\<open>src/http/ngx_http_core_module.c\<close> searches it.
  The queues are the lists that they refine in \<open>Ngx_Queue\<close>. The names are the NUL-terminated
  strings of the configuration, without their terminator.
\<close>

section \<open>Definitions\<close>

text \<open>The fields of \<^verbatim>\<open>ngx_http_core_loc_conf_t\<close> that the search depends on; \<open>lc_id\<close> stands for the rest.\<close>

record loc_conf =
  lc_id :: nat
  lc_name :: ngx_str
  lc_noname :: bool
  lc_named :: bool
  lc_exact_match :: bool
  lc_noregex :: bool
  lc_auto_redirect :: bool
  lc_regex :: bool

datatype lq = LQ (lq_exact: "loc_conf option") (lq_inclusive: "loc_conf option") (lq_name: ngx_str) (lq_list: "lq list")

definition ngx_http_add_location :: "lq list \<Rightarrow> loc_conf \<Rightarrow> lq list" where
  "ngx_http_add_location locations clcf =
     locations @
       [if lc_exact_match clcf \<or> lc_regex clcf \<or> lc_named clcf \<or> lc_noname clcf
        then LQ (Some clcf) None (lc_name clcf) [] else LQ None (Some clcf) (lc_name clcf) []]"

text \<open>\<^verbatim>\<open>strcmp\<close> of the names.\<close>

fun loc_strcmp :: "ngx_str \<Rightarrow> ngx_str \<Rightarrow> int" where
  "loc_strcmp [] [] = 0"
| "loc_strcmp [] (y # ys) = - uint y"
| "loc_strcmp (x # xs) [] = uint x"
| "loc_strcmp (x # xs) (y # ys) = (if x = y then loc_strcmp xs ys else uint x - uint y)"

definition lq_conf :: "lq \<Rightarrow> loc_conf option" where
  "lq_conf q = (if lq_exact q \<noteq> None then lq_exact q else lq_inclusive q)"

definition ngx_http_cmp_locations :: "lq \<Rightarrow> lq \<Rightarrow> int" where
  "ngx_http_cmp_locations one two =
     (let first = the (lq_conf one); second = the (lq_conf two)
      in if lc_noname first \<and> \<not> lc_noname second then 1
         else if \<not> lc_noname first \<and> lc_noname second then - 1
         else if lc_noname first \<or> lc_noname second then 0
         else if lc_named first \<and> \<not> lc_named second then 1
         else if \<not> lc_named first \<and> lc_named second then - 1
         else if lc_named first \<and> lc_named second then loc_strcmp (lc_name first) (lc_name second)
         else if lc_regex first \<and> \<not> lc_regex second then 1
         else if \<not> lc_regex first \<and> lc_regex second then - 1
         else if lc_regex first \<or> lc_regex second then 0
         else
           let rc = loc_strcmp (lc_name first) (lc_name second)
           in if rc = 0 \<and> \<not> lc_exact_match first \<and> lc_exact_match second then 1 else rc)"

text \<open>
  \<^verbatim>\<open>ngx_http_init_locations\<close> without the nested locations: after the sort the queue is cut at the
  first nameless, the first named and the first regular expression location. The result is the static
  locations, the regular expressions and the named ones.
\<close>

definition ngx_http_init_locations :: "lq list \<Rightarrow> lq list \<times> loc_conf list \<times> loc_conf list" where
  "ngx_http_init_locations locations =
     (let locations = ngx_sort True ngx_http_cmp_locations locations;
          locations = takeWhile (\<lambda>q. \<not> (lc_noname (the (lq_conf q)) \<and> \<not> lc_regex (the (lq_conf q)) \<and> \<not> lc_named (the (lq_conf q)))) locations;
          is_named = (\<lambda>q. lc_named (the (lq_conf q)) \<and> \<not> lc_regex (the (lq_conf q)));
          named = dropWhile (\<lambda>q. \<not> is_named q) locations;
          locations = takeWhile (\<lambda>q. \<not> is_named q) locations;
          is_regex = (\<lambda>q. lc_regex (the (lq_conf q)));
          regex = dropWhile (\<lambda>q. \<not> is_regex q) locations
      in (takeWhile (\<lambda>q. \<not> is_regex q) locations, map (the \<circ> lq_exact) regex, map (the \<circ> lq_exact) named))"

text \<open>\<open>None\<close> is the error \<^verbatim>\<open>duplicate location\<close>.\<close>

fun ngx_http_join_exact_locations :: "lq list \<Rightarrow> lq list option" where
  "ngx_http_join_exact_locations (q # x # rest) =
     (if loc_strcmp (lq_name q) (lq_name x) = 0 then
        (if (lq_exact q \<noteq> None \<and> lq_exact x \<noteq> None) \<or> (lq_inclusive q \<noteq> None \<and> lq_inclusive x \<noteq> None) then None
         else ngx_http_join_exact_locations (LQ (lq_exact q) (lq_inclusive x) (lq_name q) (lq_list q) # rest))
      else map_option ((#) q) (ngx_http_join_exact_locations (x # rest)))"
| "ngx_http_join_exact_locations locations = Some locations"

text \<open>Is \<open>x\<close> below \<open>q\<close>?\<close>

definition lq_below :: "lq \<Rightarrow> lq \<Rightarrow> bool" where
  "lq_below q x \<longleftrightarrow> \<not> (length (lq_name q) > length (lq_name x)
     \<or> ngx_strncmp (lq_name q) (lq_name x) (length (lq_name q)) \<noteq> Some 0)"

function ngx_http_create_locations_list :: "lq list \<Rightarrow> lq list" where
  "ngx_http_create_locations_list [] = []"
| "ngx_http_create_locations_list (q # rest) =
     (if rest = [] then [q]
      else if lq_inclusive q = None then q # ngx_http_create_locations_list rest
      else
        let below = takeWhile (lq_below q) rest;
            tail = dropWhile (lq_below q) rest
        in if below = [] then q # ngx_http_create_locations_list tail
           else LQ (lq_exact q) (lq_inclusive q) (lq_name q) (ngx_http_create_locations_list (lq_list q @ below))
                  # (if tail = [] then [] else ngx_http_create_locations_list tail))"
  by pat_completeness auto

lemma size_list_while:
  "size_list f (takeWhile P xs) \<le> size_list f xs" "size_list f (dropWhile P xs) \<le> size_list f xs"
  by (induction xs) auto

lemma size_lq_list: "size_list size (lq_list q) < size q"
  by (cases q) simp

lemma size_lq_below: "size_list size (lq_list q @ takeWhile P rest) < size_list size (q # rest)"
  using size_list_while(1) [of size P rest] size_lq_list [of q] by (simp add: size_list_append)

lemma size_lq_tail: "size_list size (dropWhile P rest) < size_list size (q # rest)"
  using size_list_while(2) [of size P rest] by (simp add: le_imp_less_Suc trans_le_add2)

termination ngx_http_create_locations_list
  by (relation "measure (size_list size)") (simp, simp, auto simp only: in_measure size_lq_below size_lq_tail)

declare ngx_http_create_locations_list.simps [simp del]

text \<open>A node of the tree; the name is the part after the prefix that the enclosing node has.\<close>

datatype ltree = Leaf
  | Node (lt_left: ltree) (lt_right: ltree) (lt_tree: ltree) (lt_exact: "loc_conf option") (lt_inclusive: "loc_conf option")
      (lt_auto: bool) (lt_len: u_char) (lt_name: ngx_str)

definition lq_auto :: "lq \<Rightarrow> bool" where
  "lq_auto q \<longleftrightarrow> (\<exists>c \<in> set_option (lq_exact q). lc_auto_redirect c) \<or> (\<exists>c \<in> set_option (lq_inclusive q). lc_auto_redirect c)"

text \<open>
  The queue is cut at its middle element. It is never empty in a call; the subtrees of empty queues
  are \<^verbatim>\<open>NULL\<close>.
\<close>

function ngx_http_create_locations_tree :: "lq list \<Rightarrow> nat \<Rightarrow> ltree" where
  "ngx_http_create_locations_tree locations pre =
     (if locations = [] then Leaf
      else
        let m = length locations div 2;
            q = locations ! m;
            len = length (lq_name q) - pre;
            left = take m locations;
            tail = drop (Suc m) locations
        in Node (ngx_http_create_locations_tree left pre)
             (if left = [] then Leaf else ngx_http_create_locations_tree tail pre)
             (ngx_http_create_locations_tree (lq_list q) (pre + len))
             (lq_exact q) (lq_inclusive q) (lq_auto q) (of_nat len) (take len (drop pre (lq_name q))))"
  by pat_completeness auto

lemma size_list_parts:
  assumes "m < length xs"
  shows "size_list f (take m xs) + f (xs ! m) + size_list f (drop (Suc m) xs) + 1 = size_list f xs"
proof -
  have "size_list f (take m xs @ xs ! m # drop (Suc m) xs) = size_list f (take m xs) + f (xs ! m) + size_list f (drop (Suc m) xs) + 1"
    by (simp add: size_list_append)
  then show ?thesis by (simp add: id_take_nth_drop [OF assms, symmetric])
qed

lemma size_lq_parts:
  assumes "xs \<noteq> []"
  shows "size_list size (take (length xs div 2) xs) < size_list size xs"
    "size_list size (drop (Suc (length xs div 2)) xs) < size_list size xs"
    "size_list size (lq_list (xs ! (length xs div 2))) < size_list size xs"
  using size_list_parts [of "length xs div 2" xs size] size_lq_list [of "xs ! (length xs div 2)"] assms by auto

termination ngx_http_create_locations_tree
  by (relation "measure (\<lambda>(xs, k). size_list size xs)") (auto simp only: in_measure prod.case wf_measure intro!: size_lq_parts)

declare ngx_http_create_locations_tree.simps [simp del]

text \<open>
  The search: \<open>rv\<close> is the result so far and \<open>cur\<close> the location that \<^verbatim>\<open>r->loc_conf\<close> was set to.
  \<^verbatim>\<open>ngx_filename_cmp\<close> is \<^verbatim>\<open>ngx_memcmp\<close>. \<open>None\<close> is a read outside the names or of a location that is not there.
\<close>

fun find_static :: "ltree \<Rightarrow> ngx_str \<Rightarrow> ngx_int \<Rightarrow> loc_conf option \<Rightarrow> (ngx_int \<times> loc_conf option) option" where
  "find_static Leaf uri rv cur = Some (rv, cur)"
| "find_static (Node left right tree exact inclusive auto len name) uri rv cur =
     (let n = (if length uri \<le> unat len then length uri else unat len)
      in case ngx_memcmp uri name n of
           None \<Rightarrow> None
         | Some rc \<Rightarrow>
             if rc \<noteq> 0 then (if rc < 0 then find_static left uri rv cur else find_static right uri rv cur)
             else if length uri > unat len then
               (if inclusive \<noteq> None then find_static tree (drop n uri) NGX_AGAIN inclusive
                else find_static right uri rv cur)
             else if length uri = unat len then
               (if exact \<noteq> None then Some (NGX_OK, exact)
                else if inclusive \<noteq> None then Some (NGX_AGAIN, inclusive) else None)
             else if length uri + 1 = unat len \<and> auto then
               (if exact = None \<and> inclusive = None then None
                else find_static left uri NGX_DONE (if exact \<noteq> None then exact else inclusive))
             else find_static left uri rv cur)"

definition ngx_http_core_find_static_location :: "ngx_str \<Rightarrow> ltree \<Rightarrow> (ngx_int \<times> loc_conf option) option" where
  "ngx_http_core_find_static_location uri node = find_static node uri NGX_DECLINED None"

text \<open>\<^verbatim>\<open>ngx_http_init_static_location_trees\<close> without the nested locations.\<close>

definition ngx_http_init_static_location_trees :: "lq list \<Rightarrow> ltree option" where
  "ngx_http_init_static_location_trees locations =
     (if locations = [] then Some Leaf
      else map_option (\<lambda>ls. ngx_http_create_locations_tree (ngx_http_create_locations_list ls) 0)
             (ngx_http_join_exact_locations locations))"

section \<open>The order of names\<close>









section \<open>Levels\<close>







section \<open>The search\<close>

definition hit :: "lq \<Rightarrow> ngx_int \<times> loc_conf option" where
  "hit e = (if lq_exact e \<noteq> None then (NGX_OK, lq_exact e) else (NGX_AGAIN, lq_inclusive e))"

definition covers :: "lq \<Rightarrow> ngx_str \<Rightarrow> bool" where
  "covers e u \<longleftrightarrow> lq_inclusive e \<noteq> None \<and> strict_prefix (lq_name e) u"

definition redirects :: "lq \<Rightarrow> ngx_str \<Rightarrow> bool" where
  "redirects e u \<longleftrightarrow> lq_auto e \<and> prefix u (lq_name e) \<and> length (lq_name e) = length u + 1"




















section \<open>Building the lists\<close>

text \<open>An entry without the list below it; a search result depends on the entries only.\<close>

definition strip :: "lq \<Rightarrow> lq" where
  "strip q = LQ (lq_exact q) (lq_inclusive q) (lq_name q) []"

lemma strip_simps [simp]:
  "lq_exact (strip q) = lq_exact q" "lq_inclusive (strip q) = lq_inclusive q" "lq_name (strip q) = lq_name q" "lq_list (strip q) = []"
  "hit (strip q) = hit q" "covers (strip q) u = covers q u" "redirects (strip q) u = redirects q u" "lq_conf (strip q) = lq_conf q"
  "lq_auto (strip q) = lq_auto q"
  by (simp_all add: strip_def hit_def covers_def redirects_def lq_conf_def lq_auto_def)










lemma create_list_Nil [simp]: "ngx_http_create_locations_list [] = []"
  by (simp add: ngx_http_create_locations_list.simps)






section \<open>Sorting and joining\<close>

text \<open>The entry that \<^verbatim>\<open>ngx_http_add_location\<close> appends.\<close>

definition lq_of :: "loc_conf \<Rightarrow> lq" where
  "lq_of c = (if lc_exact_match c \<or> lc_regex c \<or> lc_named c \<or> lc_noname c
     then LQ (Some c) None (lc_name c) [] else LQ None (Some c) (lc_name c) [])"


lemma lq_of_simps [simp]: "lq_conf (lq_of c) = Some c" "lq_name (lq_of c) = lc_name c" "lq_list (lq_of c) = []"
  by (simp_all add: lq_of_def lq_conf_def)

definition lc_rank :: "loc_conf \<Rightarrow> nat" where
  "lc_rank c = (if lc_noname c then 3 else if lc_named c then 2 else if lc_regex c then 1 else 0)"








lemma add_locations: "foldl ngx_http_add_location ls cs = ls @ map lq_of cs"
  by (induction cs arbitrary: ls) (auto simp: ngx_http_add_location_def lq_of_def)







lemma create_tree_Nil [simp]: "ngx_http_create_locations_tree [] k = Leaf"
  by (simp add: ngx_http_create_locations_tree.simps)





definition sample_location :: "string \<Rightarrow> bool \<Rightarrow> bool \<Rightarrow> loc_conf" where
  "sample_location name exact auto = \<lparr>lc_id = 0, lc_name = bytes name, lc_noname = False, lc_named = False,
     lc_exact_match = exact, lc_noregex = False, lc_auto_redirect = auto, lc_regex = False\<rparr>"

definition static_tree :: "loc_conf list \<Rightarrow> ltree option" where
  "static_tree cs = ngx_http_init_static_location_trees (fst (ngx_http_init_locations (foldl ngx_http_add_location [] cs)))"



text \<open>
  The length of a name is kept in one byte: an inclusive location with a name of 256 bytes matches
  every URI that is not empty.
\<close>

theorem long_name_matches_everything:
  assumes "lc_rank c = 0" "\<not> lc_exact_match c" "length (lc_name c) = 256" "u \<noteq> []"
  shows "Option.bind (static_tree [c]) (ngx_http_core_find_static_location u) = Some (NGX_AGAIN, Some c)"
proof -
  have q: "lq_of c = LQ None (Some c) (lc_name c) []" using assms(1,2) by (auto simp: lc_rank_def lq_of_def split: if_splits)
  have rank: "\<not> lc_noname c" "\<not> lc_named c" "\<not> lc_regex c" using assms(1) by (auto simp: lc_rank_def split: if_splits)
  have "fst (ngx_http_init_locations [lq_of c]) = [lq_of c]"
    using rank by (simp add: ngx_http_init_locations_def Let_def ngx_sort_fold ins_right_def)
  then have init: "fst (ngx_http_init_locations (foldl ngx_http_add_location [] [c])) = [lq_of c]"
    unfolding add_locations by simp
  have "ngx_http_create_locations_tree [lq_of c] 0 = Node Leaf Leaf Leaf None (Some c) (lq_auto (lq_of c)) (of_nat 256) (take 256 (lc_name c))"
    unfolding ngx_http_create_locations_tree.simps [of "[lq_of c]"] using assms(3) by (simp add: q)
  then have "static_tree [c] = Some (Node Leaf Leaf Leaf None (Some c) (lq_auto (lq_of c)) (of_nat 256) (take 256 (lc_name c)))"
    unfolding static_tree_def init ngx_http_init_static_location_trees_def by (simp add: ngx_http_create_locations_list.simps)
  then show ?thesis using assms(4) by (simp add: ngx_http_core_find_static_location_def Let_def)
qed

theorem long_name_matches_everything_witness:
  "Option.bind (static_tree [sample_location (CHR ''/'' # replicate 255 (CHR ''a'')) False False])
     (ngx_http_core_find_static_location (bytes ''/x'')) =
   Some (NGX_AGAIN, Some (sample_location (CHR ''/'' # replicate 255 (CHR ''a'')) False False))"
  by (rule long_name_matches_everything) (simp_all add: sample_location_def lc_rank_def bytes_def)

section \<open>Prefixes and regular expressions\<close>











end
