(* ===== verification/Ngx_Ranges.thy ===== *)
theory Ngx_Ranges
  imports Ngx_Format Ngx_Http_Time Ngx_Strings "HOL-Library.Monad_Syntax" "HOL-Library.Sublist"
begin

text \<open>
  The range filter \<^verbatim>\<open>src/http/modules/ngx_http_range_filter_module.c\<close>: the reader of the \<^verbatim>\<open>Range\<close> header,
  the header filter that announces a part of the response, and the body filters that cut it out of the
  buffers. Offsets of the header are 64-bit words, as \<^verbatim>\<open>off_t\<close> is, and wrap.
\<close>

section \<open>Definitions\<close>

subsection \<open>The Range header\<close>

definition NGX_HTTP_RANGE_NOT_SATISFIABLE :: ngx_int where [ngx_rc]: "NGX_HTTP_RANGE_NOT_SATISFIABLE = 416"

record http_range =
  rg_start :: ngx_int
  rg_end :: ngx_int
  rg_content_range :: ngx_str

text \<open>
  The loops over blanks and digits. A pointer is the list of the bytes from it on, with the
  terminator; \<open>None\<close> is a read past them.
\<close>

fun range_spaces :: "ngx_str \<Rightarrow> ngx_str option" where
  "range_spaces [] = None"
| "range_spaces (c # p) = (if c = ch_sp then range_spaces p else Some (c # p))"

definition range_digit :: "u_char \<Rightarrow> bool" where
  "range_digit c \<longleftrightarrow> c \<ge> ch_0 \<and> c \<le> ch_9"

fun range_digits :: "ngx_int \<Rightarrow> ngx_str \<Rightarrow> (ngx_int \<times> ngx_str) option" where
  "range_digits n [] = None"
| "range_digits n (c # p) = (if range_digit c then range_digits (n * 10 + ucast c - 0x30) p else Some (n, c # p))"

text \<open>The second number of a range. \<open>Inl\<close> is a return from the function.\<close>

definition range_last :: "ngx_int \<Rightarrow> bool \<Rightarrow> ngx_int \<Rightarrow> ngx_str \<Rightarrow> (ngx_int + ngx_int \<times> ngx_int \<times> ngx_str) option" where
  "range_last content_length sfx start p =
     (if p = [] then None
      else if \<not> range_digit (hd p) then Some (Inl NGX_HTTP_RANGE_NOT_SATISFIABLE)
      else do {
        (fin, p) \<leftarrow> range_digits 0 p;
        p \<leftarrow> range_spaces p;
        if hd p \<noteq> ch_comma \<and> hd p \<noteq> 0 then Some (Inl NGX_HTTP_RANGE_NOT_SATISFIABLE)
        else
          let (start, fin) = (if sfx then (content_length - fin, content_length - 1) else (start, fin));
              fin = (if content_length \<le>s fin then content_length else fin + 1)
          in Some (Inr (start, fin, p))
      })"

text \<open>One range, up to the label \<^verbatim>\<open>found\<close>: its start, its end and the pointer to the byte after it.\<close>

definition range_first :: "ngx_int \<Rightarrow> ngx_str \<Rightarrow> (ngx_int + ngx_int \<times> ngx_int \<times> ngx_str) option" where
  "range_first content_length p =
     do {
       p \<leftarrow> range_spaces p;
       if hd p \<noteq> ch_minus then
         (if \<not> range_digit (hd p) then Some (Inl NGX_HTTP_RANGE_NOT_SATISFIABLE)
          else do {
            (start, p) \<leftarrow> range_digits 0 p;
            p \<leftarrow> range_spaces p;
            if hd p \<noteq> ch_minus then Some (Inl NGX_HTTP_RANGE_NOT_SATISFIABLE)
            else do {
              p \<leftarrow> range_spaces (tl p);
              if hd p = ch_comma \<or> hd p = 0 then Some (Inr (start, content_length, p))
              else range_last content_length False start p
            }
          })
       else range_last content_length True 0 (tl p)
     }"

lemma range_spaces_rest: "range_spaces p = Some q \<Longrightarrow> q \<noteq> [] \<and> suffix q p"
  by (induction p) (auto split: if_splits intro: suffix_ConsI)

lemma range_digits_rest: "range_digits n p = Some (v, q) \<Longrightarrow> q \<noteq> [] \<and> suffix q p"
  by (induction n p rule: range_digits.induct) (auto split: if_splits intro: suffix_ConsI)

lemmas range_rest = range_spaces_rest range_digits_rest

lemma range_last_rest: "range_last cl sfx st p = Some (Inr (s, e, q)) \<Longrightarrow> q \<noteq> [] \<and> suffix q p"
  unfolding range_last_def
  by (auto simp: Let_def split: if_splits bind_splits dest!: range_rest intro: suffix_order.trans)

lemma suffix_tlI: "p \<noteq> [] \<Longrightarrow> suffix q (tl p) \<Longrightarrow> suffix q p"
  by (cases p) (auto intro: suffix_ConsI)

lemma range_first_rest: "range_first cl p = Some (Inr (s, e, q)) \<Longrightarrow> q \<noteq> [] \<and> suffix q p"
  unfolding range_first_def
  by (auto split: if_splits bind_splits dest!: range_rest range_last_rest) (meson suffix_order.trans suffix_tlI)+

lemma tl_shorter: "b \<noteq> [] \<Longrightarrow> length b \<le> n \<Longrightarrow> length b - Suc 0 < n"
  by (cases b) auto

text \<open>
  The loop over the ranges: \<open>ranges\<close> is the number of ranges that may still be added, \<open>sum_size\<close> (\<^verbatim>\<open>size\<close>) the sum
  of their sizes.
\<close>

function range_loop :: "ngx_int \<Rightarrow> ngx_uint \<Rightarrow> ngx_int \<Rightarrow> http_range list \<Rightarrow> ngx_str \<Rightarrow> (ngx_int \<times> http_range list) option" where
  "range_loop content_length ranges sum_size rs p =
     (case range_first content_length p of
        None \<Rightarrow> None
      | Some (Inl rc) \<Rightarrow> Some (rc, rs)
      | Some (Inr (start, fin, p)) \<Rightarrow>
          let found = start <s fin;
              rs = (if found then rs @ [\<lparr>rg_start = start, rg_end = fin, rg_content_range = []\<rparr>] else rs);
              sum_size = (if found then sum_size + (fin - start) else sum_size)
          in if found \<and> ranges = 0 then Some (NGX_DECLINED, rs)
             else if hd p = ch_comma then range_loop content_length (if found then ranges - 1 else ranges) sum_size rs (tl p)
             else if rs = [] then Some (NGX_HTTP_RANGE_NOT_SATISFIABLE, rs)
             else if content_length <s sum_size then Some (NGX_DECLINED, rs)
             else Some (NGX_OK, rs))"
  by pat_completeness auto
termination
  by (relation "measure (\<lambda>(cl, n, sum_size, rs, p). length p)")
    (auto dest!: range_first_rest suffix_length_le intro: tl_shorter)

declare range_loop.simps [simp del]

text \<open>\<open>value\<close> is the value of the header with its terminator; the loop starts after \<^verbatim>\<open>bytes=\<close>.\<close>

definition ngx_http_range_parse :: "ngx_str \<Rightarrow> ngx_int \<Rightarrow> ngx_uint \<Rightarrow> (ngx_int \<times> http_range list) option" where
  "ngx_http_range_parse value content_length ranges = range_loop content_length ranges 0 [] (drop 6 value)"

subsection \<open>The header filter\<close>

definition NGX_HTTP_VERSION_10 :: ngx_uint where "NGX_HTTP_VERSION_10 = 1000"
definition NGX_HTTP_OK :: ngx_uint where "NGX_HTTP_OK = 200"
definition NGX_HTTP_PARTIAL_CONTENT :: ngx_uint where "NGX_HTTP_PARTIAL_CONTENT = 206"

text \<open>The size of a printed \<^verbatim>\<open>off_t\<close>, which \<^verbatim>\<open>auto/types/sizeof\<close> sets to 20 when the type has eight bytes.\<close>

definition NGX_OFF_T_LEN :: nat where "NGX_OFF_T_LEN = 20"

text \<open>The context of the filter: how much of the body has passed, the header of a part, the ranges.\<close>

record range_ctx =
  rc_offset :: int
  rc_boundary_header :: ngx_str
  rc_ranges :: "http_range list"

text \<open>
  The fields of the request that the filter reads and writes. The values of \<^verbatim>\<open>headers_in\<close> carry their
  terminator. \<open>ho_has_length\<close> says whether \<^verbatim>\<open>headers_out.content_length\<close> is set.
\<close>

record range_request =
  rq_http_version :: ngx_uint
  rq_main :: bool
  rq_allow_ranges :: bool
  hi_range :: "ngx_str option"
  hi_if_range :: "ngx_str option"
  ho_status :: ngx_uint
  ho_status_line :: ngx_str
  ho_content_length_n :: ngx_int
  ho_has_length :: bool
  ho_last_modified_time :: ngx_int
  ho_content_type :: ngx_str
  ho_content_type_len :: nat
  ho_content_type_lowcase :: "ngx_str option"
  ho_charset :: ngx_str
  ho_content_range :: "ngx_str option"
  ho_accept_ranges :: "ngx_str option"
  rq_ctx :: "range_ctx option"

text \<open>The end of a filter: the call of the next one, or a return.\<close>

datatype filter_end = Next_Filter | Return ngx_int

text \<open>
  \<^verbatim>\<open>ngx_sprintf\<close> into \<open>size\<close> bytes from \<^verbatim>\<open>ngx_pnalloc\<close>; \<open>None\<close> is a write past them. The
  allocation succeeds.
\<close>

definition pool_sprintf :: "nat \<Rightarrow> ngx_str \<Rightarrow> ngx_arg list \<Rightarrow> ngx_str option" where
  "pool_sprintf n fmt args = Option.bind (ngx_sprintf fmt args) (\<lambda>s. if length s \<le> n then Some s else None)"

definition crlf :: ngx_str where "crlf = [CR, LF]"

definition ngx_http_range_singlepart_header :: "range_ctx \<Rightarrow> range_request \<Rightarrow> (filter_end \<times> range_request) option" where
  "ngx_http_range_singlepart_header ctx r =
     do {
       let range = hd (rc_ranges ctx);
       value \<leftarrow> pool_sprintf (length (bytes ''bytes -/'') + 3 * NGX_OFF_T_LEN) (bytes ''bytes %O-%O/%O'')
         [Arg64 (rg_start range), Arg64 (rg_end range - 1), Arg64 (ho_content_length_n r)];
       Some (Next_Filter, r\<lparr>ho_content_range := Some value,
         ho_content_length_n := rg_end range - rg_start range, ho_has_length := False\<rparr>)
     }"

text \<open>The header of a part; \<open>boundary\<close> is what \<^verbatim>\<open>ngx_next_temp_number\<close> returns.\<close>

definition multipart_boundary_len :: "range_request \<Rightarrow> nat" where
  "multipart_boundary_len r =
     length (crlf @ bytes ''--'') + unat NGX_ATOMIC_T_LEN + length (crlf @ bytes ''Content-Type: '') + length (ho_content_type r)
       + length (crlf @ bytes ''Content-Range: bytes '')
       + (if ho_charset r \<noteq> [] then length (bytes ''; charset='') + length (ho_charset r) else 0)"

definition multipart_boundary :: "ngx_uint \<Rightarrow> range_request \<Rightarrow> ngx_str option" where
  "multipart_boundary boundary r =
     pool_sprintf (multipart_boundary_len r)
       (crlf @ bytes ''--%0muA'' @ crlf @
        (if ho_charset r \<noteq> [] then bytes ''Content-Type: %V; charset=%V'' @ crlf
         else if ho_content_type r \<noteq> [] then bytes ''Content-Type: %V'' @ crlf
         else []) @
        bytes ''Content-Range: bytes '')
       (Arg64 boundary #
        (if ho_charset r \<noteq> [] then [ArgStr (ho_content_type r), ArgStr (ho_charset r)]
         else if ho_content_type r \<noteq> [] then [ArgStr (ho_content_type r)]
         else []))"

text \<open>The loop over the ranges: each gets its text, \<open>len\<close> sums up the sizes of the parts.\<close>

fun multipart_ranges :: "ngx_int \<Rightarrow> nat \<Rightarrow> 64 word \<Rightarrow> http_range list \<Rightarrow> (64 word \<times> http_range list) option" where
  "multipart_ranges content_length blen len [] = Some (len, [])"
| "multipart_ranges content_length blen len (g # gs) =
     do {
       text_range \<leftarrow> pool_sprintf (3 * NGX_OFF_T_LEN + 2 + 4) (bytes ''%O-%O/%O'' @ crlf @ crlf)
         [Arg64 (rg_start g), Arg64 (rg_end g - 1), Arg64 content_length];
       (len, gs) \<leftarrow> multipart_ranges content_length blen
         (len + (of_nat blen + of_nat (length text_range) + (rg_end g - rg_start g))) gs;
       Some (len, g\<lparr>rg_content_range := text_range\<rparr> # gs)
     }"

definition multipart_last_len :: nat where
  "multipart_last_len = length (crlf @ bytes ''--'') + unat NGX_ATOMIC_T_LEN + length (bytes ''--'' @ crlf)"

definition ngx_http_range_multipart_header :: "ngx_uint \<Rightarrow> range_ctx \<Rightarrow> range_request \<Rightarrow> (filter_end \<times> range_request) option" where
  "ngx_http_range_multipart_header boundary ctx r =
     do {
       header \<leftarrow> multipart_boundary boundary r;
       content_type \<leftarrow> pool_sprintf (length (bytes ''Content-Type: multipart/byteranges; boundary='') + unat NGX_ATOMIC_T_LEN)
         (bytes ''multipart/byteranges; boundary=%0muA'') [Arg64 boundary];
       (len, ranges) \<leftarrow> multipart_ranges (ho_content_length_n r) (length header) (of_nat multipart_last_len) (rc_ranges ctx);
       Some (Next_Filter, r\<lparr>ho_charset := [], ho_content_type := content_type, ho_content_type_len := length content_type, ho_content_type_lowcase := None,
         ho_content_length_n := len, ho_has_length := False,
         rq_ctx := Some (ctx\<lparr>rc_boundary_header := header, rc_ranges := ranges\<rparr>)\<rparr>)
     }"

definition ngx_http_range_not_satisfiable :: "range_request \<Rightarrow> (filter_end \<times> range_request) option" where
  "ngx_http_range_not_satisfiable r =
     do {
       value \<leftarrow> pool_sprintf (length (bytes ''bytes */'') + NGX_OFF_T_LEN) (bytes ''bytes */%O'') [Arg64 (ho_content_length_n r)];
       Some (Return NGX_HTTP_RANGE_NOT_SATISFIABLE,
         r\<lparr>ho_status := ucast NGX_HTTP_RANGE_NOT_SATISFIABLE, ho_content_range := Some value,
           ho_content_length_n := - 1, ho_has_length := False\<rparr>)
     }"

text \<open>Does the request ask for ranges? The lengths of the header values do not count the terminator.\<close>

definition range_asked :: "range_request \<Rightarrow> bool option" where
  "range_asked r =
     (case hi_range r of
        None \<Rightarrow> Some False
      | Some value \<Rightarrow>
          if length value - 1 < 7 then Some False
          else do {
            rc \<leftarrow> ngx_strncasecmp value (bytes ''bytes='') 6;
            if rc \<noteq> 0 then Some False
            else (case hi_if_range r of
                    None \<Rightarrow> Some True
                  | Some date \<Rightarrow>
                      if ho_last_modified_time r = - 1 then Some True
                      else map_option (\<lambda>if_range. if_range = ho_last_modified_time r) (ngx_http_parse_time (butlast date)))
          })"

definition range_next :: "range_request \<Rightarrow> (filter_end \<times> range_request) option" where
  "range_next r = Some (Next_Filter, r\<lparr>ho_accept_ranges := Some (bytes ''bytes'')\<rparr>)"

definition ngx_http_range_header_filter :: "ngx_uint \<Rightarrow> ngx_uint \<Rightarrow> range_request \<Rightarrow> (filter_end \<times> range_request) option" where
  "ngx_http_range_header_filter max_ranges boundary r =
     (if rq_http_version r < NGX_HTTP_VERSION_10 \<or> ho_status r \<noteq> NGX_HTTP_OK \<or> \<not> rq_main r \<or> ho_content_length_n r = - 1
         \<or> \<not> rq_allow_ranges r
      then Some (Next_Filter, r)
      else if max_ranges = 0 then Some (Next_Filter, r)
      else do {
        asked \<leftarrow> range_asked r;
        if \<not> asked then range_next r
        else do {
          (rc, ranges) \<leftarrow> ngx_http_range_parse (the (hi_range r)) (ho_content_length_n r) max_ranges;
          let ctx = \<lparr>rc_offset = 0, rc_boundary_header = [], rc_ranges = ranges\<rparr>;
          if rc = NGX_OK then
            (let r = r\<lparr>rq_ctx := Some ctx, ho_status := NGX_HTTP_PARTIAL_CONTENT, ho_status_line := []\<rparr>
             in if length ranges = 1 then ngx_http_range_singlepart_header ctx r
                else ngx_http_range_multipart_header boundary ctx r)
          else if rc = NGX_HTTP_RANGE_NOT_SATISFIABLE then ngx_http_range_not_satisfiable r
          else if rc = NGX_ERROR then Some (Return NGX_ERROR, r)
          else range_next r
        }
      })"

subsection \<open>The body filters\<close>

text \<open>
  A buffer points into a block of memory and into a file: \<open>b_data\<close> and \<open>b_file\<close> are their bytes, the
  positions are offsets into them. \<open>b_in_memory\<close> stands for the flags \<^verbatim>\<open>temporary\<close>, \<^verbatim>\<open>memory\<close> and \<^verbatim>\<open>mmap\<close>.
\<close>

record ngx_buf =
  b_data :: ngx_str
  b_pos :: int
  b_last :: int
  b_file :: ngx_str
  b_file_pos :: int
  b_file_last :: int
  b_in_memory :: bool
  b_in_file :: bool
  b_flush :: bool
  b_sync :: bool
  b_last_buf :: bool

definition ngx_buf_special :: "ngx_buf \<Rightarrow> bool" where
  "ngx_buf_special b \<longleftrightarrow> (b_flush b \<or> b_last_buf b \<or> b_sync b) \<and> \<not> b_in_memory b \<and> \<not> b_in_file b"

definition ngx_buf_size :: "ngx_buf \<Rightarrow> int" where
  "ngx_buf_size b = (if b_in_memory b then b_last b - b_pos b else b_file_last b - b_file_pos b)"

definition ngx_calloc_buf :: ngx_buf where
  "ngx_calloc_buf = \<lparr>b_data = [], b_pos = 0, b_last = 0, b_file = [], b_file_pos = 0, b_file_last = 0,
     b_in_memory = False, b_in_file = False, b_flush = False, b_sync = False, b_last_buf = False\<rparr>"

text \<open>The three changes of a buffer by \<^verbatim>\<open>ngx_http_range_singlepart_body\<close>.\<close>

definition buf_skip :: "ngx_buf \<Rightarrow> ngx_buf" where
  "buf_skip b = (if b_in_file b then b\<lparr>b_file_pos := b_file_last b\<rparr> else b)\<lparr>b_pos := b_last b, b_sync := True\<rparr>"

definition buf_forward :: "int \<Rightarrow> ngx_buf \<Rightarrow> ngx_buf" where
  "buf_forward n b =
     (let b = (if b_in_file b then b\<lparr>b_file_pos := b_file_pos b + n\<rparr> else b)
      in if b_in_memory b then b\<lparr>b_pos := b_pos b + n\<rparr> else b)"

definition buf_shorten :: "int \<Rightarrow> ngx_buf \<Rightarrow> ngx_buf" where
  "buf_shorten n b =
     (let b = (if b_in_file b then b\<lparr>b_file_last := b_file_last b - n\<rparr> else b)
      in if b_in_memory b then b\<lparr>b_last := b_last b - n\<rparr> else b)"

text \<open>
  The chain that is reached from a link that was kept: the next kept link, or, when there is none,
  the links that followed it in the input.
\<close>

definition chain_rest :: "ngx_buf list \<Rightarrow> ngx_buf list \<Rightarrow> ngx_buf list" where
  "chain_rest in_bufs out = (if out = [] then in_bufs else out)"

text \<open>The loop over the chain: the offset, the buffers of the input as it leaves them, the output.\<close>

fun singlepart_loop :: "http_range \<Rightarrow> int \<Rightarrow> ngx_buf list \<Rightarrow> int \<times> ngx_buf list \<times> ngx_buf list" where
  "singlepart_loop g offset [] = (offset, [], [])"
| "singlepart_loop g offset (buf # cl) =
     (let start = offset; fin = offset + ngx_buf_size buf
      in if ngx_buf_special buf then
           (let (offset, bufs, out) = singlepart_loop g fin cl in (offset, buf # bufs, buf # chain_rest bufs out))
         else if sint (rg_end g) \<le> start \<or> sint (rg_start g) \<ge> fin then
           (let (offset, bufs, out) = singlepart_loop g fin cl in (offset, buf_skip buf # bufs, out))
         else
           let buf = (if sint (rg_start g) > start then buf_forward (sint (rg_start g) - start) buf else buf)
           in if sint (rg_end g) \<le> fin then
                let buf = (buf_shorten (fin - sint (rg_end g)) buf)\<lparr>b_last_buf := True\<rparr>
                in (fin, buf # cl, [buf])
              else
                (let (offset, bufs, out) = singlepart_loop g fin cl in (offset, buf # bufs, buf # chain_rest bufs out)))"

text \<open>The end of a body filter: a chain for the next filter, or a return.\<close>

datatype body_end = Next_Body "ngx_buf list" | Body_Return ngx_int

definition ngx_http_range_singlepart_body :: "range_ctx \<Rightarrow> ngx_buf list \<Rightarrow> body_end \<times> range_ctx" where
  "ngx_http_range_singlepart_body ctx bufs =
     (let (offset, bufs, out) = singlepart_loop (hd (rc_ranges ctx)) (rc_offset ctx) bufs
      in (if out = [] then Body_Return NGX_OK else Next_Body out, ctx\<lparr>rc_offset := offset\<rparr>))"

definition ngx_http_range_test_overlapped :: "range_ctx \<Rightarrow> ngx_buf \<Rightarrow> range_ctx option" where
  "ngx_http_range_test_overlapped ctx buf =
     (if rc_offset ctx \<noteq> 0 then None
      else if \<not> b_last_buf buf \<and> (\<exists>g \<in> set (rc_ranges ctx). rc_offset ctx > sint (rg_start g) \<or> rc_offset ctx + ngx_buf_size buf < sint (rg_end g))
      then None
      else Some (ctx\<lparr>rc_offset := ngx_buf_size buf\<rparr>))"

definition mem_buf :: "ngx_str \<Rightarrow> ngx_buf" where
  "mem_buf s = ngx_calloc_buf\<lparr>b_data := s, b_pos := 0, b_last := int (length s), b_in_memory := True\<rparr>"

definition range_data_buf :: "ngx_buf \<Rightarrow> http_range \<Rightarrow> ngx_buf" where
  "range_data_buf buf g =
     (let b = ngx_calloc_buf\<lparr>b_data := b_data buf, b_file := b_file buf, b_in_memory := b_in_memory buf, b_in_file := b_in_file buf\<rparr>;
          b = (if b_in_file buf then b\<lparr>b_file_pos := b_file_pos buf + sint (rg_start g), b_file_last := b_file_pos buf + sint (rg_end g)\<rparr> else b)
      in if b_in_memory buf then b\<lparr>b_pos := b_pos buf + sint (rg_start g), b_last := b_pos buf + sint (rg_end g)\<rparr> else b)"

definition ngx_http_range_multipart_body :: "range_ctx \<Rightarrow> ngx_buf \<Rightarrow> ngx_buf list" where
  "ngx_http_range_multipart_body ctx buf =
     concat (map (\<lambda>g. [mem_buf (rc_boundary_header ctx), mem_buf (rg_content_range g), range_data_buf buf g]) (rc_ranges ctx))
       @ [(mem_buf (take (length (crlf @ bytes ''--'') + unat NGX_ATOMIC_T_LEN) (rc_boundary_header ctx) @ bytes ''--'' @ crlf))\<lparr>b_last_buf := True\<rparr>]"

definition ngx_http_range_body_filter :: "range_ctx option \<Rightarrow> ngx_buf list \<Rightarrow> body_end \<times> range_ctx option" where
  "ngx_http_range_body_filter ctx bufs =
     (if bufs = [] then (Next_Body bufs, ctx)
      else case ctx of
        None \<Rightarrow> (Next_Body bufs, None)
      | Some c \<Rightarrow>
          if length (rc_ranges c) = 1 then
            (let (e, c) = ngx_http_range_singlepart_body c bufs in (e, Some c))
          else if ngx_buf_special (hd bufs) then (Next_Body bufs, ctx)
          else case ngx_http_range_test_overlapped c (hd bufs) of
                 None \<Rightarrow> (Body_Return NGX_ERROR, ctx)
               | Some c \<Rightarrow> (Next_Body (ngx_http_range_multipart_body c (hd bufs)), Some c))"

section \<open>Ranges of short numbers\<close>

text \<open>No run of digits is longer than \<open>k\<close>; \<open>n\<close> digits precede the string.\<close>

fun runs_ok :: "nat \<Rightarrow> nat \<Rightarrow> ngx_str \<Rightarrow> bool" where
  "runs_ok k n [] = True"
| "runs_ok k n (c # p) = (if range_digit c then n < k \<and> runs_ok k (Suc n) p else runs_ok k 0 p)"

lemma runs_ok_mono: "runs_ok k n p \<Longrightarrow> m \<le> n \<Longrightarrow> runs_ok k m p"
  by (induction k n p arbitrary: m rule: runs_ok.induct) auto

lemma runs_ok_suffix: "runs_ok k 0 p \<Longrightarrow> suffix q p \<Longrightarrow> runs_ok k 0 q"
proof (induction p)
  case (Cons c p)
  have "runs_ok k 0 p" using Cons.prems(1) by (auto split: if_splits intro: runs_ok_mono)
  then show ?case using Cons by (auto simp: suffix_Cons)
qed simp

lemma range_digit_uint: "range_digit c \<Longrightarrow> 48 \<le> uint c \<and> uint c \<le> 57"
  by (simp add: range_digit_def word_le_def)

lemma digit_step:
  assumes "range_digit c" "uint (v :: ngx_int) < 10 ^ n" "n < 18"
  shows "uint (v * 10 + ucast c - 0x30) = uint v * 10 + (uint c - 48)"
proof -
  have "(10 :: int) ^ n \<le> 10 ^ 17" using assms(3) by (intro power_increasing) auto
  then have "uint v < 10 ^ 17" using assms(2) by linarith
  then have "uint v * 10 + (uint c - 48) < 2 ^ 64" "0 \<le> uint v * 10 + (uint c - 48)"
    using range_digit_uint [OF assms(1)] uint_ge_0 [of v] by simp_all
  moreover have "v * 10 + ucast c - 0x30 = word_of_int (uint v * 10 + (uint c - 48))"
    by simp
  ultimately show ?thesis by (simp only: uint_wi)
qed

lemma range_digits_bound:
  assumes "range_digits v p = Some (w, q)" "runs_ok k n p" "uint v < 10 ^ n" "n \<le> k" "k \<le> 18"
  shows "uint w < 10 ^ k"
  using assms
proof (induction v p arbitrary: n rule: range_digits.induct)
  case (2 v c p)
  show ?case
  proof (cases "range_digit c")
    case True
    have n: "n < k" "runs_ok k (Suc n) p" using 2 True by auto
    have "uint (v * 10 + ucast c - 0x30) < 10 ^ Suc n"
      using digit_step [OF True 2(4)] range_digit_uint [OF True] 2(4,6) n by simp
    with 2 True n show ?thesis by auto
  next
    case False
    have "(10 :: int) ^ n \<le> 10 ^ k" using 2(5) by (intro power_increasing) auto
    with False 2 show ?thesis by (auto intro: less_le_trans)
  qed
qed simp

lemma small_sint: "uint (v :: ngx_int) < 10 ^ 12 \<Longrightarrow> 0 \<le> sint v \<and> sint v < 10 ^ 12 \<and> sint v = uint v"
  using sint_wi [of "uint v"] uint_ge_0 [of v] by simp

lemma sint_add: "- (2 ^ 63) \<le> sint a + sint b \<Longrightarrow> sint a + sint b < 2 ^ 63 \<Longrightarrow> sint (a + b :: ngx_int) = sint a + sint b"
  using sint_wi [of "sint a + sint b"] by simp

lemma sint_diff: "- (2 ^ 63) \<le> sint a - sint b \<Longrightarrow> sint a - sint b < 2 ^ 63 \<Longrightarrow> sint (a - b :: ngx_int) = sint a - sint b"
  using sint_wi [of "sint a - sint b"] by simp

text \<open>A string that ends with its terminator is never read past.\<close>

definition ends0 :: "ngx_str \<Rightarrow> bool" where
  "ends0 p \<longleftrightarrow> p \<noteq> [] \<and> last p = 0"

lemma ends0_suffix: "ends0 p \<Longrightarrow> suffix q p \<Longrightarrow> q \<noteq> [] \<Longrightarrow> ends0 q"
  by (auto simp: ends0_def suffix_def)

lemma ends0_tl: "ends0 p \<Longrightarrow> hd p \<noteq> 0 \<Longrightarrow> ends0 (tl p)"
  by (cases p) (auto simp: ends0_def split: if_splits)

lemma range_spaces_ends0: "ends0 p \<Longrightarrow> \<exists>q. range_spaces p = Some q \<and> ends0 q \<and> suffix q p"
proof -
  assume e: "ends0 p"
  have "p \<noteq> [] \<Longrightarrow> last p = 0 \<Longrightarrow> \<exists>q. range_spaces p = Some q" by (induction p) (auto split: if_splits)
  then obtain q where "range_spaces p = Some q" using e by (auto simp: ends0_def)
  then show ?thesis using range_spaces_rest ends0_suffix [OF e] by blast
qed

lemma range_digits_ends0: "ends0 p \<Longrightarrow> \<exists>v q. range_digits n p = Some (v, q) \<and> ends0 q \<and> suffix q p"
proof -
  assume e: "ends0 p"
  have "p \<noteq> [] \<Longrightarrow> last p = 0 \<Longrightarrow> \<exists>v q. range_digits n p = Some (v, q)"
    by (induction n p rule: range_digits.induct) (auto simp: range_digit_def split: if_splits)
  then obtain v q where "range_digits n p = Some (v, q)" using e by (auto simp: ends0_def)
  then show ?thesis using range_digits_rest ends0_suffix [OF e] by blast
qed

text \<open>What the reader of one range returns for a length \<open>cl\<close>.\<close>

definition span_ok :: "ngx_int \<Rightarrow> ngx_int \<Rightarrow> ngx_int \<Rightarrow> bool" where
  "span_ok cl s e \<longleftrightarrow> 0 \<le> sint e \<and> sint e \<le> sint cl \<and> - (10 ^ 12) \<le> sint s \<and> sint s < 10 ^ 12 \<and> (0 \<le> sint s \<or> e = cl)"

definition span_end :: "ngx_int \<Rightarrow> ngx_str \<Rightarrow> (ngx_int + ngx_int \<times> ngx_int \<times> ngx_str) option \<Rightarrow> bool" where
  "span_end cl p r \<longleftrightarrow> r = Some (Inl NGX_HTTP_RANGE_NOT_SATISFIABLE) \<or>
     (\<exists>s e q. r = Some (Inr (s, e, q)) \<and> span_ok cl s e \<and> ends0 q \<and> suffix q p)"

lemma span_end_suffix: "span_end cl q r \<Longrightarrow> suffix q p \<Longrightarrow> span_end cl p r"
  unfolding span_end_def by (auto intro: suffix_order.trans)

abbreviation small_length :: "ngx_int \<Rightarrow> bool" where
  "small_length cl \<equiv> 0 \<le> sint cl \<and> sint cl < 10 ^ 12"

lemma span_suffix:
  assumes "small_length cl" "uint v < 10 ^ 12"
  shows "span_ok cl (cl - v) (if cl \<le>s cl - 1 then cl else cl - 1 + 1)"
proof -
  note v = small_sint [OF assms(2)]
  have "sint (cl - v) = sint cl - sint v" by (rule sint_diff) (use assms v in auto)
  then show ?thesis using assms v by (auto simp: span_ok_def)
qed

lemma span_plain:
  assumes "small_length cl" "uint v < 10 ^ 12" "uint s < 10 ^ 12"
  shows "span_ok cl s (if cl \<le>s v then cl else v + 1)"
proof -
  note v = small_sint [OF assms(2)] small_sint [OF assms(3)]
  have "sint (v + 1) = sint v + 1" using sint_add [of v 1] v(1) by simp
  then show ?thesis using assms v by (auto simp: span_ok_def word_sle_eq)
qed

lemma range_last_ok:
  assumes "ends0 p" "runs_ok 12 0 p" "small_length cl" "uint st < 10 ^ 12"
  shows "span_end cl p (range_last cl sfx st p)"
proof (cases "range_digit (hd p)")
  case True
  obtain v q where d: "range_digits 0 p = Some (v, q)" "ends0 q" "suffix q p" using range_digits_ends0 [OF assms(1)] by blast
  have v: "uint v < 10 ^ 12" using range_digits_bound [OF d(1) assms(2)] by simp
  obtain q' where q': "range_spaces q = Some q'" "ends0 q'" "suffix q' q" using range_spaces_ends0 [OF d(2)] by blast
  have "suffix q' p" using q'(3) d(3) by (rule suffix_order.trans)
  then show ?thesis
    using True d q' assms(1) span_suffix [OF assms(3) v] span_plain [OF assms(3) v assms(4)]
    by (auto simp: range_last_def span_end_def ends0_def)
qed (use assms(1) in \<open>auto simp: range_last_def span_end_def ends0_def\<close>)

lemma range_first_ok:
  assumes "ends0 p" "runs_ok 12 0 p" "small_length cl"
  shows "span_end cl p (range_first cl p)"
proof -
  obtain p1 where p1: "range_spaces p = Some p1" "ends0 p1" "suffix p1 p" using range_spaces_ends0 [OF assms(1)] by blast
  have r1: "runs_ok 12 0 p1" by (rule runs_ok_suffix [OF assms(2) p1(3)])
  consider (minus) "hd p1 = ch_minus" | (bad) "hd p1 \<noteq> ch_minus" "\<not> range_digit (hd p1)" | (num) "hd p1 \<noteq> ch_minus" "range_digit (hd p1)" by blast
  then show ?thesis
  proof cases
    case minus
    have t: "ends0 (tl p1)" using ends0_tl [OF p1(2)] minus by simp
    have sf: "suffix (tl p1) p" using p1(3) suffix_tl suffix_order.trans by blast
    show ?thesis
      using span_end_suffix [OF range_last_ok [OF t runs_ok_suffix [OF assms(2) sf] assms(3), of 0 True] sf] p1(1) minus
      by (simp add: range_first_def)
  next
    case bad
    then show ?thesis using p1(1) by (simp add: range_first_def span_end_def)
  next
    case num
    obtain v p2 where p2: "range_digits 0 p1 = Some (v, p2)" "ends0 p2" "suffix p2 p1" using range_digits_ends0 [OF p1(2)] by blast
    have v: "uint v < 10 ^ 12" using range_digits_bound [OF p2(1) r1] by simp
    obtain p3 where p3: "range_spaces p2 = Some p3" "ends0 p3" "suffix p3 p2" using range_spaces_ends0 [OF p2(2)] by blast
    show ?thesis
    proof (cases "hd p3 = ch_minus")
      case True
      have t: "ends0 (tl p3)" using ends0_tl [OF p3(2)] True by simp
      obtain p4 where p4: "range_spaces (tl p3) = Some p4" "ends0 p4" "suffix p4 (tl p3)" using range_spaces_ends0 [OF t] by blast
      have sf: "suffix p4 p" by (meson p4(3) suffix_tl p3(3) p2(3) p1(3) suffix_order.trans)
      have "span_ok cl v cl" using small_sint [OF v] assms(3) by (simp add: span_ok_def)
      moreover have "span_end cl p (range_last cl False v p4)"
        by (rule span_end_suffix [OF range_last_ok [OF p4(2) runs_ok_suffix [OF assms(2) sf] assms(3) v] sf])
      ultimately show ?thesis using p1(1) num p2(1) p3(1) True p4 sf by (auto simp: range_first_def span_end_def)
    next
      case False
      then show ?thesis using p1(1) num p2(1) p3(1) by (simp add: range_first_def span_end_def)
    qed
  qed
qed

text \<open>The invariant of the loop.\<close>

definition range_len :: "http_range \<Rightarrow> int" where
  "range_len g = sint (rg_end g) - sint (rg_start g)"

definition ranges_inv :: "ngx_int \<Rightarrow> ngx_int \<Rightarrow> http_range list \<Rightarrow> bool" where
  "ranges_inv cl sz rs \<longleftrightarrow> sint sz = sum_list (map range_len rs) \<and>
     (\<forall>g \<in> set rs. 0 < range_len g \<and> span_ok cl (rg_start g) (rg_end g))"

definition ranges_in_bounds :: "ngx_int \<Rightarrow> http_range list \<Rightarrow> bool" where
  "ranges_in_bounds cl rs \<longleftrightarrow> rs \<noteq> [] \<and> sum_list (map range_len rs) \<le> sint cl \<and>
     (\<forall>g \<in> set rs. 0 \<le> sint (rg_start g) \<and> sint (rg_start g) < sint (rg_end g) \<and> sint (rg_end g) \<le> sint cl)"

lemma span_len: "small_length cl \<Longrightarrow> span_ok cl (rg_start g) (rg_end g) \<Longrightarrow> range_len g \<le> 2 * 10 ^ 12"
  by (auto simp: span_ok_def range_len_def)

lemma ranges_sum:
  assumes "small_length cl" "\<forall>g \<in> set rs. 0 < range_len g \<and> span_ok cl (rg_start g) (rg_end g)"
  shows "0 \<le> sum_list (map range_len rs) \<and> sum_list (map range_len rs) \<le> 2 * 10 ^ 12 * int (length rs)"
  using assms(2) by (induction rs) (auto dest!: span_len [OF assms(1)] simp: algebra_simps)

lemma member_le_sum: "g \<in> set rs \<Longrightarrow> \<forall>g \<in> set rs. 0 < f g \<Longrightarrow> f g \<le> sum_list (map f rs :: int list)"
  using member_le_sum_list [of "f g" "map f rs"] by (fastforce intro: less_imp_le)

lemma ranges_done:
  assumes "ranges_inv cl sz rs" "small_length cl" "\<not> cl <s sz" "rs \<noteq> []"
  shows "ranges_in_bounds cl rs"
proof -
  have sum: "sum_list (map range_len rs) \<le> sint cl" using assms(1,3) by (auto simp: ranges_inv_def word_sless_alt)
  have "0 \<le> sint (rg_start g) \<and> sint (rg_start g) < sint (rg_end g) \<and> sint (rg_end g) \<le> sint cl" if "g \<in> set rs" for g
  proof -
    have g: "0 < range_len g" "span_ok cl (rg_start g) (rg_end g)" using assms(1) that by (auto simp: ranges_inv_def)
    have "range_len g \<le> sint cl" using member_le_sum [OF that, of range_len] assms(1) sum by (auto simp: ranges_inv_def)
    then show ?thesis using g by (auto simp: span_ok_def range_len_def)
  qed
  then show ?thesis using sum assms(4) by (simp add: ranges_in_bounds_def)
qed

lemma ranges_inv_snoc:
  assumes "ranges_inv cl sz rs" "small_length cl" "span_ok cl s e" "s <s e" "length rs < 10 ^ 6"
  shows "ranges_inv cl (sz + (e - s)) (rs @ [\<lparr>rg_start = s, rg_end = e, rg_content_range = t\<rparr>])"
proof -
  have d: "sint (e - s) = sint e - sint s" by (rule sint_diff) (use assms(2,3) in \<open>auto simp: span_ok_def\<close>)
  have lt: "sint s < sint e" using assms(4) by (simp add: word_sless_alt)
  have "0 \<le> sint sz \<and> sint sz \<le> 2 * 10 ^ 18"
    using ranges_sum [OF assms(2), of rs] assms(1,5) by (auto simp: ranges_inv_def)
  then have "sint (sz + (e - s)) = sint sz + (sint e - sint s)"
    unfolding d [symmetric] by (intro sint_add) (use d lt assms(2,3) in \<open>auto simp: span_ok_def\<close>)
  then show ?thesis using assms(1,3) lt by (auto simp: ranges_inv_def range_len_def)
qed

lemma range_loop_ok:
  assumes "ends0 p" "runs_ok 12 0 p" "small_length cl" "ranges_inv cl sz rs" "length rs + length p \<le> 10 ^ 6"
  shows "\<exists>rc rs'. range_loop cl n sz rs p = Some (rc, rs') \<and>
    (rc = NGX_OK \<longrightarrow> length rs' \<le> length rs + unat n \<and> ranges_in_bounds cl rs')"
  using assms
proof (induction cl n sz rs p rule: range_loop.induct)
  case (1 cl n sz rs p)
  consider "range_first cl p = Some (Inl NGX_HTTP_RANGE_NOT_SATISFIABLE)"
    | s e q where "range_first cl p = Some (Inr (s, e, q))" "span_ok cl s e" "ends0 q" "suffix q p"
    using range_first_ok [OF 1(2-4)] unfolding span_end_def by blast
  then show ?case
  proof cases
    case 1
    then show ?thesis by (subst range_loop.simps) (simp add: ngx_rc)
  next
    case (2 s e q)
    define rs1 where "rs1 = (if s <s e then rs @ [\<lparr>rg_start = s, rg_end = e, rg_content_range = []\<rparr>] else rs)"
    define sz1 where "sz1 = (if s <s e then sz + (e - s) else sz)"
    define n1 where "n1 = (if s <s e then n - 1 else n)"
    have lq: "length q \<le> length p" "0 < length q" using 2(3,4) suffix_length_le by (auto simp: ends0_def)
    have inv: "ranges_inv cl sz1 rs1"
    proof (cases "s <s e")
      case True
      have "length rs < 10 ^ 6" using 1(6) lq by linarith
      from ranges_inv_snoc [OF 1(5) 1(4) 2(2) True this] show ?thesis by (simp add: rs1_def sz1_def True)
    qed (use 1(5) in \<open>simp add: rs1_def sz1_def\<close>)
    have n: "length rs1 + unat n1 = length rs + unat n" if "\<not> (s <s e \<and> n = 0)"
      using that by (auto simp: rs1_def n1_def unat_minus_one unat_gt_0)
    note loop = range_loop.simps [of cl n sz rs p, unfolded 2(1) option.case sum.case prod.case Let_def, folded rs1_def sz1_def n1_def]
    show ?thesis
    proof (cases "s <s e \<and> n = 0 \<or> hd q \<noteq> ch_comma")
      case True
      have "length rs1 \<le> length rs + unat n" if "\<not> (s <s e \<and> n = 0)" using n [OF that] by simp
      then show ?thesis using True ranges_done [OF inv 1(4)] unfolding loop by (auto simp: ngx_rc)
    next
      case False
      have t: "ends0 (tl q)" using ends0_tl [OF 2(3)] False by simp
      have "suffix (tl q) p" using 2(4) suffix_tl suffix_order.trans by blast
      then have r: "runs_ok 12 0 (tl q)" using runs_ok_suffix 1(3) by blast
      have "length rs1 \<le> length rs + 1" by (simp add: rs1_def)
      then have "length rs1 + length (tl q) \<le> 10 ^ 6" using 1(6) lq unfolding length_tl by linarith
      with 1(1) [OF 2(1) refl refl refl refl refl refl, folded rs1_def sz1_def n1_def] False t r 1(4) inv
      show ?thesis unfolding loop by (simp add: n ngx_rc)
    qed
  qed
qed

text \<open>
  C7. The ranges that the \<^verbatim>\<open>Range\<close> header of a request selects lie inside the response: the reader of
  the header ends inside the value, whatever its bytes are, and for a response of less than 10^12 bytes and numbers
  of at most 12 digits every range that it accepts has \<^verbatim>\<open>0 <= start < end <= content_length\<close>, their sizes do not
  exceed the response, and there are at most \<^verbatim>\<open>max_ranges\<close> of them.
\<close>

theorem range_parse_in_bounds:
  assumes "runs_ok 12 0 value" "6 \<le> length value" "length value \<le> 10 ^ 6" "0 \<le> sint cl" "sint cl < 10 ^ 12"
  shows "\<exists>rc rs. ngx_http_range_parse (value @ [0]) cl max_ranges = Some (rc, rs) \<and>
    (rc = NGX_OK \<longrightarrow> length rs \<le> unat max_ranges \<and> ranges_in_bounds cl rs)"
proof -
  have "runs_ok k n (xs @ [0]) = runs_ok k n xs" for k n xs by (induction k n xs rule: runs_ok.induct) (auto simp: range_digit_def)
  then have r: "runs_ok 12 0 (drop 6 (value @ [0]))"
    using assms(1) by (intro runs_ok_suffix [OF _ suffix_drop]) simp
  have e: "ends0 (drop 6 (value @ [0]))" using assms(2) by (simp add: ends0_def)
  have "length ([] :: http_range list) + length (drop 6 (value @ [0])) \<le> 10 ^ 6" using assms(2,3) by simp
  from range_loop_ok [OF e r _ _ this, of cl 0 max_ranges] show ?thesis
    using assms(4,5) by (simp add: ngx_http_range_parse_def ranges_inv_def)
qed

theorem range_parse_in_bounds_witness:
  "\<exists>rc rs. ngx_http_range_parse (bytes ''bytes=0-9, -5'' @ [0]) 100 10 = Some (rc, rs) \<and>
    (rc = NGX_OK \<longrightarrow> length rs \<le> unat (10 :: ngx_uint) \<and> ranges_in_bounds 100 rs)"
  by (rule range_parse_in_bounds) (code_simp, simp_all add: bytes_def)

section \<open>Ranges as they are written\<close>

datatype byte_range = From_To nat nat | From nat | Final nat

definition dec :: "nat \<Rightarrow> ngx_str" where
  "dec n = base_repr 10 dec_table n"

fun print_range :: "byte_range \<Rightarrow> ngx_str" where
  "print_range (From_To a b) = dec a @ ch_minus # dec b"
| "print_range (From a) = dec a @ [ch_minus]"
| "print_range (Final n) = ch_minus # dec n"

fun print_ranges :: "byte_range list \<Rightarrow> ngx_str" where
  "print_ranges [] = []"
| "print_ranges (r # rs) = print_range r @ (if rs = [] then [] else ch_comma # print_ranges rs)"

text \<open>The first byte of a range and the one after the last, for a response of \<open>cl\<close> bytes.\<close>

fun span_of :: "int \<Rightarrow> byte_range \<Rightarrow> int \<times> int" where
  "span_of cl (From_To a b) = (int a, min (int b + 1) cl)"
| "span_of cl (From a) = (int a, cl)"
| "span_of cl (Final n) = (cl - int n, cl)"

fun small_range :: "byte_range \<Rightarrow> bool" where
  "small_range (From_To a b) \<longleftrightarrow> a < 10 ^ 12 \<and> b < 10 ^ 12"
| "small_range (From a) \<longleftrightarrow> a < 10 ^ 12"
| "small_range (Final n) \<longleftrightarrow> n < 10 ^ 12"

definition spans_of :: "int \<Rightarrow> byte_range list \<Rightarrow> (int \<times> int) list" where
  "spans_of cl rs = filter (\<lambda>(s, e). s < e) (map (span_of cl) rs)"

definition range_of_span :: "int \<times> int \<Rightarrow> http_range" where
  "range_of_span sp = \<lparr>rg_start = word_of_int (fst sp), rg_end = word_of_int (snd sp), rg_content_range = []\<rparr>"

definition span_sum :: "(int \<times> int) list \<Rightarrow> int" where
  "span_sum sps = sum_list (map (\<lambda>(s, e). e - s) sps)"

lemma dec_byte:
  assumes "d < 10"
  shows "range_digit (dec_table ! d) \<and> ucast (dec_table ! d) - 0x30 = (of_nat d :: ngx_int)"
proof -
  have "list_all (\<lambda>d. range_digit (dec_table ! d) \<and> ucast (dec_table ! d) - 0x30 = (of_nat d :: ngx_int)) [0..<10]" by code_simp
  then show ?thesis using assms by (auto simp: list_all_iff)
qed

lemma range_digits_dec: "range_digits 0 (dec n @ rest) = range_digits (of_nat n) rest"
  unfolding dec_def
proof (induction n arbitrary: rest rule: less_induct)
  case (less n)
  show ?case
  proof (cases "n < 10")
    case True
    then show ?thesis using dec_byte [OF True] by (subst base_repr.simps) simp
  next
    case False
    have d: "range_digit (dec_table ! (n mod 10)) \<and> ucast (dec_table ! (n mod 10)) - 0x30 = (of_nat (n mod 10) :: ngx_int)"
      by (rule dec_byte) simp
    have "of_nat (n div 10) * 10 + ucast (dec_table ! (n mod 10)) - 0x30 = (of_nat n :: ngx_int)"
    proof -
      have "of_nat (n div 10) * 10 + (ucast (dec_table ! (n mod 10)) - 0x30) = (of_nat (n div 10 * 10 + n mod 10) :: ngx_int)"
        unfolding conjunct2 [OF d] by (simp only: of_nat_add of_nat_mult of_nat_numeral)
      then show ?thesis by (simp only: div_mult_mod_eq add_diff_eq)
    qed
    then show ?thesis using False d less [of "n div 10"] by (subst base_repr.simps) simp
  qed
qed

lemma dec_hd: "\<exists>c q. dec n = c # q \<and> range_digit c"
  unfolding dec_def
proof (induction n rule: less_induct)
  case (less n)
  show ?case
  proof (cases "n < 10")
    case True
    then show ?thesis using dec_byte [OF True] by (subst base_repr.simps) simp
  next
    case False
    then obtain c q where "base_repr 10 dec_table (n div 10) = c # q" "range_digit c" using less [of "n div 10"] by auto
    then show ?thesis using False by (subst base_repr.simps) simp
  qed
qed

lemma range_spaces_hd: "c \<noteq> ch_sp \<Longrightarrow> range_spaces (c # p) = Some (c # p)"
  by simp

lemma range_spaces_dec: "range_spaces (dec n @ rest) = Some (dec n @ rest)"
  using dec_hd [of n] by (auto simp: range_digit_def)

lemma dec_hd_digit: "range_digit (hd (dec n @ rest))" "dec n @ rest \<noteq> []" "hd (dec n @ rest) \<noteq> ch_minus"
  "hd (dec n @ rest) \<noteq> ch_comma" "hd (dec n @ rest) \<noteq> 0"
  using dec_hd [of n] by (auto simp: range_digit_def)

lemma wi_nat: "(of_nat n :: ngx_int) = word_of_int (int n)"
  by simp

lemma range_last_print:
  assumes "c = ch_comma \<or> c = 0" "n < 10 ^ 12" "0 \<le> sint cl" "sint cl < 10 ^ 12"
  shows "range_last cl False st (dec n @ c # q) = Some (Inr (st, word_of_int (min (int n + 1) (sint cl)), c # q))"
    "range_last cl True st (dec n @ c # q) = Some (Inr (word_of_int (sint cl - int n), cl, c # q))"
proof -
  have c: "\<not> range_digit c" "c \<noteq> ch_sp" using assms(1) by (auto simp: range_digit_def)
  have n: "sint (of_nat n :: ngx_int) = int n" unfolding wi_nat by (rule sint_wi) (use assms(2) in auto)
  have cl: "(word_of_int (sint cl) :: ngx_int) = cl" by simp
  have le: "(cl \<le>s of_nat n) = (sint cl \<le> int n)" unfolding word_sle_eq n ..
  show "range_last cl False st (dec n @ c # q) = Some (Inr (st, word_of_int (min (int n + 1) (sint cl)), c # q))"
    using c assms(1) by (auto simp: range_last_def dec_hd_digit range_digits_dec le min_def)
  have "sint (cl - 1) = sint cl - 1" by (rule sint_diff [of cl 1, simplified]) (use assms(3,4) in auto)
  then have "\<not> cl \<le>s cl - 1" by (simp add: word_sle_eq)
  then show "range_last cl True st (dec n @ c # q) = Some (Inr (word_of_int (sint cl - int n), cl, c # q))"
    using c assms(1) by (auto simp: range_last_def dec_hd_digit range_digits_dec)
qed

lemma range_first_print:
  assumes "c = ch_comma \<or> c = 0" "small_range r" "0 \<le> sint cl" "sint cl < 10 ^ 12"
  shows "range_first cl (print_range r @ c # q) =
    Some (Inr (word_of_int (fst (span_of (sint cl) r)), word_of_int (snd (span_of (sint cl) r)), c # q))"
proof (cases r)
  case (From_To a b)
  have "\<not> range_digit ch_minus" by (simp add: range_digit_def)
  then show ?thesis using From_To assms range_last_print(1) [OF assms(1) _ assms(3,4), of b]
    by (auto simp: range_first_def range_spaces_dec dec_hd_digit range_digits_dec)
next
  case (From a)
  have "\<not> range_digit ch_minus" "c \<noteq> ch_sp" using assms(1) by (auto simp: range_digit_def)
  then show ?thesis using From assms by (auto simp: range_first_def range_spaces_dec dec_hd_digit range_digits_dec)
next
  case (Final n)
  then show ?thesis using assms range_last_print(2) [OF assms(1) _ assms(3,4), of n] by (simp add: range_first_def)
qed

lemma span_small:
  assumes "small_range r" "0 \<le> cl" "cl < 10 ^ 12"
  shows "- (10 ^ 12) \<le> fst (span_of cl r) \<and> fst (span_of cl r) < 10 ^ 12 \<and> 0 \<le> snd (span_of cl r) \<and> snd (span_of cl r) < 10 ^ 12"
  using assms by (cases r) auto

lemma wi_small_less:
  assumes "- (10 ^ 12) \<le> a" "a < 10 ^ 12" "- (10 ^ 12) \<le> b" "b < 10 ^ 12"
  shows "(word_of_int a <s (word_of_int b :: ngx_int)) = (a < b)"
  using assms sint_wi [of a] sint_wi [of b] by (simp add: word_sless_alt)

definition range_result :: "ngx_int \<Rightarrow> ngx_int \<Rightarrow> http_range list \<Rightarrow> (ngx_int \<times> http_range list) option" where
  "range_result cl sz gs =
     Some (if gs = [] then NGX_HTTP_RANGE_NOT_SATISFIABLE else if cl <s sz then NGX_DECLINED else NGX_OK, gs)"

lemma spans_of_Nil: "spans_of cl [] = []"
  by (simp add: spans_of_def)

lemma range_loop_print:
  assumes "rs \<noteq> []" "list_all small_range rs" "0 \<le> sint cl" "sint cl < 10 ^ 12" "length rs \<le> unat n"
  shows "range_loop cl n sz acc (print_ranges rs @ [0]) =
    range_result cl (sz + word_of_int (span_sum (spans_of (sint cl) rs))) (acc @ map range_of_span (spans_of (sint cl) rs))"
  using assms
proof (induction rs arbitrary: n sz acc)
  case (Cons r rs)
  define s e where "s = fst (span_of (sint cl) r)" and "e = snd (span_of (sint cl) r)"
  have lt: "(word_of_int s <s (word_of_int e :: ngx_int)) = (s < e)"
    using span_small [of r "sint cl"] Cons.prems by (intro wi_small_less) (auto simp: s_def e_def)
  have n0: "n \<noteq> 0" using Cons.prems(5) by auto
  note n = n0 unat_minus_one [OF n0]
  define q where "q = (if rs = [] then [0] else ch_comma # print_ranges rs @ [0])"
  have p: "print_ranges (r # rs) @ [0] = print_range r @ hd q # tl q" by (simp add: q_def)
  have first: "range_first cl (print_range r @ hd q # tl q) = Some (Inr (word_of_int s, word_of_int e, hd q # tl q))"
    unfolding s_def e_def by (rule range_first_print) (use Cons.prems in \<open>auto simp: q_def\<close>)
  have spans: "spans_of (sint cl) (r # rs) = (if s < e then (s, e) # spans_of (sint cl) rs else spans_of (sint cl) rs)"
    by (auto simp: spans_of_def s_def e_def split: prod.split)
  let ?n = "if s < e then n - 1 else n"
  have n1: "length rs \<le> unat ?n" using Cons.prems(5) n(2) by auto
  show ?case
  proof (cases "rs = []")
    case True
    then show ?thesis unfolding p spans using first lt n
      by (subst range_loop.simps) (auto simp: q_def spans_of_Nil range_result_def Let_def range_of_span_def span_sum_def)
  next
    case False
    then show ?thesis unfolding p spans using first lt n Cons.IH [OF False _ Cons.prems(3,4) n1] Cons.prems(2)
      by (subst range_loop.simps) (auto simp: q_def Let_def range_of_span_def [of "(s, e)"] span_sum_def algebra_simps)
  qed
qed simp

lemma span_sum_bound:
  assumes "list_all small_range rs" "0 \<le> cl" "cl < 10 ^ 12"
  shows "0 \<le> span_sum (spans_of cl rs) \<and> span_sum (spans_of cl rs) \<le> 2 * 10 ^ 12 * int (length rs)"
  using assms(1)
proof (induction rs)
  case (Cons r rs)
  then show ?case using span_small [of r cl] assms(2,3) by (auto simp: spans_of_def span_sum_def split: prod.split)
qed (simp add: spans_of_def span_sum_def)

text \<open>
  The reader of the \<^verbatim>\<open>Range\<close> header understands every list of ranges \<^verbatim>\<open>a-b\<close>, \<^verbatim>\<open>a-\<close> and \<^verbatim>\<open>-n\<close>: it
  returns the ranges of the response that they select, in their order, without those that select nothing; the
  result is 416 when nothing is left and a refusal (the whole response is sent) when they select more than the
  response has.
\<close>

theorem range_parse_printed:
  assumes "rs \<noteq> []" "list_all small_range rs" "0 \<le> sint cl" "sint cl < 10 ^ 12" "length rs \<le> unat max_ranges" "length rs \<le> 10 ^ 6"
  shows "ngx_http_range_parse (bytes ''bytes='' @ print_ranges rs @ [0]) cl max_ranges =
    Some (let spans = spans_of (sint cl) rs
          in (if spans = [] then NGX_HTTP_RANGE_NOT_SATISFIABLE else if sint cl < span_sum spans then NGX_DECLINED else NGX_OK,
              map range_of_span spans))"
proof -
  have "sint (word_of_int (span_sum (spans_of (sint cl) rs)) :: ngx_int) = span_sum (spans_of (sint cl) rs)"
    by (rule sint_wi) (use span_sum_bound [OF assms(2-4)] assms(6) in auto)
  moreover have "drop 6 (bytes ''bytes='' @ print_ranges rs @ [0]) = print_ranges rs @ [0]" by (simp add: bytes_def)
  ultimately show ?thesis
    unfolding ngx_http_range_parse_def using range_loop_print [OF assms(1-5), of 0 "[]"]
    by (simp add: range_result_def Let_def word_sless_alt)
qed

theorem range_parse_printed_witness:
  "ngx_http_range_parse (bytes ''bytes='' @ print_ranges [From_To 0 9, From 200, Final 5] @ [0]) 100 10 =
    Some (let spans = spans_of (sint (100 :: ngx_int)) [From_To 0 9, From 200, Final 5]
          in (if spans = [] then NGX_HTTP_RANGE_NOT_SATISFIABLE else if sint (100 :: ngx_int) < span_sum spans then NGX_DECLINED else NGX_OK,
              map range_of_span spans))"
  by (rule range_parse_printed) simp_all

text \<open>
  Numbers that wrap defeat the checks: with 100 bytes, \<^verbatim>\<open>bytes=-200,-9223372036854775800\<close> is accepted
  although both ranges start before the response, since the sum of their sizes is negative, and
  \<^verbatim>\<open>bytes=18446744073709551615-5\<close> is accepted as the range that starts at byte -1.
\<close>

lemma range_sizes_wrap:
  "map_option (\<lambda>(rc, rs). (rc, map (\<lambda>g. (sint (rg_start g), sint (rg_end g))) rs))
     (ngx_http_range_parse (bytes ''bytes=-200,-9223372036854775800'' @ [0]) 100 10)
     = Some (NGX_OK, [(- 100, 100), (- 9223372036854775700, 100)])
   \<and> map_option (\<lambda>(rc, rs). (rc, map (\<lambda>g. (sint (rg_start g), sint (rg_end g))) rs))
     (ngx_http_range_parse (bytes ''bytes=18446744073709551615-5'' @ [0]) 100 10)
     = Some (NGX_OK, [(- 1, 6)])"
  by code_simp

end
