(* ===== verification/Ngx_Range_Body.thy ===== *)
theory Ngx_Range_Body
  imports Ngx_Ranges
begin

text \<open>
  The body filters of \<open>Ngx_Ranges\<close>: the bytes that a chain of buffers stands for, the streaming of a single
  range, the parts of several ranges, and the composition of the header filter with the body filter.
\<close>

section \<open>The bytes of a chain\<close>

definition block :: "ngx_str \<Rightarrow> int \<Rightarrow> int \<Rightarrow> ngx_str option" where
  "block xs i j = (if 0 \<le> i \<and> i \<le> j \<and> j \<le> int (length xs) then Some (take (nat (j - i)) (drop (nat i) xs)) else None)"

text \<open>\<open>None\<close> is a read outside the memory or the file.\<close>

definition buf_bytes :: "ngx_buf \<Rightarrow> ngx_str option" where
  "buf_bytes b = (if b_in_memory b then block (b_data b) (b_pos b) (b_last b)
     else if b_in_file b then block (b_file b) (b_file_pos b) (b_file_last b) else Some [])"

fun chain_bytes :: "ngx_buf list \<Rightarrow> ngx_str option" where
  "chain_bytes [] = Some []"
| "chain_bytes (b # bs) = Option.bind (buf_bytes b) (\<lambda>x. map_option ((@) x) (chain_bytes bs))"

text \<open>A buffer that is in memory and in a file has as many bytes in both.\<close>

definition buf_ok :: "ngx_buf \<Rightarrow> bool" where
  "buf_ok b \<longleftrightarrow>
     (b_in_memory b \<longrightarrow> 0 \<le> b_pos b \<and> b_pos b \<le> b_last b \<and> b_last b \<le> int (length (b_data b))) \<and>
     (b_in_file b \<longrightarrow> 0 \<le> b_file_pos b \<and> b_file_pos b \<le> b_file_last b \<and> b_file_last b \<le> int (length (b_file b))) \<and>
     (b_in_memory b \<and> b_in_file b \<longrightarrow> b_last b - b_pos b = b_file_last b - b_file_pos b) \<and>
     (\<not> b_in_memory b \<and> \<not> b_in_file b \<longrightarrow> b_file_last b = b_file_pos b)"

text \<open>The bytes of the response from \<open>s\<close> up to \<open>e\<close> among \<open>bs\<close>, whose first byte is at \<open>k\<close>.\<close>

definition part :: "nat \<Rightarrow> nat \<Rightarrow> nat \<Rightarrow> ngx_str \<Rightarrow> ngx_str" where
  "part s e k bs = take (e - max s k) (drop (s - k) bs)"

lemma part_append: "part s e k (a @ b) = part s e k a @ part s e (k + length a) b"
proof (cases "s - k \<ge> length a")
  case True
  then show ?thesis by (cases "s \<le> k"; cases "s = k + length a") (auto simp: part_def max_def)
next
  case False
  then show ?thesis by (auto simp: part_def max_def)
qed

lemma part_before: "k + length bs \<le> s \<Longrightarrow> part s e k bs = []"
  by (simp add: part_def)

lemma part_after: "e \<le> k \<Longrightarrow> part s e k bs = []"
  by (simp add: part_def)

lemma buf_ok_bytes: "buf_ok b \<Longrightarrow> \<exists>x. buf_bytes b = Some x \<and> int (length x) = ngx_buf_size b"
  by (auto simp: buf_ok_def buf_bytes_def block_def ngx_buf_size_def)

lemma chain_bytes_append: "chain_bytes (a @ b) = Option.bind (chain_bytes a) (\<lambda>x. map_option ((@) x) (chain_bytes b))"
proof (induction a)
  case (Cons c a)
  then show ?case by (cases "buf_bytes c"; cases "chain_bytes a"; cases "chain_bytes b") auto
qed (cases "chain_bytes b"; simp)

lemma special_bytes: "buf_ok b \<Longrightarrow> ngx_buf_special b \<Longrightarrow> buf_bytes b = Some [] \<and> ngx_buf_size b = 0"
  by (auto simp: ngx_buf_special_def buf_bytes_def buf_ok_def ngx_buf_size_def)

lemma buf_skip_bytes: "buf_ok b \<Longrightarrow> buf_bytes (buf_skip b) = Some []"
  by (auto simp: buf_skip_def buf_bytes_def block_def buf_ok_def)

lemma block_part:
  assumes "block xs i j = Some x" "0 \<le> n" "n \<le> j - i"
  shows "block xs (i + n) j = Some (drop (nat n) x)" "block xs i (j - n) = Some (take (length x - nat n) x)"
proof -
  have ij: "0 \<le> i" "i \<le> j" "j \<le> int (length xs)" "x = take (nat (j - i)) (drop (nat i) xs)" using assms(1) by (auto simp: block_def split: if_splits)
  have "nat (j - (i + n)) = nat (j - i) - nat n" "nat (i + n) = nat n + nat i" using assms(2,3) ij(1) by auto
  then show "block xs (i + n) j = Some (drop (nat n) x)" using ij assms(2,3) by (simp add: block_def drop_take)
  have "length x = nat (j - i)" using ij by auto
  moreover have "nat (j - n - i) = nat (j - i) - nat n" using assms(2,3) by auto
  ultimately show "block xs i (j - n) = Some (take (length x - nat n) x)" using ij assms(2,3) by (simp add: block_def min_def)
qed

lemma buf_forward_ok:
  assumes "buf_ok b" "0 \<le> n" "n \<le> ngx_buf_size b" "buf_bytes b = Some x"
  shows "buf_ok (buf_forward n b) \<and> buf_bytes (buf_forward n b) = Some (drop (nat n) x)"
proof (cases "b_in_memory b")
  case True
  then show ?thesis using assms block_part(1) [of "b_data b" "b_pos b" "b_last b" x n]
    by (cases "b_in_file b") (auto simp: buf_forward_def buf_ok_def buf_bytes_def ngx_buf_size_def)
next
  case False
  then show ?thesis using assms block_part(1) [of "b_file b" "b_file_pos b" "b_file_last b" x n]
    by (cases "b_in_file b") (auto simp: buf_forward_def buf_ok_def buf_bytes_def ngx_buf_size_def)
qed

lemma buf_shorten_ok:
  assumes "buf_ok b" "0 \<le> n" "n \<le> ngx_buf_size b" "buf_bytes b = Some x"
  shows "buf_bytes ((buf_shorten n b)\<lparr>b_last_buf := True\<rparr>) = Some (take (length x - nat n) x)"
proof (cases "b_in_memory b")
  case True
  then show ?thesis using assms block_part(2) [of "b_data b" "b_pos b" "b_last b" x n]
    by (cases "b_in_file b") (auto simp: buf_shorten_def buf_ok_def buf_bytes_def ngx_buf_size_def)
next
  case False
  then show ?thesis using assms block_part(2) [of "b_file b" "b_file_pos b" "b_file_last b" x n]
    by (cases "b_in_file b") (auto simp: buf_shorten_def buf_ok_def buf_bytes_def ngx_buf_size_def)
qed

lemma kept_bytes:
  assumes "buf_ok b" "buf_bytes b = Some x" "s < e" "k < e" "s < k + length x"
    and "b' = (if int s > int k then buf_forward (int s - int k) b else b)"
  shows "buf_bytes b' = Some (drop (s - k) x)"
    "e \<le> k + length x \<Longrightarrow> buf_bytes ((buf_shorten (int (k + length x) - int e) b')\<lparr>b_last_buf := True\<rparr>) = Some (part s e k x)"
proof -
  have sz: "ngx_buf_size b = int (length x)" using buf_ok_bytes [OF assms(1)] assms(2) by auto
  have b': "buf_ok b' \<and> buf_bytes b' = Some (drop (s - k) x)"
  proof (cases "k < s")
    case True
    then show ?thesis using buf_forward_ok [OF assms(1) _ _ assms(2), of "int s - int k"] assms(5,6) sz by (simp add: nat_diff_distrib)
  qed (use assms in auto)
  then show "buf_bytes b' = Some (drop (s - k) x)" by simp
  have sz': "ngx_buf_size b' = int (length x - (s - k))" using buf_ok_bytes [of b'] b' by auto
  assume e: "e \<le> k + length x"
  have "nat (int (k + length x) - int e) = k + length x - e" using e by (simp add: nat_diff_distrib)
  moreover have "length x - (s - k) - (k + length x - e) = e - max s k" using assms(3-5) e by auto
  ultimately show "buf_bytes ((buf_shorten (int (k + length x) - int e) b')\<lparr>b_last_buf := True\<rparr>) = Some (part s e k x)"
    using buf_shorten_ok [of b' "int (k + length x) - int e"] b' sz' assms(3-5) e by (auto simp: part_def)
qed

definition singlepart_done :: "nat \<Rightarrow> nat \<Rightarrow> nat \<Rightarrow> ngx_str \<Rightarrow> int \<times> ngx_buf list \<times> ngx_buf list \<Rightarrow> bool" where
  "singlepart_done s e k x r \<longleftrightarrow> (case r of (offset, bufs, out) \<Rightarrow>
     chain_bytes (chain_rest bufs out) = Some (part s e k x) \<and> (out = [] \<longrightarrow> part s e k x = []) \<and>
     (offset = int (k + length x) \<or> int e \<le> offset \<and> offset \<le> int (k + length x)))"

lemma singlepart_ok:
  assumes "list_all buf_ok bufs" "sint (rg_start g) = int s" "sint (rg_end g) = int e" "s < e"
  shows "\<exists>x. chain_bytes bufs = Some x \<and> singlepart_done s e k x (singlepart_loop g (int k) bufs)"
  using assms(1)
proof (induction bufs arbitrary: k)
  case Nil
  show ?case by (simp add: singlepart_done_def chain_rest_def part_def)
next
  case (Cons b bufs)
  obtain y where y: "buf_bytes b = Some y" "ngx_buf_size b = int (length y)" using buf_ok_bytes [of b] Cons.prems by auto
  obtain x where x: "chain_bytes bufs = Some x" "singlepart_done s e (k + length y) x (singlepart_loop g (int (k + length y)) bufs)"
    using Cons.IH [of "k + length y"] Cons.prems by auto
  obtain off bs out where l: "singlepart_loop g (int (k + length y)) bufs = (off, bs, out)" by (cases "singlepart_loop g (int (k + length y)) bufs") auto
  have fin: "int k + ngx_buf_size b = int (k + length y)" using y(2) by simp
  note d = x(2) [unfolded l singlepart_done_def prod.case]
  have step: "singlepart_done s e k (y @ x) (off, b' # bs, b' # chain_rest bs out)" if "buf_bytes b' = Some (part s e k y)" for b'
    using d that by (auto simp: singlepart_done_def chain_rest_def part_append)
  have "singlepart_done s e k (y @ x) (singlepart_loop g (int k) (b # bufs))"
  proof -
    consider (special) "ngx_buf_special b" | (skip) "\<not> ngx_buf_special b" "e \<le> k \<or> s \<ge> k + length y"
      | (final) "\<not> ngx_buf_special b" "k < e" "s < k + length y" "e \<le> k + length y"
      | (keep) "\<not> ngx_buf_special b" "k < e" "s < k + length y" "k + length y < e" by linarith
    then show ?thesis
    proof cases
      case special
      then have "y = []" using special_bytes [of b] y(1) Cons.prems by auto
      then show ?thesis using step [of b] special y l by (simp add: part_def Let_def assms(2,3))
    next
      case skip
      then have pt: "part s e k y = []" using part_before part_after by blast
      have loop: "singlepart_loop g (int k) (b # bufs) = (off, buf_skip b # bs, out)"
        using skip by (auto simp: Let_def fin l assms(2,3) simp del: of_nat_add)
      have "buf_bytes (buf_skip b) = Some []" using buf_skip_bytes Cons.prems by simp
      then show ?thesis using d unfolding loop
        by (cases "out = []") (simp_all add: singlepart_done_def chain_rest_def part_append pt add.assoc)
    next
      case final
      have "part s e (k + length y) x = []" using final(4) by (rule part_after)
      then show ?thesis using final kept_bytes(2) [OF _ y(1) assms(4) final(2,3) refl final(4)] Cons.prems
        by (simp add: Let_def fin assms(2,3) singlepart_done_def chain_rest_def part_append del: of_nat_add split: if_splits)
    next
      case keep
      have "part s e k y = drop (s - k) y" using keep(4) by (auto simp: part_def max_def)
      then show ?thesis using keep step kept_bytes(1) [OF _ y(1) assms(4) keep(2,3) refl] Cons.prems
        by (simp add: Let_def fin l assms(2,3) del: of_nat_add split: if_splits)
    qed
  qed
  moreover have "chain_bytes (b # bufs) = Some (y @ x)" using x(1) y(1) by simp
  ultimately show ?case by blast
qed

text \<open>The filter over the successive chains of a response: the buffers it passes on.\<close>

definition passed :: "body_end \<Rightarrow> ngx_buf list" where
  "passed r = (case r of Next_Body out \<Rightarrow> out | Body_Return rc \<Rightarrow> [])"

fun body_calls :: "range_ctx option \<Rightarrow> ngx_buf list list \<Rightarrow> ngx_buf list" where
  "body_calls ctx [] = []"
| "body_calls ctx (bufs # calls) =
     (case ngx_http_range_body_filter ctx bufs of (r, ctx) \<Rightarrow> passed r @ body_calls ctx calls)"

lemma body_calls_ok:
  assumes "list_all (list_all buf_ok) calls" "rc_ranges ctx = [g]" "sint (rg_start g) = int s" "sint (rg_end g) = int e" "s < e"
    and "rc_offset ctx = int k" "k = t \<or> e \<le> k \<and> k \<le> t"
  shows "\<exists>x. chain_bytes (concat calls) = Some x \<and> chain_bytes (body_calls (Some ctx) calls) = Some (part s e t x)"
  using assms(1,2,6,7)
proof (induction calls arbitrary: ctx k t)
  case Nil
  show ?case by (simp add: part_def)
next
  case (Cons bufs calls)
  obtain x where x: "chain_bytes bufs = Some x" "singlepart_done s e k x (singlepart_loop g (int k) bufs)"
    using singlepart_ok [OF _ assms(3-5), of bufs k] Cons.prems by auto
  obtain off bs out where l: "singlepart_loop g (int k) bufs = (off, bs, out)" by (cases "singlepart_loop g (int k) bufs") auto
  note d = x(2) [unfolded l singlepart_done_def prod.case]
  have k: "part s e k x = part s e t x" using Cons.prems(4) by (auto simp: part_after)
  have out: "chain_bytes out = Some (part s e t x)" using d k by (auto simp: chain_rest_def split: if_splits)
  have "ngx_http_range_body_filter (Some ctx) bufs = (if bufs = [] then (Next_Body [], Some ctx)
      else (if out = [] then Body_Return NGX_OK else Next_Body out, Some (ctx\<lparr>rc_offset := off\<rparr>)))"
    using Cons.prems(2,3) l by (simp add: ngx_http_range_body_filter_def ngx_http_range_singlepart_body_def Let_def)
  then have unfolded: "body_calls (Some ctx) (bufs # calls) = out @ body_calls (Some (ctx\<lparr>rc_offset := off\<rparr>)) calls"
    using l Cons.prems(3) by (cases "bufs = []") (auto simp: passed_def)
  obtain k' where k': "off = int k'" using d by (metis of_nat_0_le_iff order.trans nonneg_int_cases)
  obtain z where "chain_bytes (concat calls) = Some z"
    "chain_bytes (body_calls (Some (ctx\<lparr>rc_offset := off\<rparr>)) calls) = Some (part s e (t + length x) z)"
    using Cons.IH [of "ctx\<lparr>rc_offset := off\<rparr>" k' "t + length x"] Cons.prems d k' by auto
  then show ?case using x(1) out by (simp only: unfolded) (simp add: chain_bytes_append part_append)
qed

text \<open>
  C8. A single range streams the bytes it selects: however the response is cut into buffers, in memory or in a
  file, and however these are spread over calls of the filter, the chains that the filter passes on hold, in order,
  exactly the bytes of the response from \<^verbatim>\<open>start\<close> up to \<^verbatim>\<open>end\<close>, and no buffer reads outside its memory
  or file.
\<close>

theorem single_range_streams:
  assumes "list_all (list_all buf_ok) calls" "chain_bytes (concat calls) = Some body"
    and "0 \<le> sint (rg_start g)" "sint (rg_start g) < sint (rg_end g)"
  shows "chain_bytes (body_calls (Some \<lparr>rc_offset = 0, rc_boundary_header = h, rc_ranges = [g]\<rparr>) calls)
    = Some (take (nat (sint (rg_end g) - sint (rg_start g))) (drop (nat (sint (rg_start g))) body))"
proof -
  have "part (nat (sint (rg_start g))) (nat (sint (rg_end g))) 0 body = take (nat (sint (rg_end g) - sint (rg_start g))) (drop (nat (sint (rg_start g))) body)"
    using assms(3,4) by (simp add: part_def nat_diff_distrib)
  then show ?thesis
    using body_calls_ok [OF assms(1), of "\<lparr>rc_offset = 0, rc_boundary_header = h, rc_ranges = [g]\<rparr>" g "nat (sint (rg_start g))" "nat (sint (rg_end g))" 0 0]
      assms(2-4) by auto
qed

definition text_buf :: "string \<Rightarrow> ngx_buf" where
  "text_buf s = mem_buf (bytes s)"

theorem single_range_streams_witness:
  "chain_bytes (body_calls (Some \<lparr>rc_offset = 0, rc_boundary_header = [], rc_ranges = [\<lparr>rg_start = 2, rg_end = 7, rg_content_range = []\<rparr>]\<rparr>)
      [[text_buf ''hel'', text_buf ''lo ''], [text_buf ''world'']])
    = Some (take (nat (sint (7 :: ngx_int) - sint (2 :: ngx_int))) (drop (nat (sint (2 :: ngx_int))) (bytes ''hello world'')))"
  using single_range_streams [of "[[text_buf ''hel'', text_buf ''lo ''], [text_buf ''world'']]" "bytes ''hello world''"
      "\<lparr>rg_start = 2, rg_end = 7, rg_content_range = []\<rparr>" "[]"]
  by (simp add: text_buf_def mem_buf_def buf_ok_def ngx_calloc_buf_def bytes_def buf_bytes_def block_def)

section \<open>What the headers of the parts say\<close>

definition off_text :: "ngx_int \<Rightarrow> ngx_str" where
  "off_text v = (if v <s 0 then ch_minus # dec (unat (- v)) else dec (unat v))"

definition boundary_text :: "ngx_uint \<Rightarrow> ngx_str" where
  "boundary_text v = replicate (20 - length (dec (unat v))) ch_0 @ dec (unat v)"

lemma print_literal:
  "list_all (\<lambda>c. c \<noteq> ch_percent) lit \<Longrightarrow> ngx_vslprintf None buf (lit @ fmt) args = ngx_vslprintf None (buf @ lit) fmt args"
  by (induction lit arbitrary: buf) auto

lemmas print_unfold = fmt_spec_init_def fmt_conv_def fmt_is_integer_def fmt_integer_def arg64_def fmt_put_integer_def
  ngx_sprintf_num_def sprintf_digits_repr

lemma print_O: "ngx_vslprintf None buf (ch_percent # ch_O # fmt) (Arg64 v # args) = ngx_vslprintf None (buf @ off_text v) fmt args"
  by (simp add: print_unfold off_text_def dec_def)

lemma print_V: "ngx_vslprintf None buf (ch_percent # ch_V # fmt) (ArgStr s # args) = ngx_vslprintf None (buf @ s) fmt args"
  by (simp add: print_unfold)

lemma print_A: "ngx_vslprintf None buf (ch_percent # ch_0 # ch_m # ch_u # ch_A # fmt) (Arg64 v # args) = ngx_vslprintf None (buf @ boundary_text v) fmt args"
  by (simp add: print_unfold boundary_text_def dec_def NGX_ATOMIC_T_LEN_def Let_def)

lemma boundary_text_length: "length (boundary_text v) = 20"
proof -
  have "unat v < 10 ^ Suc 19" using unsigned_less [of v, where ?'a = nat] by simp
  then have "length (dec (unat v)) \<le> Suc 19" unfolding dec_def by (intro base_repr_length) auto
  then show ?thesis by (simp add: boundary_text_def)
qed

lemma off_text_length: "length (off_text v) \<le> 20"
proof -
  have "length (dec n) \<le> Suc 18" if "n \<le> 2 ^ 63" for n
    unfolding dec_def using that by (intro base_repr_length) auto
  moreover have "unat v \<le> 2 ^ 63" if "\<not> v <s 0"
  proof -
    have "0 \<le> sint v" using that by (simp add: word_sless_alt)
    then have "uint v \<le> 2 ^ 63" using uint_wi [of "sint v"] sint_less [of v] by simp
    then show ?thesis by (simp only: unat_eq_nat_uint nat_le_iff of_nat_power of_nat_numeral)
  qed
  moreover have "unat (- v) \<le> 2 ^ 63" if "v <s 0"
  proof -
    have "sint v < 0" "- (2 ^ 63) \<le> sint v" using that sint_ge [of v] by (auto simp: word_sless_alt)
    moreover have "- v = word_of_int (- sint v)" by simp
    ultimately have "uint (- v) \<le> 2 ^ 63" using uint_wi [of "- sint v"] by simp
    then show ?thesis by (simp only: unat_eq_nat_uint nat_le_iff of_nat_power of_nat_numeral)
  qed
  ultimately show ?thesis unfolding off_text_def by fastforce
qed

lemma print_end: "ngx_vslprintf None buf [] args = Some buf"
  by simp

definition range_text :: "ngx_int \<Rightarrow> http_range \<Rightarrow> ngx_str" where
  "range_text cl g = off_text (rg_start g) @ [ch_minus] @ off_text (rg_end g - 1) @ [ch_slash] @ off_text cl @ crlf @ crlf"

lemma range_text_printed:
  "pool_sprintf (3 * NGX_OFF_T_LEN + 2 + 4) (bytes ''%O-%O/%O'' @ crlf @ crlf) [Arg64 (rg_start g), Arg64 (rg_end g - 1), Arg64 cl]
     = Some (range_text cl g)"
proof -
  have fmt: "bytes ''%O-%O/%O'' @ crlf @ crlf =
      ch_percent # ch_O # [ch_minus] @ ch_percent # ch_O # [ch_slash] @ ch_percent # ch_O # (crlf @ crlf) @ []"
    by (simp add: bytes_def)
  have lits: "list_all (\<lambda>c. c \<noteq> ch_percent) [ch_minus]" "list_all (\<lambda>c. c \<noteq> ch_percent) [ch_slash]" "list_all (\<lambda>c. c \<noteq> ch_percent) (crlf @ crlf)"
    by (simp_all add: crlf_def)
  have "ngx_sprintf (bytes ''%O-%O/%O'' @ crlf @ crlf) [Arg64 (rg_start g), Arg64 (rg_end g - 1), Arg64 cl] = Some (range_text cl g)"
    unfolding fmt ngx_sprintf_def print_O print_literal [OF lits(1)] print_literal [OF lits(2)] print_literal [OF lits(3)] print_end
    by (simp add: range_text_def)
  moreover have "length (range_text cl g) \<le> 66"
    using off_text_length [of "rg_start g"] off_text_length [of "rg_end g - 1"] off_text_length [of cl] by (simp add: range_text_def crlf_def)
  ultimately show ?thesis by (simp add: pool_sprintf_def NGX_OFF_T_LEN_def)
qed

lemma multipart_ranges_ok:
  "multipart_ranges cl blen len gs = Some
     (len + sum_list (map (\<lambda>g. of_nat blen + of_nat (length (range_text cl g)) + (rg_end g - rg_start g)) gs),
      map (\<lambda>g. g\<lparr>rg_content_range := range_text cl g\<rparr>) gs)"
  by (induction gs arbitrary: len) (simp_all add: range_text_printed [simplified] add.assoc)

lemma boundary_printed:
  "\<exists>rest. multipart_boundary b r = Some ((crlf @ bytes ''--'' @ boundary_text b) @ rest)"
proof -
  have lits: "list_all (\<lambda>c. c \<noteq> ch_percent) (crlf @ bytes ''--'')" "list_all (\<lambda>c. c \<noteq> ch_percent) (crlf @ bytes ''Content-Type: '')"
    "list_all (\<lambda>c. c \<noteq> ch_percent) (bytes ''; charset='')" "list_all (\<lambda>c. c \<noteq> ch_percent) (crlf @ bytes ''Content-Range: bytes '')"
    by (simp_all add: crlf_def bytes_def)
  note prints = print_literal [OF lits(1)] print_literal [OF lits(2)] print_literal [OF lits(3)] print_literal [OF lits(4)] print_A print_V print_end
  have "crlf @ bytes ''--%0muA'' @ crlf @ (bytes ''Content-Type: %V; charset=%V'' @ crlf) @ bytes ''Content-Range: bytes '' =
      (crlf @ bytes ''--'') @ ch_percent # ch_0 # ch_m # ch_u # ch_A # (crlf @ bytes ''Content-Type: '') @ ch_percent # ch_V #
      bytes ''; charset='' @ ch_percent # ch_V # (crlf @ bytes ''Content-Range: bytes '') @ []"
    "crlf @ bytes ''--%0muA'' @ crlf @ (bytes ''Content-Type: %V'' @ crlf) @ bytes ''Content-Range: bytes '' =
      (crlf @ bytes ''--'') @ ch_percent # ch_0 # ch_m # ch_u # ch_A # (crlf @ bytes ''Content-Type: '') @ ch_percent # ch_V #
      (crlf @ bytes ''Content-Range: bytes '') @ []"
    "crlf @ bytes ''--%0muA'' @ crlf @ [] @ bytes ''Content-Range: bytes '' =
      (crlf @ bytes ''--'') @ ch_percent # ch_0 # ch_m # ch_u # ch_A # (crlf @ bytes ''Content-Range: bytes '') @ []"
    by (simp_all add: bytes_def)
  note fmts = this
  consider "ho_charset r \<noteq> []" | "ho_charset r = []" "ho_content_type r \<noteq> []" | "ho_charset r = []" "ho_content_type r = []" by blast
  then show ?thesis
  proof cases
    case 1
    then show ?thesis unfolding multipart_boundary_def pool_sprintf_def ngx_sprintf_def if_P [OF 1] fmts prints
      by (simp add: multipart_boundary_len_def boundary_text_length NGX_ATOMIC_T_LEN_def)
  next
    case 2
    then show ?thesis unfolding multipart_boundary_def pool_sprintf_def ngx_sprintf_def 2(1) if_P [OF 2(2)] simp_thms if_False fmts prints
      by (simp add: multipart_boundary_len_def boundary_text_length NGX_ATOMIC_T_LEN_def)
  next
    case 3
    then show ?thesis unfolding multipart_boundary_def pool_sprintf_def ngx_sprintf_def 3 simp_thms if_False fmts prints
      by (simp add: multipart_boundary_len_def boundary_text_length NGX_ATOMIC_T_LEN_def)
  qed
qed

lemma content_type_printed:
  "\<exists>t. pool_sprintf (length (bytes ''Content-Type: multipart/byteranges; boundary='') + unat NGX_ATOMIC_T_LEN)
     (bytes ''multipart/byteranges; boundary=%0muA'') [Arg64 b] = Some t"
proof -
  have fmt: "bytes ''multipart/byteranges; boundary=%0muA'' = bytes ''multipart/byteranges; boundary='' @ ch_percent # ch_0 # ch_m # ch_u # ch_A # []"
    by (simp add: bytes_def)
  have lit: "list_all (\<lambda>c. c \<noteq> ch_percent) (bytes ''multipart/byteranges; boundary='')" by (simp add: bytes_def)
  show ?thesis unfolding pool_sprintf_def ngx_sprintf_def fmt print_literal [OF lit] print_A print_end
    by (simp add: boundary_text_length NGX_ATOMIC_T_LEN_def bytes_def)
qed

lemma block_middle:
  assumes "block xs i j = Some x" "0 \<le> a" "a \<le> b" "b \<le> int (length x)"
  shows "block xs (i + a) (i + b) = Some (take (nat (b - a)) (drop (nat a) x))"
proof -
  have ij: "0 \<le> i" "i \<le> j" "j \<le> int (length xs)" "x = take (nat (j - i)) (drop (nat i) xs)" using assms(1) by (auto simp: block_def split: if_splits)
  have len: "int (length x) = j - i" using ij by auto
  then have "nat (i + a) = nat a + nat i" "nat (b - a) \<le> nat (j - i) - nat a" using assms(2-4) ij(1) by auto
  then show ?thesis using ij assms(2-4) len by (simp add: block_def drop_take min_def)
qed

lemma range_data_bytes:
  assumes "buf_ok buf" "buf_bytes buf = Some body" "0 \<le> sint (rg_start g)" "sint (rg_start g) < sint (rg_end g)" "sint (rg_end g) \<le> int (length body)"
  shows "buf_bytes (range_data_buf buf g) = Some (take (nat (range_len g)) (drop (nat (sint (rg_start g))) body))"
proof (cases "b_in_memory buf")
  case True
  then show ?thesis using assms block_middle [of "b_data buf" "b_pos buf" "b_last buf" body "sint (rg_start g)" "sint (rg_end g)"]
    by (simp add: buf_bytes_def range_data_buf_def ngx_calloc_buf_def Let_def range_len_def)
next
  case False
  then show ?thesis using assms block_middle [of "b_file buf" "b_file_pos buf" "b_file_last buf" body "sint (rg_start g)" "sint (rg_end g)"]
    by (cases "b_in_file buf") (auto simp: buf_bytes_def range_data_buf_def ngx_calloc_buf_def Let_def range_len_def)
qed

lemma mem_buf_bytes: "buf_bytes (mem_buf s) = Some s" "buf_bytes ((mem_buf s)\<lparr>b_last_buf := l\<rparr>) = Some s"
  by (simp_all add: buf_bytes_def mem_buf_def ngx_calloc_buf_def block_def)

definition part_text :: "ngx_str \<Rightarrow> ngx_int \<Rightarrow> ngx_str \<Rightarrow> http_range \<Rightarrow> ngx_str" where
  "part_text h cl body g = h @ range_text cl g @ take (nat (range_len g)) (drop (nat (sint (rg_start g))) body)"

lemma parts_bytes:
  assumes "buf_ok buf" "buf_bytes buf = Some body"
    and "\<forall>g \<in> set gs. 0 \<le> sint (rg_start g) \<and> sint (rg_start g) < sint (rg_end g) \<and> sint (rg_end g) \<le> int (length body)"
  shows "chain_bytes (concat (map (\<lambda>g. [mem_buf h, mem_buf (rg_content_range g), range_data_buf buf g])
      (map (\<lambda>g. g\<lparr>rg_content_range := range_text cl g\<rparr>) gs))) = Some (concat (map (part_text h cl body) gs))"
  using assms(3)
proof (induction gs)
  case (Cons g gs)
  have "range_data_buf buf (g\<lparr>rg_content_range := t\<rparr>) = range_data_buf buf g" for t by (simp add: range_data_buf_def Let_def)
  then show ?case using Cons range_data_bytes [OF assms(1,2)] by (simp add: mem_buf_bytes part_text_def)
qed simp

lemma parts_length:
  assumes "\<forall>g \<in> set gs. 0 \<le> sint (rg_start g) \<and> sint (rg_start g) < sint (rg_end g) \<and> sint (rg_end g) \<le> int (length body)"
  shows "sum_list (map (\<lambda>g. of_nat (length h) + of_nat (length (range_text cl g)) + (rg_end g - rg_start g)) gs)
    = (of_nat (length (concat (map (part_text h cl body) gs))) :: ngx_int)"
  using assms
proof (induction gs)
  case (Cons g gs)
  have "int (length (take (nat (range_len g)) (drop (nat (sint (rg_start g))) body))) = range_len g"
    using Cons.prems by (auto simp: range_len_def)
  then have "(of_nat (length (take (nat (range_len g)) (drop (nat (sint (rg_start g))) body))) :: ngx_int) = word_of_int (range_len g)"
    by (metis of_int_of_nat_eq)
  then have "(of_nat (length (part_text h cl body g)) :: ngx_int) = of_nat (length h) + of_nat (length (range_text cl g)) + (rg_end g - rg_start g)"
    unfolding part_text_def length_append of_nat_add by (simp add: range_len_def)
  then show ?case using Cons by simp
qed simp

lemma multipart_sent:
  assumes "ranges_in_bounds cl (rc_ranges ctx)" "length (rc_ranges ctx) \<noteq> 1" "rc_offset ctx = 0" "ho_content_length_n r = cl"
    and "buf_ok buf" "buf_bytes buf = Some body" "int (length body) = sint cl"
  shows "\<exists>r' ctx' out x. ngx_http_range_multipart_header boundary ctx r = Some (Next_Filter, r') \<and> rq_ctx r' = Some ctx'
    \<and> fst (ngx_http_range_body_filter (Some ctx') [buf]) = Next_Body out
    \<and> chain_bytes out = Some x \<and> ho_content_length_n r' = of_nat (length x)
    \<and> x = concat (map (part_text (rc_boundary_header ctx') cl body) (rc_ranges ctx)) @ crlf @ bytes ''--'' @ boundary_text boundary @ bytes ''--'' @ crlf"
proof -
  let ?gs = "rc_ranges ctx"
  have gs: "\<forall>g \<in> set ?gs. 0 \<le> sint (rg_start g) \<and> sint (rg_start g) < sint (rg_end g) \<and> sint (rg_end g) \<le> int (length body)"
    using assms(1,7) by (simp add: ranges_in_bounds_def)
  have size: "ngx_buf_size buf = int (length body)" using buf_ok_bytes [OF assms(5)] assms(6) by auto
  have special: "\<not> ngx_buf_special buf"
  proof
    assume "ngx_buf_special buf"
    then have "length body = 0" using special_bytes [OF assms(5)] assms(6) by simp
    moreover obtain g where "g \<in> set ?gs" using assms(1) by (cases ?gs) (auto simp: ranges_in_bounds_def)
    ultimately show False using gs by force
  qed
  obtain rest where h: "multipart_boundary boundary r = Some ((crlf @ bytes ''--'' @ boundary_text boundary) @ rest)"
    using boundary_printed by blast
  obtain t where t: "pool_sprintf (length (bytes ''Content-Type: multipart/byteranges; boundary='') + unat NGX_ATOMIC_T_LEN)
     (bytes ''multipart/byteranges; boundary=%0muA'') [Arg64 boundary] = Some t" using content_type_printed by blast
  define hdr where "hdr = (crlf @ bytes ''--'' @ boundary_text boundary) @ rest"
  define ctx' where "ctx' = ctx\<lparr>rc_boundary_header := hdr, rc_ranges := map (\<lambda>g. g\<lparr>rg_content_range := range_text cl g\<rparr>) ?gs\<rparr>"
  define x where "x = concat (map (part_text hdr cl body) ?gs) @ crlf @ bytes ''--'' @ boundary_text boundary @ bytes ''--'' @ crlf"
  let ?len = "of_nat multipart_last_len + of_nat (length (concat (map (part_text hdr cl body) ?gs))) :: ngx_int"
  define r' where "r' = r\<lparr>ho_charset := [], ho_content_type := t, ho_content_type_len := length t, ho_content_type_lowcase := None,
    ho_content_length_n := ?len, ho_has_length := False, rq_ctx := Some ctx'\<rparr>"
  have head: "ngx_http_range_multipart_header boundary ctx r = Some (Next_Filter, r')"
    unfolding ngx_http_range_multipart_header_def h t multipart_ranges_ok hdr_def [symmetric] assms(4)
    using parts_length [OF gs] by (simp add: r'_def ctx'_def)
  have last: "take (length (crlf @ bytes ''--'') + unat NGX_ATOMIC_T_LEN) hdr = crlf @ bytes ''--'' @ boundary_text boundary"
    by (simp add: hdr_def NGX_ATOMIC_T_LEN_def boundary_text_length)
  have bytes: "chain_bytes (ngx_http_range_multipart_body c buf) = Some x"
    if "rc_boundary_header c = hdr" "rc_ranges c = rc_ranges ctx'" for c
    using parts_bytes [OF assms(5,6) gs, of hdr cl]
    by (simp add: ngx_http_range_multipart_body_def that ctx'_def chain_bytes_append last [simplified] mem_buf_bytes x_def)
  have over: "ngx_http_range_test_overlapped ctx' buf = Some (ctx'\<lparr>rc_offset := ngx_buf_size buf\<rparr>)"
    using gs assms(3) by (auto simp: ngx_http_range_test_overlapped_def ctx'_def size)
  have body: "fst (ngx_http_range_body_filter (Some ctx') [buf]) = Next_Body (ngx_http_range_multipart_body (ctx'\<lparr>rc_offset := ngx_buf_size buf\<rparr>) buf)"
    using over special assms(2) by (simp add: ngx_http_range_body_filter_def ctx'_def)
  have "length x = multipart_last_len + length (concat (map (part_text hdr cl body) ?gs))"
    unfolding x_def multipart_last_len_def length_append boundary_text_length by (simp add: NGX_ATOMIC_T_LEN_def)
  then have "of_nat (length x) = ?len" by (simp only: of_nat_add)
  then have "ho_content_length_n r' = of_nat (length x)" by (simp add: r'_def)
  moreover have "rq_ctx r' = Some ctx'" by (simp add: r'_def)
  moreover have "rc_boundary_header ctx' = hdr" by (simp add: ctx'_def)
  ultimately show ?thesis using head body bytes [of "ctx'\<lparr>rc_offset := ngx_buf_size buf\<rparr>"] x_def by auto
qed

text \<open>
  C13. The announced length of a response of several ranges is the length of what is sent: the header
  filter stays inside the memory that it allocates, and for ranges inside the response the body filter then passes
  on, for each range, the header of the part, its position and its bytes, and the closing boundary, which are together as many
  bytes as \<^verbatim>\<open>content_length_n\<close> says.
\<close>

theorem multipart_length_announced:
  assumes "ranges_in_bounds cl (rc_ranges ctx)" "length (rc_ranges ctx) \<noteq> 1" "rc_offset ctx = 0" "ho_content_length_n r = cl"
    and "buf_ok buf" "buf_bytes buf = Some body" "int (length body) = sint cl"
  shows "\<exists>r' ctx' out x. ngx_http_range_multipart_header boundary ctx r = Some (Next_Filter, r') \<and> rq_ctx r' = Some ctx'
    \<and> fst (ngx_http_range_body_filter (Some ctx') [buf]) = Next_Body out
    \<and> chain_bytes out = Some x \<and> ho_content_length_n r' = of_nat (length x)
    \<and> x = concat (map (part_text (rc_boundary_header ctx') cl body) (rc_ranges ctx)) @ crlf @ bytes ''--'' @ boundary_text boundary @ bytes ''--'' @ crlf"
  using assms by (rule multipart_sent)

definition sample_range_request :: range_request where
  "sample_range_request = \<lparr>rq_http_version = 1001, rq_main = True, rq_allow_ranges = True,
     hi_range = Some (bytes ''bytes=0-1,3-4'' @ [0]), hi_if_range = None, ho_status = 200, ho_status_line = [], ho_content_length_n = 5,
     ho_has_length = True, ho_last_modified_time = 0, ho_content_type = bytes ''text/plain'', ho_content_type_len = 10,
     ho_content_type_lowcase = None, ho_charset = [], ho_content_range = None, ho_accept_ranges = None, rq_ctx = None\<rparr>"

theorem multipart_length_announced_witness:
  "\<exists>r' ctx' out x. ngx_http_range_multipart_header 7
        \<lparr>rc_offset = 0, rc_boundary_header = [], rc_ranges = map range_of_span [(0, 2), (3, 5)]\<rparr> sample_range_request = Some (Next_Filter, r')
    \<and> rq_ctx r' = Some ctx' \<and> fst (ngx_http_range_body_filter (Some ctx') [text_buf ''hello'']) = Next_Body out
    \<and> chain_bytes out = Some x \<and> ho_content_length_n r' = of_nat (length x)
    \<and> x = concat (map (part_text (rc_boundary_header ctx') 5 (bytes ''hello'')) (map range_of_span [(0, 2), (3, 5)]))
        @ crlf @ bytes ''--'' @ boundary_text 7 @ bytes ''--'' @ crlf"
  using multipart_length_announced [of 5 "\<lparr>rc_offset = 0, rc_boundary_header = [], rc_ranges = map range_of_span [(0, 2), (3, 5)]\<rparr>"
      sample_range_request "text_buf ''hello''" "bytes ''hello''" 7]
  by (simp add: ranges_in_bounds_def range_of_span_def range_len_def sample_range_request_def
      text_buf_def mem_buf_def buf_ok_def ngx_calloc_buf_def bytes_def buf_bytes_def block_def)


section \<open>Header and body together\<close>












end
