(* ===== verification/Ngx_Radix.thy ===== *)
theory Ngx_Radix
  imports Ngx_Prelude "HOL-Library.Monad_Syntax" "HOL-Library.Multiset"
begin

text \<open>
  The radix tree of \<^verbatim>\<open>src/core/ngx_radix_tree.c\<close>, which maps networks (a key and a mask) to values and finds the
  most specific network of an address. The nodes live in a memory: their fields are functions of the
  address, and 0 is \<^verbatim>\<open>NULL\<close>. Nodes are cut out of pages, and those that are deleted are kept in a list.
\<close>

section \<open>Definitions\<close>

type_synonym uintptr = "64 word"

definition NGX_RADIX_NO_VALUE :: uintptr where "NGX_RADIX_NO_VALUE = - 1"

text \<open>
  The tree with its memory. \<open>rt_brk\<close> is the address of the next page that the pool gives out, \<open>rt_pages\<close>
  the number of pages it has left: \<^verbatim>\<open>ngx_pmemalign\<close> fails when it is 0.
\<close>

record radix_tree =
  rt_root :: nat
  rt_free :: nat
  rt_start :: nat
  rt_size :: nat
  rt_brk :: nat
  rt_pages :: nat
  rx_right :: "nat \<Rightarrow> nat"
  rx_left :: "nat \<Rightarrow> nat"
  rx_parent :: "nat \<Rightarrow> nat"
  rx_value :: "nat \<Rightarrow> uintptr"

definition set_right :: "nat \<Rightarrow> nat \<Rightarrow> radix_tree \<Rightarrow> radix_tree" where
  "set_right a x t = t\<lparr>rx_right := (rx_right t)(a := x)\<rparr>"

definition set_left :: "nat \<Rightarrow> nat \<Rightarrow> radix_tree \<Rightarrow> radix_tree" where
  "set_left a x t = t\<lparr>rx_left := (rx_left t)(a := x)\<rparr>"

definition set_parent :: "nat \<Rightarrow> nat \<Rightarrow> radix_tree \<Rightarrow> radix_tree" where
  "set_parent a x t = t\<lparr>rx_parent := (rx_parent t)(a := x)\<rparr>"

definition set_value :: "nat \<Rightarrow> uintptr \<Rightarrow> radix_tree \<Rightarrow> radix_tree" where
  "set_value a x t = t\<lparr>rx_value := (rx_value t)(a := x)\<rparr>"

text \<open>\<open>32\<close> is \<^verbatim>\<open>sizeof(ngx_radix_node_t)\<close>.\<close>

definition ngx_radix_alloc :: "nat \<Rightarrow> radix_tree \<Rightarrow> (nat \<times> radix_tree) option" where
  "ngx_radix_alloc pagesize t =
     (if rt_free t \<noteq> 0 then Some (rt_free t, t\<lparr>rt_free := rx_right t (rt_free t)\<rparr>)
      else do {
        t \<leftarrow> (if rt_size t < 32
             then (if rt_pages t = 0 then None
                   else Some (t\<lparr>rt_start := rt_brk t, rt_size := pagesize, rt_brk := rt_brk t + pagesize, rt_pages := rt_pages t - 1\<rparr>))
             else Some t);
        Some (rt_start t, t\<lparr>rt_start := rt_start t + 32, rt_size := rt_size t - 32\<rparr>)
      })"

text \<open>One step down, to the child for the bit \<open>b\<close> of the key.\<close>

definition radix_child :: "radix_tree \<Rightarrow> uint32 \<Rightarrow> uint32 \<Rightarrow> nat \<Rightarrow> nat" where
  "radix_child t key b node = (if key AND b \<noteq> 0 then rx_right t node else rx_left t node)"

definition new_node :: "nat \<Rightarrow> nat \<Rightarrow> radix_tree \<Rightarrow> radix_tree" where
  "new_node next node t = set_value next NGX_RADIX_NO_VALUE (set_parent next node (set_left next 0 (set_right next 0 t)))"

definition link_child :: "uint32 \<Rightarrow> uint32 \<Rightarrow> nat \<Rightarrow> nat \<Rightarrow> radix_tree \<Rightarrow> radix_tree" where
  "link_child key b node next t = (if key AND b \<noteq> 0 then set_right node next t else set_left node next t)"

lemma shift_less: "(b :: uint32) AND msk \<noteq> 0 \<Longrightarrow> unat (drop_bit 1 b) < unat b"
proof -
  assume "b AND msk \<noteq> 0"
  then have "b \<noteq> 0" by auto
  then have "unat b \<noteq> 0" by (simp add: unat_eq_zero)
  then show ?thesis by (simp add: drop_bit_eq_div unat_div)
qed

text \<open>The first loop of the insertion: the bit, the node, and the next node.\<close>

function radix_down :: "radix_tree \<Rightarrow> uint32 \<Rightarrow> uint32 \<Rightarrow> uint32 \<Rightarrow> nat \<Rightarrow> uint32 \<times> nat \<times> nat" where
  "radix_down t key msk b node =
     (if b AND msk = 0 then (b, node, node)
      else let next = radix_child t key b node
           in if next = 0 then (b, node, 0) else radix_down t key msk (drop_bit 1 b) next)"
  by pat_completeness auto
termination by (relation "measure (\<lambda>(t, key, msk, b, node). unat b)") (auto intro: shift_less [unfolded One_nat_def])

text \<open>The second loop: the last node that is added, or \<open>None\<close> when the memory ends.\<close>

function radix_extend :: "nat \<Rightarrow> uint32 \<Rightarrow> uint32 \<Rightarrow> uint32 \<Rightarrow> nat \<Rightarrow> radix_tree \<Rightarrow> nat option \<times> radix_tree" where
  "radix_extend pagesize key msk b node t =
     (if b AND msk = 0 then (Some node, t)
      else case ngx_radix_alloc pagesize t of
             None \<Rightarrow> (None, t)
           | Some (next, t) \<Rightarrow>
               radix_extend pagesize key msk (drop_bit 1 b) next (link_child key b node next (new_node next node t)))"
  by pat_completeness auto
termination by (relation "measure (\<lambda>(pagesize, key, msk, b, node, t). unat b)") (auto intro: shift_less [unfolded One_nat_def])

declare radix_down.simps [simp del] radix_extend.simps [simp del]

definition ngx_radix32tree_insert :: "nat \<Rightarrow> uint32 \<Rightarrow> uint32 \<Rightarrow> uintptr \<Rightarrow> radix_tree \<Rightarrow> ngx_int \<times> radix_tree" where
  "ngx_radix32tree_insert pagesize key msk val t =
     (case radix_down t key msk 0x80000000 (rt_root t) of
        (b, node, next) \<Rightarrow>
          if next \<noteq> 0 then
            (if rx_value t node \<noteq> NGX_RADIX_NO_VALUE then (NGX_BUSY, t) else (NGX_OK, set_value node val t))
          else (case radix_extend pagesize key msk b node t of
                  (None, t) \<Rightarrow> (NGX_ERROR, t)
                | (Some node, t) \<Rightarrow> (NGX_OK, set_value node val t)))"







text \<open>
  The creation with \<open>pages\<close> pages left, of which the first is at \<open>brk\<close>. The inner loop runs over the keys of one
  length (\<open>None\<close>: it returns \<^verbatim>\<open>NULL\<close> or never ends), the outer over the lengths; \<open>40\<close> is \<^verbatim>\<open>sizeof(ngx_radix_tree_t)\<close>.
\<close>

definition radix_bits :: "nat \<Rightarrow> int \<Rightarrow> nat" where
  "radix_bits pagesize preallocate =
     (if preallocate = - 1
      then (if pagesize div 40 = 128 then 6 else if pagesize div 40 = 256 then 7 else 8)
      else nat preallocate)"

partial_function (option) radix_fill :: "nat \<Rightarrow> uint32 \<Rightarrow> uint32 \<Rightarrow> uint32 \<Rightarrow> radix_tree \<Rightarrow> radix_tree option" where
  [code]: "radix_fill pagesize key inc msk t =
     (case ngx_radix32tree_insert pagesize key msk NGX_RADIX_NO_VALUE t of
        (rc, t) \<Rightarrow>
          if rc \<noteq> NGX_OK then None
          else if key + inc \<noteq> 0 then radix_fill pagesize (key + inc) inc msk t else Some t)"

fun radix_preallocate :: "nat \<Rightarrow> nat \<Rightarrow> uint32 \<Rightarrow> uint32 \<Rightarrow> radix_tree \<Rightarrow> radix_tree option" where
  "radix_preallocate pagesize 0 inc msk t = Some t"
| "radix_preallocate pagesize (Suc n) inc msk t =
     (let msk = drop_bit 1 msk OR 0x80000000
      in Option.bind (radix_fill pagesize 0 inc msk t) (radix_preallocate pagesize n (drop_bit 1 inc) msk))"

definition ngx_radix_tree_create :: "nat \<Rightarrow> nat \<Rightarrow> nat \<Rightarrow> int \<Rightarrow> radix_tree option" where
  "ngx_radix_tree_create pagesize brk pages preallocate =
     (let t = \<lparr>rt_root = 0, rt_free = 0, rt_start = 0, rt_size = 0, rt_brk = brk, rt_pages = pages,
               rx_right = (\<lambda>_. 0), rx_left = (\<lambda>_. 0), rx_parent = (\<lambda>_. 0), rx_value = (\<lambda>_. 0)\<rparr>
      in do {
        (root, t) \<leftarrow> ngx_radix_alloc pagesize t;
        let t = (new_node root 0 t)\<lparr>rt_root := root\<rparr>;
        if preallocate = 0 then Some t
        else radix_preallocate pagesize (radix_bits pagesize preallocate) 0x80000000 0 t
      })"

section \<open>The tree in the memory\<close>

text \<open>A tree with the addresses of its nodes, and when the memory represents it.\<close>

datatype atree = Tip | Nd nat atree uintptr atree

fun addr :: "atree \<Rightarrow> nat" where
  "addr Tip = 0"
| "addr (Nd a l v r) = a"

fun addrs :: "atree \<Rightarrow> nat list" where
  "addrs Tip = []"
| "addrs (Nd a l v r) = a # addrs l @ addrs r"

fun in_memory :: "radix_tree \<Rightarrow> nat \<Rightarrow> atree \<Rightarrow> bool" where
  "in_memory t par Tip \<longleftrightarrow> True"
| "in_memory t par (Nd a l v r) \<longleftrightarrow> a \<noteq> 0 \<and> rx_parent t a = par \<and> rx_value t a = v \<and> rx_left t a = addr l \<and> rx_right t a = addr r
     \<and> in_memory t a l \<and> in_memory t a r"

fun free_list :: "radix_tree \<Rightarrow> nat \<Rightarrow> nat list \<Rightarrow> bool" where
  "free_list t p [] \<longleftrightarrow> p = 0"
| "free_list t p (x # xs) \<longleftrightarrow> p = x \<and> x \<noteq> 0 \<and> free_list t (rx_right t x) xs"

definition radix_ok :: "radix_tree \<Rightarrow> atree \<Rightarrow> nat list \<Rightarrow> bool" where
  "radix_ok t tr fs \<longleftrightarrow> rt_root t = addr tr \<and> tr \<noteq> Tip \<and> in_memory t 0 tr \<and> free_list t (rt_free t) fs \<and> distinct (addrs tr @ fs)
     \<and> (\<forall>a \<in> set (addrs tr) \<union> set fs. a < rt_start t) \<and> 0 < rt_start t \<and> rt_start t + rt_size t \<le> rt_brk t"

text \<open>The value of a path: \<open>True\<close> is to the right.\<close>

fun node_value :: "atree \<Rightarrow> bool list \<Rightarrow> uintptr option" where
  "node_value Tip p = None"
| "node_value (Nd a l v r) [] = (if v = NGX_RADIX_NO_VALUE then None else Some v)"
| "node_value (Nd a l v r) (b # p) = node_value (if b then r else l) p"

text \<open>How far a path leads into the tree: the last node and the rest of the path.\<close>

fun descend :: "atree \<Rightarrow> bool list \<Rightarrow> nat \<times> bool list" where
  "descend Tip p = (0, p)"
| "descend (Nd a l v r) [] = (a, [])"
| "descend (Nd a l v r) (b # p) = (if (if b then r else l) = Tip then (a, b # p) else descend (if b then r else l) p)"

function key_path :: "uint32 \<Rightarrow> uint32 \<Rightarrow> uint32 \<Rightarrow> bool list" where
  "key_path key msk b = (if b AND msk = 0 then [] else (key AND b \<noteq> 0) # key_path key msk (drop_bit 1 b))"
  by pat_completeness auto
termination by (relation "measure (\<lambda>(key, msk, b). unat b)") (auto intro: shift_less [unfolded One_nat_def])

declare key_path.simps [simp del]

lemma addr_0: "in_memory t par s \<Longrightarrow> addr s = 0 \<longleftrightarrow> s = Tip"
  by (cases s) auto


lemma in_memory_nonzero: "in_memory t par s \<Longrightarrow> 0 \<notin> set (addrs s)"
  by (induction s arbitrary: par) auto

lemma child_addr:
  "in_memory t par (Nd a l v r) \<Longrightarrow> radix_child t key b a = addr (if key AND b \<noteq> 0 then r else l)"
  by (simp add: radix_child_def)

lemma radix_down_descend:
  assumes "in_memory t par s" "s \<noteq> Tip"
  shows "\<exists>b'. radix_down t key msk b (addr s) =
    (b', fst (descend s (key_path key msk b)), if snd (descend s (key_path key msk b)) = [] then fst (descend s (key_path key msk b)) else 0)
    \<and> key_path key msk b' = snd (descend s (key_path key msk b))"
  using assms
proof (induction s arbitrary: par b)
  case (Nd a l v r)
  show ?case
  proof (cases "b AND msk = 0")
    case True
    then have "key_path key msk b = []" by (subst key_path.simps) simp
    then show ?thesis using True by (subst radix_down.simps) simp
  next
    case False
    let ?c = "if key AND b \<noteq> 0 then r else l"
    have p: "key_path key msk b = (key AND b \<noteq> 0) # key_path key msk (drop_bit 1 b)" using False by (subst key_path.simps) simp
    have c: "radix_child t key b a = addr ?c" by (rule child_addr [OF Nd.prems(1)])
    have m: "in_memory t a ?c" using Nd.prems(1) by simp
    show ?thesis
    proof (cases "?c = Tip")
      case True
      then show ?thesis using False p c by (subst radix_down.simps) (auto simp: Let_def)
    next
      case ne: False
      then have "addr ?c \<noteq> 0" using addr_0 [OF m] by simp
      then have d: "radix_down t key msk b a = radix_down t key msk (drop_bit 1 b) (addr ?c)"
        using False c by (subst radix_down.simps) (simp add: Let_def)
      have "descend (Nd a l v r) (key_path key msk b) = descend ?c (key_path key msk (drop_bit 1 b))" using ne by (simp add: p)
      then show ?thesis using Nd.IH(1) [of a "drop_bit 1 b"] Nd.IH(2) [of a "drop_bit 1 b"] m ne d by (cases "key AND b \<noteq> 0") auto
    qed
  qed
qed simp

lemma descend_in: "s \<noteq> Tip \<Longrightarrow> fst (descend s p) \<in> set (addrs s)"
  by (induction s p rule: descend.induct) auto

lemmas radix_sets = set_right_def set_left_def set_parent_def set_value_def

lemma in_memory_frame:
  assumes "in_memory t par s"
    and "\<And>a. a \<in> set (addrs s) \<Longrightarrow> rx_parent t' a = rx_parent t a \<and> rx_value t' a = rx_value t a \<and> rx_left t' a = rx_left t a \<and> rx_right t' a = rx_right t a"
  shows "in_memory t' par s"
  using assms by (induction s arbitrary: par) auto

lemma free_list_frame:
  assumes "free_list t p xs" "\<And>a. a \<in> set xs \<Longrightarrow> rx_right t' a = rx_right t a"
  shows "free_list t' p xs"
  using assms by (induction xs arbitrary: p) auto

subsection \<open>Setting a value\<close>

fun set_at :: "nat \<Rightarrow> uintptr \<Rightarrow> atree \<Rightarrow> atree" where
  "set_at a x Tip = Tip"
| "set_at a x (Nd c l v r) = Nd c (set_at a x l) (if c = a then x else v) (set_at a x r)"

lemma set_at_shape [simp]: "addrs (set_at a x s) = addrs s" "addr (set_at a x s) = addr s" "set_at a x s = Tip \<longleftrightarrow> s = Tip"
  by (induction s) auto

lemma set_at_other: "a \<notin> set (addrs s) \<Longrightarrow> set_at a x s = s"
  by (induction s) auto

lemma set_at_memory: "in_memory t par s \<Longrightarrow> in_memory (set_value a x t) par (set_at a x s)"
  by (induction s arbitrary: par) (auto simp: radix_sets)

lemma set_at_descend: "descend (set_at a x s) p = descend s p"
  by (induction s p rule: descend.induct) auto

definition some_value :: "uintptr \<Rightarrow> uintptr option" where
  "some_value x = (if x = NGX_RADIX_NO_VALUE then None else Some x)"

lemma set_at_value:
  assumes "descend s p = (a, [])" "s \<noteq> Tip" "distinct (addrs s)"
  shows "node_value (set_at a x s) = (node_value s)(p := some_value x)"
  using assms
proof (induction s p rule: descend.induct)
  case (2 a' l v r)
  then have "set_at a x l = l" "set_at a x r = r" by (auto intro: set_at_other)
  then have "node_value (set_at a x (Nd a' l v r)) q = ((node_value (Nd a' l v r))([] := some_value x)) q" for q
    using 2 by (cases q) (auto simp: some_value_def)
  then show ?case by blast
next
  case (3 a' l v r b p)
  let ?c = "if b then r else l" and ?o = "if b then l else r"
  have ne: "?c \<noteq> Tip" using 3(2) by (auto split: if_splits)
  have d: "descend ?c p = (a, [])" using 3(2) ne by (auto split: if_splits)
  have "a \<in> set (addrs ?c)" using descend_in [OF ne, of p] d by simp
  then have "a \<noteq> a'" "a \<notin> set (addrs ?o)" using 3(4) by (auto split: if_splits)
  then have o: "set_at a x ?o = ?o" "a' \<noteq> a" using set_at_other by auto
  have c: "node_value (set_at a x ?c) = (node_value ?c)(p := some_value x)"
    using 3(1) ne d 3(4) by (auto split: if_splits)
  have "node_value (set_at a x (Nd a' l v r)) q = ((node_value (Nd a' l v r))(b # p := some_value x)) q" for q
    using o c by (cases q; cases b) (auto split: if_splits)
  then show ?case by blast
qed simp

subsection \<open>Adding a node\<close>

fun attach :: "nat \<Rightarrow> nat \<Rightarrow> bool \<Rightarrow> atree \<Rightarrow> atree" where
  "attach a x d Tip = Tip"
| "attach a x d (Nd c l v r) =
     (if c = a then (if d then Nd c l v (Nd x Tip NGX_RADIX_NO_VALUE Tip) else Nd c (Nd x Tip NGX_RADIX_NO_VALUE Tip) v r)
      else Nd c (attach a x d l) v (attach a x d r))"

lemma attach_shape [simp]: "addr (attach a x d s) = addr s" "attach a x d s = Tip \<longleftrightarrow> s = Tip"
  by (cases s; simp)+

lemma attach_other: "a \<notin> set (addrs s) \<Longrightarrow> attach a x d s = s"
  by (induction s) auto

lemma attach_memory:
  assumes "in_memory t par s" "distinct (addrs s)" "x \<notin> set (addrs s)" "x \<noteq> 0" "(key AND b \<noteq> 0) = d"
  shows "in_memory (link_child key b a x (new_node x a t)) par (attach a x d s)"
  using assms(1-3)
proof (induction s arbitrary: par)
  case (Nd c l v r)
  let ?t = "link_child key b a x (new_node x a t)"
  have f: "rx_parent ?t e = rx_parent t e \<and> rx_value ?t e = rx_value t e \<and> rx_left ?t e = rx_left t e \<and> rx_right ?t e = rx_right t e"
    if "e \<noteq> x" "e \<noteq> a" for e using that by (auto simp: link_child_def new_node_def radix_sets)
  show ?case
  proof (cases "c = a")
    case True
    have "in_memory ?t c l" by (rule in_memory_frame [OF _ f]) (use Nd.prems True in auto)
    moreover have "in_memory ?t c r" by (rule in_memory_frame [OF _ f]) (use Nd.prems True in auto)
    moreover have "x \<noteq> a" using Nd.prems True by auto
    ultimately show ?thesis using Nd.prems True assms(4,5) by (auto simp: link_child_def new_node_def radix_sets)
  next
    case False
    have "in_memory ?t c (attach a x d l)" "in_memory ?t c (attach a x d r)" using Nd by auto
    then show ?thesis using Nd.prems f [of c] False by auto
  qed
qed simp

lemma descend_leaf: "descend (Nd x Tip v Tip) p = (x, p)"
  by (cases p) auto

lemma attach_at:
  assumes "descend s p = (a, d # rest)" "s \<noteq> Tip" "distinct (addrs s)"
  shows "mset (addrs (attach a x d s)) = add_mset x (mset (addrs s)) \<and> node_value (attach a x d s) = node_value s \<and>
    (x \<notin> set (addrs s) \<longrightarrow> descend (attach a x d s) p = (x, rest))"
  using assms
proof (induction s p rule: descend.induct)
  case (3 a' l v r b p)
  let ?c = "if b then r else l" and ?o = "if b then l else r"
  show ?case
  proof (cases "?c = Tip")
    case True
    then have "a = a'" "d = b" "rest = p" using 3(2) by auto
    moreover have "node_value (attach a x d (Nd a' l v r)) q = node_value (Nd a' l v r) q" for q
    proof (cases q)
      case (Cons e q')
      then show ?thesis using True \<open>a = a'\<close> \<open>d = b\<close> by (cases q'; cases b; cases e) auto
    qed (use \<open>a = a'\<close> in auto)
    ultimately show ?thesis using True by (auto simp: descend_leaf split: if_splits)
  next
    case False
    then have de: "descend ?c p = (a, d # rest)" using 3(2) by simp
    have "a \<in> set (addrs ?c)" using descend_in [OF False, of p] de by simp
    then have "a' \<noteq> a" "a \<notin> set (addrs ?o)" using 3(4) by (auto split: if_splits)
    then have o: "attach a x d ?o = ?o" "a' \<noteq> a" using attach_other by auto
    have c: "mset (addrs (attach a x d ?c)) = add_mset x (mset (addrs ?c)) \<and> node_value (attach a x d ?c) = node_value ?c \<and>
        (x \<notin> set (addrs ?c) \<longrightarrow> descend (attach a x d ?c) p = (x, rest))"
      using 3(1) [OF False] de False 3(4) by (auto split: if_splits)
    have "node_value (attach a x d (Nd a' l v r)) q = node_value (Nd a' l v r) q" for q
      using o c by (cases q; cases b) auto
    then show ?thesis using o c False by (cases b) auto
  qed
qed auto

subsection \<open>The insertion\<close>

definition same_memory :: "radix_tree \<Rightarrow> radix_tree \<Rightarrow> bool" where
  "same_memory t u \<longleftrightarrow> rx_parent u = rx_parent t \<and> rx_value u = rx_value t \<and> rx_left u = rx_left t \<and> rx_right u = rx_right t \<and> rt_root u = rt_root t"

lemma alloc_ok:
  assumes "radix_ok t tr fs" "32 \<le> pagesize" "ngx_radix_alloc pagesize t = Some (x, u)"
  shows "x \<noteq> 0 \<and> same_memory t u \<and> (\<exists>fs'. radix_ok u tr fs' \<and> x \<notin> set (addrs tr) \<union> set fs' \<and> x < rt_start u)"
proof (cases fs)
  case (Cons y ys)
  then have f: "rt_free t = y" "y \<noteq> 0" "free_list t (rx_right t y) ys" using assms(1) by (auto simp: radix_ok_def)
  then have u: "x = y" "u = t\<lparr>rt_free := rx_right t y\<rparr>" using assms(3) by (auto simp: ngx_radix_alloc_def)
  have "in_memory u 0 tr" by (rule in_memory_frame [of t]) (use assms(1) u in \<open>auto simp: radix_ok_def\<close>)
  moreover have "free_list u (rx_right t y) ys" by (rule free_list_frame [OF f(3)]) (simp add: u)
  ultimately have "radix_ok u tr ys" using assms(1) Cons u by (auto simp: radix_ok_def)
  moreover have "x \<notin> set (addrs tr) \<union> set ys" "x < rt_start u" using assms(1) Cons u by (auto simp: radix_ok_def)
  ultimately show ?thesis using u f by (auto simp: same_memory_def)
next
  case Nil
  then have f: "rt_free t = 0" using assms(1) by (simp add: radix_ok_def)
  define u0 where "u0 = (if rt_size t < 32
    then t\<lparr>rt_start := rt_brk t, rt_size := pagesize, rt_brk := rt_brk t + pagesize, rt_pages := rt_pages t - 1\<rparr> else t)"
  have u0: "same_memory t u0" "rt_free u0 = 0" "rt_start t \<le> rt_start u0" "32 \<le> rt_size u0" "rt_start u0 + rt_size u0 \<le> rt_brk u0"
    using assms(1,2) f by (auto simp: u0_def radix_ok_def same_memory_def)
  have x: "x = rt_start u0" "u = u0\<lparr>rt_start := rt_start u0 + 32, rt_size := rt_size u0 - 32\<rparr>"
    using assms(3) f by (auto simp: ngx_radix_alloc_def u0_def split: if_splits)
  note u0 = u0 x
  have "in_memory u 0 tr" by (rule in_memory_frame [of t]) (use assms(1) u0 in \<open>auto simp: radix_ok_def same_memory_def\<close>)
  then have "radix_ok u tr []" using assms(1) Nil u0 by (auto simp: radix_ok_def same_memory_def)
  moreover have "x \<notin> set (addrs tr)" using assms(1) u0(3) x(1) unfolding radix_ok_def by (metis UnI1 leD)
  moreover have "x \<noteq> 0" "x < rt_start u" using assms(1) u0 by (auto simp: radix_ok_def)
  ultimately show ?thesis using u0(1,7) by (auto simp: same_memory_def)
qed

lemma radix_ok_attach:
  assumes "radix_ok u tr fs" "x \<notin> set (addrs tr) \<union> set fs" "x < rt_start u" "x \<noteq> 0"
    and "descend tr p = (a, (key AND b \<noteq> 0) # rest)"
  shows "radix_ok (link_child key b a x (new_node x a u)) (attach a x (key AND b \<noteq> 0) tr) fs
    \<and> node_value (attach a x (key AND b \<noteq> 0) tr) = node_value tr \<and> descend (attach a x (key AND b \<noteq> 0) tr) p = (x, rest)"
proof -
  let ?t = "link_child key b a x (new_node x a u)" and ?s = "attach a x (key AND b \<noteq> 0) tr"
  have tr: "tr \<noteq> Tip" "distinct (addrs tr)" "in_memory u 0 tr" "free_list u (rt_free u) fs" "set (addrs tr) \<inter> set fs = {}"
    using assms(1) by (auto simp: radix_ok_def)
  note at = attach_at [OF assms(5) tr(1,2), of x]
  have m: "in_memory ?t 0 ?s" using attach_memory [OF tr(3,2), of x key b _ a] assms(2,4) by simp
  have a: "a \<in> set (addrs tr)" using descend_in [OF tr(1), of p] assms(5) by simp
  have "free_list ?t (rt_free u) fs"
    by (rule free_list_frame [OF tr(4)]) (use a tr(5) assms(2) in \<open>auto simp: link_child_def new_node_def radix_sets\<close>)
  moreover have "set (addrs ?s) = insert x (set (addrs tr))" using at by (metis set_mset_add_mset_insert set_mset_mset)
  moreover have "distinct (addrs ?s)" using at tr(2) assms(2) by (metis Un_iff distinct_count_atmost_1 mset_eq_imp_distinct_iff distinct.simps(2) mset.simps(2))
  moreover have "rt_free ?t = rt_free u" "rt_start ?t = rt_start u" "rt_root ?t = rt_root u" "rt_size ?t = rt_size u" "rt_brk ?t = rt_brk u"
    by (simp_all add: link_child_def new_node_def radix_sets)
  ultimately have "radix_ok ?t ?s fs" using assms(1-3) m by (auto simp: radix_ok_def)
  then show ?thesis using at assms(2) by auto
qed

lemma radix_extend_ok:
  assumes "32 \<le> pagesize" "radix_ok t tr fs" "descend tr p = (a, key_path key msk b)"
  shows "\<exists>tr' fs'. radix_ok (snd (radix_extend pagesize key msk b a t)) tr' fs' \<and> node_value tr' = node_value tr
    \<and> (\<forall>n. fst (radix_extend pagesize key msk b a t) = Some n \<longrightarrow> descend tr' p = (n, []))"
  using assms
proof (induction pagesize key msk b a t arbitrary: tr fs rule: radix_extend.induct)
  case (1 pagesize key msk b a t)
  show ?case
  proof (cases "b AND msk = 0")
    case True
    then have "key_path key msk b = []" by (subst key_path.simps) simp
    then show ?thesis using True 1 by (subst radix_extend.simps, subst (2) radix_extend.simps) auto
  next
    case False
    then have p: "key_path key msk b = (key AND b \<noteq> 0) # key_path key msk (drop_bit 1 b)" by (subst key_path.simps) simp
    show ?thesis
    proof (cases "ngx_radix_alloc pagesize t")
      case None
      then have "radix_extend pagesize key msk b a t = (None, t)" using False by (subst radix_extend.simps) simp
      then show ?thesis using 1(3) by auto
    next
      case (Some xu)
      obtain x u where xu: "xu = (x, u)" by (cases xu)
      have e: "radix_extend pagesize key msk b a t = radix_extend pagesize key msk (drop_bit 1 b) x (link_child key b a x (new_node x a u))"
        using False Some xu by (subst radix_extend.simps) simp
      obtain fs' where f: "x \<noteq> 0" "radix_ok u tr fs'" "x \<notin> set (addrs tr) \<union> set fs'" "x < rt_start u"
        using alloc_ok [OF 1(3) 1(2)] Some xu by blast
      note at = radix_ok_attach [OF f(2-4,1) 1(4) [unfolded p]]
      show ?thesis unfolding e using 1(1) [OF False Some xu [symmetric] 1(2) conjunct1 [OF at]] at by auto
    qed
  qed
qed

lemma radix_ok_value:
  assumes "radix_ok t tr fs"
  shows "radix_ok (set_value a x t) (set_at a x tr) fs"
proof -
  have "free_list (set_value a x t) (rt_free t) fs"
    by (rule free_list_frame [of t]) (use assms in \<open>auto simp: radix_ok_def radix_sets\<close>)
  moreover have "in_memory (set_value a x t) 0 (set_at a x tr)" using assms by (auto simp: radix_ok_def intro: set_at_memory)
  ultimately show ?thesis using assms by (auto simp: radix_ok_def radix_sets)
qed

lemma node_value_at: "in_memory t par s \<Longrightarrow> s \<noteq> Tip \<Longrightarrow> descend s p = (a, []) \<Longrightarrow> node_value s p = some_value (rx_value t a)"
proof (induction s p arbitrary: par rule: descend.induct)
  case (3 a' l v r b p)
  then show ?case by (cases b) (auto split: if_splits)
qed (auto simp: some_value_def)

lemma descend_rest: "s \<noteq> Tip \<Longrightarrow> snd (descend s p) \<noteq> [] \<Longrightarrow> node_value s p = None"
  by (induction s p rule: descend.induct) (auto split: if_splits)

lemma insert_ok:
  assumes "radix_ok t tr fs" "32 \<le> pagesize" "ngx_radix32tree_insert pagesize key msk val t = (rc, u)" "p = key_path key msk 0x80000000"
  shows "\<exists>tr' fs'. radix_ok u tr' fs' \<and>
    (rc = NGX_OK \<and> node_value tr p = None \<and> node_value tr' = (node_value tr)(p := some_value val) \<or>
     rc = NGX_BUSY \<and> node_value tr p \<noteq> None \<and> node_value tr' = node_value tr \<or>
     rc = NGX_ERROR \<and> node_value tr p = None \<and> node_value tr' = node_value tr)"
proof -
  have tr: "in_memory t 0 tr" "tr \<noteq> Tip" "rt_root t = addr tr" "distinct (addrs tr)" using assms(1) by (auto simp: radix_ok_def)
  obtain a rest where d: "descend tr p = (a, rest)" by (cases "descend tr p")
  obtain b where b: "radix_down t key msk 0x80000000 (rt_root t) = (b, a, if rest = [] then a else 0)" "key_path key msk b = rest"
    using radix_down_descend [OF tr(1,2), of key msk "0x80000000"] d by (auto simp: tr(3) assms(4))
  have a0: "a \<noteq> 0" using descend_in [OF tr(2), of p] d in_memory_nonzero [OF tr(1)] by (metis fst_conv)
  show ?thesis
  proof (cases "rest = []")
    case True
    have v: "node_value tr p = some_value (rx_value t a)" using node_value_at [OF tr(1,2)] d True by simp
    show ?thesis
    proof (cases "rx_value t a = NGX_RADIX_NO_VALUE")
      case no: True
      then have "rc = NGX_OK" "u = set_value a val t" using assms(3) b True a0 by (auto simp: ngx_radix32tree_insert_def)
      then show ?thesis using radix_ok_value [OF assms(1)] set_at_value [OF _ tr(2,4)] d True v no by (fastforce simp: some_value_def)
    next
      case False
      then have "rc = NGX_BUSY" "u = t" using assms(3) b True a0 by (auto simp: ngx_radix32tree_insert_def)
      then show ?thesis using assms(1) v False by (auto simp: some_value_def)
    qed
  next
    case False
    then have v: "node_value tr p = None" using descend_rest [OF tr(2), of p] d by simp
    obtain tr' fs' where e: "radix_ok (snd (radix_extend pagesize key msk b a t)) tr' fs'" "node_value tr' = node_value tr"
      "\<And>n. fst (radix_extend pagesize key msk b a t) = Some n \<Longrightarrow> descend tr' p = (n, [])"
      using radix_extend_ok [OF assms(2,1)] d b(2) by metis
    show ?thesis
    proof (cases "fst (radix_extend pagesize key msk b a t)")
      case None
      then have "rc = NGX_ERROR" "u = snd (radix_extend pagesize key msk b a t)" using assms(3) b False
        by (auto simp: ngx_radix32tree_insert_def split: prod.splits)
      then show ?thesis using e v by blast
    next
      case (Some n)
      then have "rc = NGX_OK" "u = set_value n val (snd (radix_extend pagesize key msk b a t))" using assms(3) b False
        by (auto simp: ngx_radix32tree_insert_def split: prod.splits)
      moreover have "tr' \<noteq> Tip" "distinct (addrs tr')" using e(1) by (auto simp: radix_ok_def)
      ultimately show ?thesis using radix_ok_value [OF e(1), of n val] set_at_value [OF e(3) [OF Some], of val] e(2) v by auto
    qed
  qed
qed

subsection \<open>Removing a node\<close>


















subsection \<open>The deletion\<close>



subsection \<open>The search\<close>





section \<open>The contract of a routing table\<close>








definition radix_table :: "radix_tree \<Rightarrow> (bool list \<Rightarrow> uintptr option) \<Rightarrow> bool" where
  "radix_table t M \<longleftrightarrow> (\<exists>tr fs. radix_ok t tr fs \<and> node_value tr = M)"





lemma create_ok:
  assumes "32 \<le> pagesize" "0 < brk" "0 < pages"
  shows "\<exists>t. ngx_radix_tree_create pagesize brk pages 0 = Some t \<and> radix_ok t (Nd brk Tip NGX_RADIX_NO_VALUE Tip) []"
  using assms by (simp add: ngx_radix_tree_create_def ngx_radix_alloc_def new_node_def radix_sets radix_ok_def Let_def)

lemma create_empty:
  assumes "32 \<le> pagesize" "0 < brk" "0 < pages"
  shows "\<exists>t. ngx_radix_tree_create pagesize brk pages 0 = Some t \<and> radix_table t (\<lambda>_. None)"
proof -
  have "node_value (Nd brk Tip NGX_RADIX_NO_VALUE Tip) p = None" for p by (cases p) auto
  then show ?thesis using create_ok [OF assms] unfolding radix_table_def by (metis ext)
qed




lemma preallocated_bits: "radix_bits 4096 (- 1) = 8"
  by (simp add: radix_bits_def)

text \<open>The nodes that the creation adds in advance have no values.\<close>

lemma insert_no_value:
  assumes "32 \<le> pagesize" "radix_table t (\<lambda>_. None)" "ngx_radix32tree_insert pagesize key msk NGX_RADIX_NO_VALUE t = (rc, u)"
  shows "radix_table u (\<lambda>_. None)"
proof -
  obtain tr fs where t: "radix_ok t tr fs" "node_value tr = (\<lambda>_. None)" using assms(2) by (auto simp: radix_table_def)
  obtain tr' fs' where "radix_ok u tr' fs'" "node_value tr' = node_value tr \<or> node_value tr' = (node_value tr)(key_path key msk 0x80000000 := None)"
    using insert_ok [OF t(1) assms(1,3) refl] unfolding some_value_def if_P [OF refl] by blast
  then show ?thesis using t(2) unfolding radix_table_def by (auto simp: fun_upd_idem)
qed

lemma radix_fill_ok:
  assumes "radix_fill pagesize key inc msk t = Some u" "32 \<le> pagesize" "radix_table t (\<lambda>_. None)"
  shows "radix_table u (\<lambda>_. None)"
proof -
  have "32 \<le> pagesize \<longrightarrow> radix_table t (\<lambda>_. None) \<longrightarrow> radix_table u (\<lambda>_. None)"
  proof (rule radix_fill.raw_induct [OF _ assms(1)])
    fix f :: "nat \<Rightarrow> uint32 \<Rightarrow> uint32 \<Rightarrow> uint32 \<Rightarrow> radix_tree \<Rightarrow> radix_tree option" and pagesize key inc msk t u
    assume IH: "\<And>pagesize key inc msk t u. f pagesize key inc msk t = Some u \<Longrightarrow>
        32 \<le> pagesize \<longrightarrow> radix_table t (\<lambda>_. None) \<longrightarrow> radix_table u (\<lambda>_. None)"
      and s: "(case ngx_radix32tree_insert pagesize key msk NGX_RADIX_NO_VALUE t of
        (rc, t) \<Rightarrow> if rc \<noteq> NGX_OK then None else if key + inc \<noteq> 0 then f pagesize (key + inc) inc msk t else Some t) = Some u"
    obtain rc w where w: "ngx_radix32tree_insert pagesize key msk NGX_RADIX_NO_VALUE t = (rc, w)" by fastforce
    show "32 \<le> pagesize \<longrightarrow> radix_table t (\<lambda>_. None) \<longrightarrow> radix_table u (\<lambda>_. None)"
    proof (intro impI)
      assume "32 \<le> pagesize" "radix_table t (\<lambda>_. None)"
      moreover from this have "radix_table w (\<lambda>_. None)" using insert_no_value w by blast
      ultimately show "radix_table u (\<lambda>_. None)"
        using s IH [of pagesize "key + inc" inc msk w u] unfolding w prod.case by (metis option.distinct(1) option.inject)
    qed
  qed
  then show ?thesis using assms(2,3) by blast
qed

lemma radix_preallocate_ok:
  assumes "radix_preallocate pagesize n inc msk t = Some u" "32 \<le> pagesize" "radix_table t (\<lambda>_. None)"
  shows "radix_table u (\<lambda>_. None)"
  using assms
proof (induction n arbitrary: inc msk t)
  case (Suc n)
  then show ?case by (auto simp: Let_def split: bind_splits dest: radix_fill_ok)
qed simp

lemma create_preallocated:
  assumes "ngx_radix_tree_create pagesize brk pages preallocate = Some t" "32 \<le> pagesize" "0 < brk"
  shows "radix_table t (\<lambda>_. None)"
proof -
  have "pages \<noteq> 0" using assms(1) by (auto simp: ngx_radix_tree_create_def ngx_radix_alloc_def Let_def split: if_splits)
  then obtain t0 where t0: "ngx_radix_tree_create pagesize brk pages 0 = Some t0" "radix_table t0 (\<lambda>_. None)"
    using create_empty [OF assms(2,3)] by auto
  show ?thesis
  proof (cases "preallocate = 0")
    case False
    then have "radix_preallocate pagesize (radix_bits pagesize preallocate) 0x80000000 0 t0 = Some t"
      using assms(1) t0(1) by (auto simp: ngx_radix_tree_create_def Let_def split: bind_splits)
    then show ?thesis using radix_preallocate_ok assms(2) t0(2) by blast
  qed (use assms(1) t0 in simp)
qed

end
