(* ===== verification/Ngx_Rbtree.thy ===== *)
theory Ngx_Rbtree
  imports Ngx_Prelude
begin

text \<open>
  The red-black tree of \<^verbatim>\<open>src/core/ngx_rbtree.c\<close> and \<^verbatim>\<open>src/core/ngx_rbtree.h\<close> on a memory of nodes: the fields of
  a node are functions of its address, 0 is \<^verbatim>\<open>NULL\<close>. The leaves are one shared node, the sentinel, whose parent
  the deletion sets and reads. The colour, 1 for red and 0 for black, is a truth value. A field of an
  address that is no node of the tree has an arbitrary value in all the theorems, so none of them depends on a
  read through such an address.
\<close>

section \<open>Definitions\<close>

type_synonym rb_key = "64 word"

record rbtree =
  rb_root :: nat
  rb_sentinel :: nat
  n_key :: "nat \<Rightarrow> rb_key"
  n_left :: "nat \<Rightarrow> nat"
  n_right :: "nat \<Rightarrow> nat"
  n_parent :: "nat \<Rightarrow> nat"
  n_red :: "nat \<Rightarrow> bool"

definition put_left :: "nat \<Rightarrow> nat \<Rightarrow> rbtree \<Rightarrow> rbtree" where
  "put_left a x h = h\<lparr>n_left := (n_left h)(a := x)\<rparr>"

definition put_right :: "nat \<Rightarrow> nat \<Rightarrow> rbtree \<Rightarrow> rbtree" where
  "put_right a x h = h\<lparr>n_right := (n_right h)(a := x)\<rparr>"

definition put_parent :: "nat \<Rightarrow> nat \<Rightarrow> rbtree \<Rightarrow> rbtree" where
  "put_parent a x h = h\<lparr>n_parent := (n_parent h)(a := x)\<rparr>"

definition put_red :: "nat \<Rightarrow> bool \<Rightarrow> rbtree \<Rightarrow> rbtree" where
  "put_red a x h = h\<lparr>n_red := (n_red h)(a := x)\<rparr>"

definition put_key :: "nat \<Rightarrow> rb_key \<Rightarrow> rbtree \<Rightarrow> rbtree" where
  "put_key a x h = h\<lparr>n_key := (n_key h)(a := x)\<rparr>"

definition ngx_rbt_red :: "nat \<Rightarrow> rbtree \<Rightarrow> rbtree" where
  "ngx_rbt_red node h = put_red node True h"

definition ngx_rbt_black :: "nat \<Rightarrow> rbtree \<Rightarrow> rbtree" where
  "ngx_rbt_black node h = put_red node False h"

definition ngx_rbt_copy_color :: "nat \<Rightarrow> nat \<Rightarrow> rbtree \<Rightarrow> rbtree" where
  "ngx_rbt_copy_color n1 n2 h = put_red n1 (n_red h n2) h"

definition ngx_rbtree_init :: "nat \<Rightarrow> rbtree \<Rightarrow> rbtree" where
  "ngx_rbtree_init s h = (ngx_rbt_black s h)\<lparr>rb_root := s, rb_sentinel := s\<rparr>"

text \<open>The loops return \<open>None\<close> when they never end.\<close>

partial_function (option) ngx_rbtree_min :: "nat \<Rightarrow> rbtree \<Rightarrow> nat option" where
  [code]: "ngx_rbtree_min node h = (if n_left h node \<noteq> rb_sentinel h then ngx_rbtree_min (n_left h node) h else Some node)"

definition ngx_rbtree_left_rotate :: "nat \<Rightarrow> rbtree \<Rightarrow> rbtree" where
  "ngx_rbtree_left_rotate node h =
     (let temp = n_right h node;
          h = put_right node (n_left h temp) h;
          h = (if n_left h temp \<noteq> rb_sentinel h then put_parent (n_left h temp) node h else h);
          h = put_parent temp (n_parent h node) h;
          h = (if node = rb_root h then h\<lparr>rb_root := temp\<rparr>
               else if node = n_left h (n_parent h node) then put_left (n_parent h node) temp h
               else put_right (n_parent h node) temp h);
          h = put_left temp node h
      in put_parent node temp h)"

definition ngx_rbtree_right_rotate :: "nat \<Rightarrow> rbtree \<Rightarrow> rbtree" where
  "ngx_rbtree_right_rotate node h =
     (let temp = n_left h node;
          h = put_left node (n_right h temp) h;
          h = (if n_right h temp \<noteq> rb_sentinel h then put_parent (n_right h temp) node h else h);
          h = put_parent temp (n_parent h node) h;
          h = (if node = rb_root h then h\<lparr>rb_root := temp\<rparr>
               else if node = n_right h (n_parent h node) then put_right (n_parent h node) temp h
               else put_left (n_parent h node) temp h);
          h = put_right temp node h
      in put_parent node temp h)"

text \<open>
  The functions for \<^verbatim>\<open>tree->insert\<close> differ in the comparison of the new node with the others, \<open>lt\<close>. The loop finds the
  parent, and says whether the new node becomes its left child.
\<close>

partial_function (option) rb_insert_pos :: "(nat \<Rightarrow> bool) \<Rightarrow> nat \<Rightarrow> rbtree \<Rightarrow> (nat \<times> bool) option" where
  [code]: "rb_insert_pos lt temp h =
     (let p = (if lt temp then n_left h temp else n_right h temp)
      in if p = rb_sentinel h then Some (temp, lt temp) else rb_insert_pos lt p h)"

definition rb_insert_node :: "(nat \<Rightarrow> bool) \<Rightarrow> nat \<Rightarrow> nat \<Rightarrow> rbtree \<Rightarrow> rbtree option" where
  "rb_insert_node lt temp node h =
     map_option (\<lambda>(temp, lft).
       let h = (if lft then put_left temp node h else put_right temp node h);
           h = put_parent node temp h;
           h = put_left node (rb_sentinel h) h;
           h = put_right node (rb_sentinel h) h
       in ngx_rbt_red node h) (rb_insert_pos lt temp h)"

definition value_less :: "rb_key \<Rightarrow> rb_key \<Rightarrow> bool" where
  "value_less a b \<longleftrightarrow> a < b"

definition timer_less :: "rb_key \<Rightarrow> rb_key \<Rightarrow> bool" where
  "timer_less a b \<longleftrightarrow> a - b <s 0"

definition ngx_rbtree_insert_value :: "nat \<Rightarrow> nat \<Rightarrow> rbtree \<Rightarrow> rbtree option" where
  "ngx_rbtree_insert_value temp node h = rb_insert_node (\<lambda>x. value_less (n_key h node) (n_key h x)) temp node h"

definition ngx_rbtree_insert_timer_value :: "nat \<Rightarrow> nat \<Rightarrow> rbtree \<Rightarrow> rbtree option" where
  "ngx_rbtree_insert_timer_value temp node h = rb_insert_node (\<lambda>x. timer_less (n_key h node) (n_key h x)) temp node h"

text \<open>
  The two sides of the loop that restores the colours, \<^verbatim>\<open>node->parent\<close> being the left and the right child of its
  parent, and the loop.
\<close>

definition rb_insert_left :: "nat \<Rightarrow> rbtree \<Rightarrow> nat \<times> rbtree" where
  "rb_insert_left node h =
     (let temp = n_right h (n_parent h (n_parent h node))
      in if n_red h temp then
           let h = ngx_rbt_black (n_parent h node) h;
               h = ngx_rbt_black temp h;
               h = ngx_rbt_red (n_parent h (n_parent h node)) h
           in (n_parent h (n_parent h node), h)
         else
           let (node, h) = (if node = n_right h (n_parent h node)
                            then (n_parent h node, ngx_rbtree_left_rotate (n_parent h node) h) else (node, h));
               h = ngx_rbt_black (n_parent h node) h;
               h = ngx_rbt_red (n_parent h (n_parent h node)) h
           in (node, ngx_rbtree_right_rotate (n_parent h (n_parent h node)) h))"

definition rb_insert_right :: "nat \<Rightarrow> rbtree \<Rightarrow> nat \<times> rbtree" where
  "rb_insert_right node h =
     (let temp = n_left h (n_parent h (n_parent h node))
      in if n_red h temp then
           let h = ngx_rbt_black (n_parent h node) h;
               h = ngx_rbt_black temp h;
               h = ngx_rbt_red (n_parent h (n_parent h node)) h
           in (n_parent h (n_parent h node), h)
         else
           let (node, h) = (if node = n_left h (n_parent h node)
                            then (n_parent h node, ngx_rbtree_right_rotate (n_parent h node) h) else (node, h));
               h = ngx_rbt_black (n_parent h node) h;
               h = ngx_rbt_red (n_parent h (n_parent h node)) h
           in (node, ngx_rbtree_left_rotate (n_parent h (n_parent h node)) h))"

partial_function (option) rb_insert_fix :: "nat \<Rightarrow> rbtree \<Rightarrow> rbtree option" where
  [code]: "rb_insert_fix node h =
     (if node \<noteq> rb_root h \<and> n_red h (n_parent h node) then
        let (node, h) = (if n_parent h node = n_left h (n_parent h (n_parent h node)) then rb_insert_left node h else rb_insert_right node h)
        in rb_insert_fix node h
      else Some h)"

definition ngx_rbtree_insert :: "(nat \<Rightarrow> nat \<Rightarrow> rbtree \<Rightarrow> rbtree option) \<Rightarrow> nat \<Rightarrow> rbtree \<Rightarrow> rbtree option" where
  "ngx_rbtree_insert ins node h =
     (if rb_root h = rb_sentinel h then
        let h = put_parent node 0 h;
            h = put_left node (rb_sentinel h) h;
            h = put_right node (rb_sentinel h) h;
            h = ngx_rbt_black node h
        in Some (h\<lparr>rb_root := node\<rparr>)
      else Option.bind (ins (rb_root h) node h)
             (\<lambda>h. map_option (\<lambda>h. ngx_rbt_black (rb_root h) h) (rb_insert_fix node h)))"

subsection \<open>The deletion\<close>

text \<open>The two sides of the fixup, \<^verbatim>\<open>temp\<close> being the left and the right child of its parent, and the loop.\<close>

definition rb_delete_left :: "nat \<Rightarrow> rbtree \<Rightarrow> nat \<times> rbtree" where
  "rb_delete_left temp h =
     (let w = n_right h (n_parent h temp);
          (w, h) = (if n_red h w then
                      let h = ngx_rbt_black w h;
                          h = ngx_rbt_red (n_parent h temp) h;
                          h = ngx_rbtree_left_rotate (n_parent h temp) h
                      in (n_right h (n_parent h temp), h)
                    else (w, h))
      in if \<not> n_red h (n_left h w) \<and> \<not> n_red h (n_right h w) then
           let h = ngx_rbt_red w h in (n_parent h temp, h)
         else
           let (w, h) = (if \<not> n_red h (n_right h w) then
                           let h = ngx_rbt_black (n_left h w) h;
                               h = ngx_rbt_red w h;
                               h = ngx_rbtree_right_rotate w h
                           in (n_right h (n_parent h temp), h)
                         else (w, h));
               h = ngx_rbt_copy_color w (n_parent h temp) h;
               h = ngx_rbt_black (n_parent h temp) h;
               h = ngx_rbt_black (n_right h w) h;
               h = ngx_rbtree_left_rotate (n_parent h temp) h
           in (rb_root h, h))"

definition rb_delete_right :: "nat \<Rightarrow> rbtree \<Rightarrow> nat \<times> rbtree" where
  "rb_delete_right temp h =
     (let w = n_left h (n_parent h temp);
          (w, h) = (if n_red h w then
                      let h = ngx_rbt_black w h;
                          h = ngx_rbt_red (n_parent h temp) h;
                          h = ngx_rbtree_right_rotate (n_parent h temp) h
                      in (n_left h (n_parent h temp), h)
                    else (w, h))
      in if \<not> n_red h (n_left h w) \<and> \<not> n_red h (n_right h w) then
           let h = ngx_rbt_red w h in (n_parent h temp, h)
         else
           let (w, h) = (if \<not> n_red h (n_left h w) then
                           let h = ngx_rbt_black (n_right h w) h;
                               h = ngx_rbt_red w h;
                               h = ngx_rbtree_left_rotate w h
                           in (n_left h (n_parent h temp), h)
                         else (w, h));
               h = ngx_rbt_copy_color w (n_parent h temp) h;
               h = ngx_rbt_black (n_parent h temp) h;
               h = ngx_rbt_black (n_left h w) h;
               h = ngx_rbtree_right_rotate (n_parent h temp) h
           in (rb_root h, h))"

partial_function (option) rb_delete_fix :: "nat \<Rightarrow> rbtree \<Rightarrow> (nat \<times> rbtree) option" where
  [code]: "rb_delete_fix temp h =
     (if temp \<noteq> rb_root h \<and> \<not> n_red h temp then
        let (temp, h) = (if temp = n_left h (n_parent h temp) then rb_delete_left temp h else rb_delete_right temp h)
        in rb_delete_fix temp h
      else Some (temp, h))"

text \<open>The node that leaves its place, \<^verbatim>\<open>subst\<close>, and the one that takes it, \<^verbatim>\<open>temp\<close>.\<close>

definition rb_delete_pick :: "nat \<Rightarrow> rbtree \<Rightarrow> (nat \<times> nat) option" where
  "rb_delete_pick node h =
     (if n_left h node = rb_sentinel h then Some (n_right h node, node)
      else if n_right h node = rb_sentinel h then Some (n_left h node, node)
      else map_option (\<lambda>subst. (if n_left h subst \<noteq> rb_sentinel h then n_left h subst else n_right h subst, subst))
             (ngx_rbtree_min (n_right h node) h))"

text \<open>\<^verbatim>\<open>DEBUG stuff\<close>.\<close>

definition rb_forget :: "nat \<Rightarrow> rbtree \<Rightarrow> rbtree" where
  "rb_forget node h = put_key node 0 (put_parent node 0 (put_right node 0 (put_left node 0 h)))"

text \<open>\<^verbatim>\<open>subst\<close> takes the place of \<^verbatim>\<open>node\<close>.\<close>

definition rb_take_place :: "nat \<Rightarrow> nat \<Rightarrow> rbtree \<Rightarrow> rbtree" where
  "rb_take_place node subst h =
     (let h = put_left subst (n_left h node) h;
          h = put_right subst (n_right h node) h;
          h = put_parent subst (n_parent h node) h;
          h = ngx_rbt_copy_color subst node h;
          h = (if node = rb_root h then h\<lparr>rb_root := subst\<rparr>
               else if node = n_left h (n_parent h node) then put_left (n_parent h node) subst h
               else put_right (n_parent h node) subst h);
          h = (if n_left h subst \<noteq> rb_sentinel h then put_parent (n_left h subst) subst h else h)
      in if n_right h subst \<noteq> rb_sentinel h then put_parent (n_right h subst) subst h else h)"

definition rb_replace :: "nat \<Rightarrow> nat \<Rightarrow> nat \<Rightarrow> rbtree \<Rightarrow> rbtree" where
  "rb_replace node subst temp h =
     rb_take_place node subst (if n_parent h subst = node then put_parent temp subst h else put_parent temp (n_parent h subst) h)"

definition rb_unlink :: "nat \<Rightarrow> nat \<Rightarrow> rbtree \<Rightarrow> rbtree" where
  "rb_unlink subst temp h =
     (if subst = n_left h (n_parent h subst) then put_left (n_parent h subst) temp h else put_right (n_parent h subst) temp h)"

definition ngx_rbtree_delete :: "nat \<Rightarrow> rbtree \<Rightarrow> rbtree option" where
  "ngx_rbtree_delete node h =
     (case rb_delete_pick node h of
        None \<Rightarrow> None
      | Some (temp, subst) \<Rightarrow>
          if subst = rb_root h then
            let h = h\<lparr>rb_root := temp\<rparr>;
                h = ngx_rbt_black temp h
            in Some (rb_forget node h)
          else
            let red = n_red h subst;
                h = rb_unlink subst temp h;
                h = (if subst = node then put_parent temp (n_parent h subst) h else rb_replace node subst temp h);
                h = rb_forget node h
            in if red then Some h
               else map_option (\<lambda>(temp, h). ngx_rbt_black temp h) (rb_delete_fix temp h))"

section \<open>The tree in the memory\<close>

text \<open>
  A node has its address and its colour. \<open>br d x a c y\<close> is the node with the child \<open>x\<close> on the side \<open>d\<close> (\<open>True\<close> is the
  left side) and \<open>y\<close> on the other, so that a statement for both sides needs one proof.
\<close>

datatype rb = Lf | Br rb nat bool rb

definition br :: "bool \<Rightarrow> rb \<Rightarrow> nat \<Rightarrow> bool \<Rightarrow> rb \<Rightarrow> rb" where
  "br d x a c y = (if d then Br x a c y else Br y a c x)"

fun ptr :: "nat \<Rightarrow> rb \<Rightarrow> nat" where
  "ptr s Lf = s"
| "ptr s (Br l a c r) = a"

fun nodes :: "rb \<Rightarrow> nat list" where
  "nodes Lf = []"
| "nodes (Br l a c r) = nodes l @ a # nodes r"

text \<open>The memory holds a tree whose root has the parent \<open>q\<close>.\<close>

fun stored :: "rbtree \<Rightarrow> nat \<Rightarrow> rb \<Rightarrow> bool" where
  "stored h q Lf \<longleftrightarrow> True"
| "stored h q (Br l a c r) \<longleftrightarrow> a \<noteq> rb_sentinel h \<and> n_parent h a = q \<and> n_red h a = c
     \<and> n_left h a = ptr (rb_sentinel h) l \<and> n_right h a = ptr (rb_sentinel h) r \<and> stored h a l \<and> stored h a r"

definition child :: "bool \<Rightarrow> rbtree \<Rightarrow> nat \<Rightarrow> nat" where
  "child d h = (if d then n_left h else n_right h)"

definition put_child :: "bool \<Rightarrow> nat \<Rightarrow> nat \<Rightarrow> rbtree \<Rightarrow> rbtree" where
  "put_child d a x h = (if d then put_left a x h else put_right a x h)"

text \<open>The rotation that lifts the child on the other side of \<open>d\<close>, in the steps that the other operations share.\<close>

definition swap_child :: "bool \<Rightarrow> nat \<Rightarrow> nat \<Rightarrow> rbtree \<Rightarrow> rbtree" where
  "swap_child d node temp h =
     (if node = rb_root h then h\<lparr>rb_root := temp\<rparr>
      else if node = child d h (n_parent h node) then put_child d (n_parent h node) temp h
      else put_child (\<not> d) (n_parent h node) temp h)"

definition adopt :: "nat \<Rightarrow> nat \<Rightarrow> rbtree \<Rightarrow> rbtree" where
  "adopt a x h = (if x \<noteq> rb_sentinel h then put_parent x a h else h)"

definition rotate_to :: "bool \<Rightarrow> nat \<Rightarrow> rbtree \<Rightarrow> rbtree" where
  "rotate_to d node h =
     (let temp = child (\<not> d) h node;
          h = put_child (\<not> d) node (child d h temp) h;
          h = adopt node (child d h temp) h;
          h = put_parent temp (n_parent h node) h;
          h = swap_child d node temp h;
          h = put_child d temp node h
      in put_parent node temp h)"

lemma rotations: "ngx_rbtree_left_rotate = rotate_to True" "ngx_rbtree_right_rotate = rotate_to False"
  by (intro ext, simp only: rotate_to_def swap_child_def adopt_def ngx_rbtree_left_rotate_def ngx_rbtree_right_rotate_def
      child_def put_child_def if_True if_False not_True_eq_False not_False_eq_True)+

lemma put_fields [simp]:
  "n_left (put_left a x h) = (n_left h)(a := x)" "n_left (put_right a x h) = n_left h" "n_left (put_parent a x h) = n_left h" "n_left (put_red a c h) = n_left h" "n_left (put_key a k h) = n_left h"
  "n_right (put_right a x h) = (n_right h)(a := x)" "n_right (put_left a x h) = n_right h" "n_right (put_parent a x h) = n_right h" "n_right (put_red a c h) = n_right h" "n_right (put_key a k h) = n_right h"
  "n_parent (put_parent a x h) = (n_parent h)(a := x)" "n_parent (put_left a x h) = n_parent h" "n_parent (put_right a x h) = n_parent h" "n_parent (put_red a c h) = n_parent h" "n_parent (put_key a k h) = n_parent h"
  "n_red (put_red a c h) = (n_red h)(a := c)" "n_red (put_left a x h) = n_red h" "n_red (put_right a x h) = n_red h" "n_red (put_parent a x h) = n_red h" "n_red (put_key a k h) = n_red h"
  "n_key (put_key a k h) = (n_key h)(a := k)" "n_key (put_left a x h) = n_key h" "n_key (put_right a x h) = n_key h" "n_key (put_parent a x h) = n_key h" "n_key (put_red a c h) = n_key h"
  "rb_root (put_left a x h) = rb_root h" "rb_root (put_right a x h) = rb_root h" "rb_root (put_parent a x h) = rb_root h" "rb_root (put_red a c h) = rb_root h" "rb_root (put_key a k h) = rb_root h"
  "rb_sentinel (put_left a x h) = rb_sentinel h" "rb_sentinel (put_right a x h) = rb_sentinel h" "rb_sentinel (put_parent a x h) = rb_sentinel h" "rb_sentinel (put_red a c h) = rb_sentinel h" "rb_sentinel (put_key a k h) = rb_sentinel h"
  by (simp_all add: put_left_def put_right_def put_parent_def put_red_def put_key_def)

lemma child_fields [simp]:
  "child d (put_child e a x h) = (if d = e then (child d h)(a := x) else child d h)" "child d (put_parent a x h) = child d h" "child d (put_red a c h) = child d h"
  "child d (put_key a k h) = child d h" "child d (h\<lparr>rb_root := x\<rparr>) = child d h"
  "n_parent (put_child d a x h) = n_parent h" "n_red (put_child d a x h) = n_red h" "n_key (put_child d a x h) = n_key h"
  "rb_root (put_child d a x h) = rb_root h" "rb_sentinel (put_child d a x h) = rb_sentinel h"
  by (simp_all add: child_def put_child_def)

lemma adopt_fields [simp]:
  "child d (adopt a x h) = child d h" "n_left (adopt a x h) = n_left h" "n_right (adopt a x h) = n_right h" "n_red (adopt a x h) = n_red h" "n_key (adopt a x h) = n_key h"
  "rb_root (adopt a x h) = rb_root h" "rb_sentinel (adopt a x h) = rb_sentinel h"
  "n_parent (adopt a x h) = (if x \<noteq> rb_sentinel h then (n_parent h)(x := a) else n_parent h)"
  by (simp_all add: adopt_def child_def)

lemma swap_child_fields [simp]:
  "n_parent (swap_child d a x h) = n_parent h" "n_red (swap_child d a x h) = n_red h" "n_key (swap_child d a x h) = n_key h"
  "rb_root (swap_child d a x h) = (if a = rb_root h then x else rb_root h)" "rb_sentinel (swap_child d a x h) = rb_sentinel h"
  by (simp_all add: swap_child_def)

text \<open>It is known on which side \<open>e\<close> of its parent the node is.\<close>

lemma swap_child_child:
  assumes "a \<noteq> rb_root h \<Longrightarrow> a = child d h (n_parent h a) \<longleftrightarrow> d = e"
  shows "child f (swap_child d a x h) = (if a \<noteq> rb_root h \<and> f = e then (child f h)(n_parent h a := x) else child f h)"
  using assms by (cases "a = rb_root h") (auto simp: swap_child_def)

lemma rotate_key [simp]: "n_key (rotate_to d a h) = n_key h" "rb_sentinel (rotate_to d a h) = rb_sentinel h" "n_red (rotate_to d a h) = n_red h"
  by (simp_all add: rotate_to_def Let_def)

subsection \<open>Contexts\<close>

text \<open>A step up from a tree: the side it is on, the parent and its colour, the sibling.\<close>

datatype frame = Fr (fr_side: bool) (fr_addr: nat) (fr_red: bool) (fr_sib: rb)

fun plug :: "rb \<Rightarrow> frame list \<Rightarrow> rb" where
  "plug t [] = t"
| "plug t (Fr d a c s # k) = plug (br d t a c s) k"

fun up :: "nat \<Rightarrow> frame list \<Rightarrow> nat" where
  "up q [] = q"
| "up q (f # k) = fr_addr f"

definition frame_nodes :: "frame list \<Rightarrow> nat set" where
  "frame_nodes k = (\<Union>f \<in> set k. insert (fr_addr f) (set (nodes (fr_sib f))))"

lemma context_cases: "k \<noteq> [] \<Longrightarrow> \<exists>d a c s k'. k = Fr d a c s # k'"
  by (metis frame.exhaust list.exhaust)

lemma frame_nodes_simps [simp]: "frame_nodes [] = {}" "frame_nodes (Fr d a c s # k) = insert a (set (nodes s) \<union> frame_nodes k)"
  by (auto simp: frame_nodes_def)

lemma br_props [simp]:
  "ptr z (br d x a c y) = a" "br d x a c y \<noteq> Lf" "set (nodes (br d x a c y)) = insert a (set (nodes x) \<union> set (nodes y))"
  "distinct (nodes (br d x a c y)) \<longleftrightarrow> distinct (nodes x) \<and> distinct (nodes y) \<and> a \<notin> set (nodes x) \<and> a \<notin> set (nodes y) \<and> set (nodes x) \<inter> set (nodes y) = {}"
  by (auto simp: br_def)

lemma stored_br [simp]:
  "stored h q (br d x a c y) \<longleftrightarrow> a \<noteq> rb_sentinel h \<and> n_parent h a = q \<and> n_red h a = c
     \<and> child d h a = ptr (rb_sentinel h) x \<and> child (\<not> d) h a = ptr (rb_sentinel h) y \<and> stored h a x \<and> stored h a y"
  by (auto simp: br_def child_def)

lemma plug_nodes [simp]: "set (nodes (plug t k)) = set (nodes t) \<union> frame_nodes k"
  by (induction t k rule: plug.induct) auto

lemma plug_distinct:
  "distinct (nodes (plug t k)) \<longleftrightarrow> distinct (nodes t) \<and> distinct (nodes (plug Lf k)) \<and> set (nodes t) \<inter> frame_nodes k = {}"
proof (induction k arbitrary: t)
  case (Cons f k)
  obtain d a c s where f: "f = Fr d a c s" by (cases f) auto
  show ?case unfolding f plug.simps Cons [of "br d t a c s"] Cons [of "br d Lf a c s"] by auto
qed simp

lemma plug_append: "plug t (j @ k) = plug (plug t j) k"
  by (induction t j rule: plug.induct) auto

lemma ptr_in: "t \<noteq> Lf \<Longrightarrow> ptr z t \<in> set (nodes t)"
  by (cases t) auto

lemma stored_sentinel: "stored h q t \<Longrightarrow> rb_sentinel h \<notin> set (nodes t)"
  by (induction t arbitrary: q) auto

lemma ptr_sentinel: "stored h q t \<Longrightarrow> ptr (rb_sentinel h) t = rb_sentinel h \<longleftrightarrow> t = Lf"
  by (cases t) auto

lemma stored_frame:
  assumes "stored h q t" "rb_sentinel h' = rb_sentinel h"
    and "\<And>a. a \<in> set (nodes t) \<Longrightarrow> n_parent h' a = n_parent h a \<and> n_red h' a = n_red h a \<and> n_left h' a = n_left h a \<and> n_right h' a = n_right h a"
  shows "stored h' q t"
  using assms by (induction t arbitrary: q) auto

text \<open>The root may be moved below another parent.\<close>

lemma stored_move:
  assumes "stored h q t" "rb_sentinel h' = rb_sentinel h" "distinct (nodes t)" "t \<noteq> Lf \<Longrightarrow> n_parent h' (ptr (rb_sentinel h) t) = q'"
    and "\<And>a. a \<in> set (nodes t) \<Longrightarrow> n_red h' a = n_red h a \<and> n_left h' a = n_left h a \<and> n_right h' a = n_right h a"
    and "\<And>a. a \<in> set (nodes t) \<Longrightarrow> a \<noteq> ptr (rb_sentinel h) t \<Longrightarrow> n_parent h' a = n_parent h a"
  shows "stored h' q' t"
proof (cases t)
  case (Br l a c r)
  have "stored h' a l" by (rule stored_frame) (use assms Br in auto)
  moreover have "stored h' a r" by (rule stored_frame) (use assms Br in auto)
  ultimately show ?thesis using assms Br by auto
qed simp

text \<open>A part of the tree may be exchanged for another.\<close>

lemma stored_plug: "stored h q (plug t k) \<Longrightarrow> stored h (up q k) t"
proof (induction k arbitrary: t)
  case (Cons f k)
  then show ?case by (cases f) (fastforce)
qed simp

text \<open>The memory agrees on the nodes of the context, apart from the pointer to the tree in it.\<close>

lemma stored_replace:
  assumes "stored h q (plug t k)" "distinct (nodes (plug t k))" "rb_sentinel h' = rb_sentinel h"
    and "stored h' (if k = [] then q' else up q k) t'"
    and "\<And>a. a \<in> frame_nodes k \<Longrightarrow> n_parent h' a = n_parent h a \<and> n_red h' a = n_red h a"
    and "\<And>a d. a \<in> frame_nodes k \<Longrightarrow> a \<noteq> up q k \<or> k = [] \<or> d \<noteq> fr_side (hd k) \<Longrightarrow> child d h' a = child d h a"
    and "k \<noteq> [] \<Longrightarrow> child (fr_side (hd k)) h' (up q k) = ptr (rb_sentinel h) t'"
  shows "stored h' (if k = [] then q' else q) (plug t' k)"
  using assms
proof (induction k arbitrary: t t' q')
  case (Cons f k)
  obtain d a c s where f: "f = Fr d a c s" by (cases f) auto
  have st: "stored h (up q k) (br d t a c s)" by (rule stored_plug) (use Cons.prems(1) f in simp)
  have dis: "distinct (nodes (br d t a c s))" "set (nodes (br d t a c s)) \<inter> frame_nodes k = {}"
    using Cons.prems(2) unfolding f plug.simps plug_distinct [of "br d t a c s"] by blast+
  have same: "n_parent h' b = n_parent h b \<and> n_red h' b = n_red h b" if "b \<in> frame_nodes (f # k)" for b using that by (rule Cons.prems(5))
  have side: "child e h' b = child e h b" if "b \<in> frame_nodes (f # k)" "b \<noteq> a \<or> e \<noteq> d" for b e
    by (rule Cons.prems(6)) (use that f in auto)
  have s: "stored h' a s"
  proof (rule stored_frame [of h])
    show "stored h a s" using st by simp
    show "n_parent h' b = n_parent h b \<and> n_red h' b = n_red h b \<and> n_left h' b = n_left h b \<and> n_right h' b = n_right h b" if "b \<in> set (nodes s)" for b
    proof -
      have b: "b \<noteq> a" "b \<in> frame_nodes (f # k)" using that dis(1) f by auto
      show ?thesis using same [OF b(2)] side [OF b(2), of True] side [OF b(2), of False] b(1) by (simp add: child_def)
    qed
  qed (rule Cons.prems(3))
  have a: "a \<in> frame_nodes (f # k)" unfolding f by simp
  have to: "child d h' a = ptr (rb_sentinel h) t'" using Cons.prems(7) unfolding f by simp
  have t': "stored h' a t'" using Cons.prems(4) unfolding f by simp
  have new: "stored h' (up q k) (br d t' a c s)"
    using st s same [OF a] side [OF a, of "\<not> d"] to t' Cons.prems(3) by simp
  have "stored h' (if k = [] then q else q) (plug (br d t' a c s) k)"
  proof (rule Cons.IH [of "br d t a c s"])
    show "child e h' b = child e h b" if "b \<in> frame_nodes k" for b e
      by (rule side) (use that dis(2) f in auto)
    show "child (fr_side (hd k)) h' (up q k) = ptr (rb_sentinel h) (br d t' a c s)" if ne: "k \<noteq> []"
    proof -
      obtain d1 b c1 s1 k1 where k: "k = Fr d1 b c1 s1 # k1" using context_cases [OF ne] by blast
      have "stored h (up q k1) (br d1 (br d t a c s) b c1 s1)" by (rule stored_plug) (use Cons.prems(1) f k in simp)
      moreover have "b \<noteq> a" "b \<in> frame_nodes (f # k)" using dis(2) f k by auto
      ultimately show ?thesis using side [of b d1] k by simp
    qed
    show "n_parent h' b = n_parent h b \<and> n_red h' b = n_red h b" if "b \<in> frame_nodes k" for b by (rule same) (use that f in simp)
    show "stored h q (plug (br d t a c s) k)" "distinct (nodes (plug (br d t a c s) k))" using Cons.prems(1,2) unfolding f by simp_all
    show "stored h' (if k = [] then q else up q k) (br d t' a c s)" using new by (cases k) auto
  qed (rule Cons.prems(3))
  then show ?case using f by simp
qed simp

section \<open>The operations on the tree\<close>

text \<open>
  The memory represents the tree \<open>T\<close>. The parent of the root is arbitrary, since the deletion of the root leaves
  the old one there.
\<close>

definition rep :: "rbtree \<Rightarrow> rb \<Rightarrow> bool" where
  "rep h T \<longleftrightarrow> distinct (nodes T) \<and> rb_root h = ptr (rb_sentinel h) T \<and> \<not> n_red h (rb_sentinel h) \<and> (\<exists>q. stored h q T)"

fun red :: "rb \<Rightarrow> bool" where
  "red Lf \<longleftrightarrow> False"
| "red (Br l a c r) \<longleftrightarrow> c"

lemma red_br [simp]: "red (br d x a c y) = c"
  by (simp add: br_def)

lemma red_read: "stored h q t \<Longrightarrow> \<not> n_red h (rb_sentinel h) \<Longrightarrow> n_red h (ptr (rb_sentinel h) t) = red t"
  by (cases t) auto

lemma ptr_plug: "k \<noteq> [] \<Longrightarrow> ptr z (plug t k) = fr_addr (last k)"
proof (induction k arbitrary: t)
  case (Cons f k)
  then show ?case by (cases f; cases k) auto
qed simp

lemma last_frame: "k \<noteq> [] \<Longrightarrow> fr_addr (last k) \<in> frame_nodes k"
  by (auto simp: frame_nodes_def)

lemma rep_focus:
  assumes "rep h (plug t k)"
  obtains q where "stored h (up q k) t" "stored h q (plug t k)" "distinct (nodes t)" "set (nodes t) \<inter> frame_nodes k = {}"
    "rb_sentinel h \<notin> set (nodes t)" "rb_sentinel h \<notin> frame_nodes k" "t \<noteq> Lf \<Longrightarrow> ptr (rb_sentinel h) t = rb_root h \<longleftrightarrow> k = []"
proof -
  obtain q where q: "stored h q (plug t k)" "distinct (nodes (plug t k))" "rb_root h = ptr (rb_sentinel h) (plug t k)" using assms by (auto simp: rep_def)
  have d: "distinct (nodes t)" "set (nodes t) \<inter> frame_nodes k = {}" using q(2) unfolding plug_distinct [of t k] by blast+
  have "ptr (rb_sentinel h) t = rb_root h \<longleftrightarrow> k = []" if "t \<noteq> Lf"
    using q(3) ptr_plug [of k "rb_sentinel h" t] last_frame [of k] ptr_in [OF that, of "rb_sentinel h"] d(2) by (cases "k = []") auto
  then show ?thesis using that [OF stored_plug [OF q(1)] q(1) d] stored_sentinel [OF q(1)] by simp
qed

text \<open>A step of the code that exchanges a part of the tree for another with the same nodes.\<close>

lemma rep_replace:
  assumes "rep h (plug t k)" "stored h q (plug t k)" "rb_sentinel h' = rb_sentinel h" "\<not> n_red h' (rb_sentinel h)"
    and "distinct (nodes t')" "set (nodes t') \<inter> frame_nodes k = {}" "stored h' (up q' k) t'"
    and "\<And>a. a \<in> frame_nodes k \<Longrightarrow> n_parent h' a = n_parent h a \<and> n_red h' a = n_red h a"
    and "\<And>a d. a \<in> frame_nodes k \<Longrightarrow> a \<noteq> up q k \<or> k = [] \<or> d \<noteq> fr_side (hd k) \<Longrightarrow> child d h' a = child d h a"
    and "k \<noteq> [] \<Longrightarrow> child (fr_side (hd k)) h' (up q k) = ptr (rb_sentinel h) t'"
    and "rb_root h' = (if k = [] then ptr (rb_sentinel h) t' else rb_root h)"
  shows "rep h' (plug t' k)"
proof -
  have d: "distinct (nodes (plug t k))" "rb_root h = ptr (rb_sentinel h) (plug t k)" using assms(1) by (auto simp: rep_def)
  have "distinct (nodes (plug t' k))" using d(1) assms(5,6) unfolding plug_distinct [of t] plug_distinct [of t'] by simp
  moreover have "stored h' (if k = [] then q' else up q k) t'" using assms(7) by (cases k) auto
  then have "stored h' (if k = [] then q' else q) (plug t' k)" using stored_replace [OF assms(2) d(1) assms(3) _ assms(8,9,10)] by blast
  moreover have "rb_root h' = ptr (rb_sentinel h') (plug t' k)" using assms(3,11) d(2) ptr_plug [of k] by (cases "k = []") auto
  ultimately show ?thesis using assms(3,4) unfolding rep_def by auto
qed

lemma rep_paint:
  assumes "rep h (plug (br d x a c y) k)"
  shows "rep (put_red a c' h) (plug (br d x a c' y) k)"
proof -
  obtain q where q: "stored h (up q k) (br d x a c y)" "stored h q (plug (br d x a c y) k)" "distinct (nodes (br d x a c y))"
    "set (nodes (br d x a c y)) \<inter> frame_nodes k = {}" using rep_focus [OF assms] by metis
  show ?thesis
  proof (rule rep_replace [OF assms q(2)])
    have "stored (put_red a c' h) a x" by (rule stored_frame [of h]) (use q in auto)
    moreover have "stored (put_red a c' h) a y" by (rule stored_frame [of h]) (use q in auto)
    ultimately show "stored (put_red a c' h) (up q k) (br d x a c' y)" using q(1) by simp
    show "child (fr_side (hd k)) (put_red a c' h) (up q k) = ptr (rb_sentinel h) (br d x a c' y)" if ne: "k \<noteq> []"
    proof -
      obtain e b c1 s k1 where k: "k = Fr e b c1 s # k1" using context_cases [OF ne] by blast
      have "stored h (up q k1) (br e (br d x a c y) b c1 s)" by (rule stored_plug) (use q(2) k in simp)
      then show ?thesis using k by simp
    qed
  qed (use q assms in \<open>auto simp: rep_def\<close>)
qed

lemma frame_points:
  assumes "stored h q (plug t k)" "k \<noteq> []"
  shows "child (fr_side (hd k)) h (up q k) = ptr (rb_sentinel h) t"
proof -
  obtain e b c s k1 where k: "k = Fr e b c s # k1" using context_cases [OF assms(2)] by blast
  have "stored h (up q k1) (br e t b c s)" by (rule stored_plug) (use assms(1) k in simp)
  then show ?thesis using k by simp
qed

lemma frame_points_once:
  assumes "stored h q (plug t k)" "k \<noteq> []" "distinct (nodes (plug t k))" "t \<noteq> Lf"
  shows "child d h (up q k) = ptr (rb_sentinel h) t \<longleftrightarrow> d = fr_side (hd k)"
proof -
  obtain e b c s k1 where k: "k = Fr e b c s # k1" using context_cases [OF assms(2)] by blast
  have st: "stored h (up q k1) (br e t b c s)" by (rule stored_plug) (use assms(1) k in simp)
  have "distinct (nodes (br e t b c s))" using assms(3) unfolding k plug.simps plug_distinct [of "br e t b c s"] by blast
  then have "ptr (rb_sentinel h) s \<noteq> ptr (rb_sentinel h) t"
    using st ptr_in [OF assms(4), of "rb_sentinel h"] stored_sentinel [of h b t] by (cases s) auto
  then show ?thesis using st k by (cases d; cases e) auto
qed

text \<open>The rotation.\<close>

lemma rep_rotate:
  assumes "rep h (plug (br d A x c (br d B y e C)) k)"
  shows "rep (rotate_to d x h) (plug (br d (br d A x c B) y e C) k)" "n_parent (rotate_to d x h) (rb_sentinel h) = n_parent h (rb_sentinel h)"
proof -
  let ?t = "br d A x c (br d B y e C)"
  obtain q where q: "stored h (up q k) ?t" "stored h q (plug ?t k)" "distinct (nodes ?t)" "set (nodes ?t) \<inter> frame_nodes k = {}"
    "rb_sentinel h \<notin> set (nodes ?t)" "rb_sentinel h \<notin> frame_nodes k" "x = rb_root h \<longleftrightarrow> k = []"
    using rep_focus [OF assms] by (metis br_props(1,2))
  have dis: "distinct (nodes (plug ?t k))" using assms by (simp add: rep_def)
  let ?h = "rotate_to d x h" and ?z = "rb_sentinel h"
  have f: "n_parent h x = up q k" "child (\<not> d) h x = y" "child d h y = ptr ?z B" "ptr ?z B = ?z \<longleftrightarrow> B = Lf" "child d h x = ptr ?z A" "child (\<not> d) h y = ptr ?z C"
    "x \<noteq> y" "ptr ?z B \<noteq> x" "ptr ?z B \<noteq> y" "x \<noteq> ?z" "y \<noteq> ?z"
    using q(1,3,5) ptr_in [of B ?z] ptr_sentinel [of h y B] by (cases "B = Lf"; simp; blast)+
  have u: "up q k \<noteq> x \<and> up q k \<noteq> y \<and> (x = child d h (up q k) \<longleftrightarrow> d = fr_side (hd k)) \<and> up q k \<in> frame_nodes k" if "k \<noteq> []"
  proof -
    have "up q k \<in> frame_nodes k" using context_cases [OF that] by auto
    then show ?thesis using q(4) frame_points_once [OF q(2) that dis, of d] by auto
  qed
  have par: "n_parent ?h = (n_parent h)(?z := n_parent h ?z, y := up q k, x := y, ptr ?z B := (if B = Lf then n_parent h ?z else x))"
    using f by (auto simp: rotate_to_def Let_def)
  have ch: "child e ?h a = (if k \<noteq> [] \<and> a = up q k \<and> e = fr_side (hd k) then y else if e = d \<and> a = y then x
      else if e \<noteq> d \<and> a = x then ptr ?z B else child e h a)" for a e
  proof -
    define H where "H = put_parent y (up q k) (adopt x (ptr ?z B) (put_child (\<not> d) x (ptr ?z B) h))"
    have H: "child e H = (if e = d then child e h else (child e h)(x := ptr ?z B))" "n_parent H x = up q k" "rb_root H = rb_root h" for e
      using f unfolding H_def by auto
    have h: "?h = put_parent x y (put_child d y x (swap_child d x y H))"
      using f unfolding rotate_to_def Let_def H_def by simp
    have "child e (swap_child d x y H) = (if x \<noteq> rb_root H \<and> e = fr_side (hd k) then (child e H)(n_parent H x := y) else child e H)" for e
      by (rule swap_child_child) (use H u q(7) in auto)
    then show ?thesis unfolding h H(2,3) q(7) using u by (cases "e = d") (auto simp: H(1))
  qed
  show "n_parent ?h (rb_sentinel h) = n_parent h (rb_sentinel h)"
    using f unfolding par by auto
  have rt: "rb_root ?h = (if k = [] then y else rb_root h)"
    using f q(7) by (auto simp: rotate_to_def Let_def)
  have st: "stored h x A" "stored h y B" "stored h y C" "n_red h x = c" "n_red h y = e" using q(1) by auto
  have away: "a \<noteq> x \<and> a \<noteq> y \<and> a \<noteq> up q k" if "a \<in> set (nodes A) \<union> set (nodes B) \<union> set (nodes C)" "k \<noteq> []" for a
    using that q(3,4) u by auto
  have sides: "n_left ?h a = n_left h a \<and> n_right ?h a = n_right h a" if "a \<in> set (nodes A) \<union> set (nodes B) \<union> set (nodes C)" for a
    using ch [of True a] ch [of False a] away [OF that] that q(3) by (cases "k = []") (auto simp: child_def)
  have pars: "n_parent ?h a = n_parent h a" if "a \<in> set (nodes A) \<union> set (nodes B) \<union> set (nodes C)" "a \<noteq> ptr ?z B" for a
    using that q(3,5) unfolding par by auto
  have B': "ptr ?z B \<notin> set (nodes A)" "ptr ?z B \<notin> set (nodes C)" "ptr ?z B \<notin> frame_nodes k"
    using q(3,4,5,6) ptr_in [of B ?z] by (cases "B = Lf"; auto)+
  have A: "stored ?h x A" by (rule stored_frame [OF st(1)]) (use sides pars B' in auto)
  have C: "stored ?h y C" by (rule stored_frame [OF st(3)]) (use sides pars B' in auto)
  have B: "stored ?h x B"
    by (rule stored_move [OF st(2)]) (use sides pars q(3) in \<open>auto simp: par\<close>)
  show "rep ?h (plug (br d (br d A x c B) y e C) k)"
  proof (rule rep_replace [OF assms q(2)])
    show "stored ?h (up q k) (br d (br d A x c B) y e C)"
    proof -
      have "n_parent ?h y = up q k" "n_parent ?h x = y" using f by (simp_all add: par)
      moreover have "child d ?h y = x" "child (\<not> d) ?h y = ptr ?z C" "child d ?h x = ptr ?z A" "child (\<not> d) ?h x = ptr ?z B"
        using f(2,3,5,6,7) u by (auto simp: ch)
      ultimately show ?thesis using A B C f(10,11) st(4,5) by simp
    qed
    show "n_parent ?h a = n_parent h a \<and> n_red ?h a = n_red h a" if "a \<in> frame_nodes k" for a
      using that B'(3) q(4,6) by (auto simp: par)
    show "child e ?h a = child e h a" if "a \<in> frame_nodes k" "a \<noteq> up q k \<or> k = [] \<or> e \<noteq> fr_side (hd k)" for a e
      using that q(4) by (auto simp: ch)
    show "child (fr_side (hd k)) ?h (up q k) = ptr ?z (br d (br d A x c B) y e C)" if "k \<noteq> []" using that by (simp add: ch)
  qed (use q assms rt in \<open>auto simp: rep_def\<close>)
qed

text \<open>The code read from a tree in the memory: the fields of the parent \<open>a\<close> of a tree \<open>t\<close>.\<close>

lemma rep_read:
  assumes "rep h (plug t (Fr d a c s # k))"
  defines "z \<equiv> rb_sentinel h"
  shows "child d h a = ptr z t" "child (\<not> d) h a = ptr z s" "n_red h a = c" "n_red h (ptr z t) = red t" "n_red h (ptr z s) = red s"
    "t \<noteq> Lf \<Longrightarrow> n_parent h (ptr z t) = a" "s \<noteq> Lf \<Longrightarrow> n_parent h (ptr z s) = a" "k \<noteq> [] \<Longrightarrow> n_parent h a = fr_addr (hd k)"
    "rb_root h = a \<longleftrightarrow> k = []" "t \<noteq> Lf \<Longrightarrow> ptr z t \<noteq> rb_root h" "a \<noteq> z" "t \<noteq> Lf \<or> s \<noteq> Lf \<Longrightarrow> ptr z t = child e h a \<longleftrightarrow> e = d"
proof -
  have r: "rep h (plug (br d t a c s) k)" "\<not> n_red h z" using assms by (auto simp: rep_def)
  obtain q where q: "stored h (up q k) (br d t a c s)" "rb_root h = a \<longleftrightarrow> k = []" "distinct (nodes (br d t a c s))"
    using rep_focus [OF r(1)] by (metis br_props(1,2))
  obtain q' where q': "t \<noteq> Lf \<Longrightarrow> ptr z t = rb_root h \<longleftrightarrow> Fr d a c s # k = []" using rep_focus [OF assms(1)] z_def by metis
  show "child d h a = ptr z t" "child (\<not> d) h a = ptr z s" "n_red h a = c" "a \<noteq> z" using q(1) z_def by auto
  show "n_red h (ptr z t) = red t" "n_red h (ptr z s) = red s" using q(1) r(2) red_read z_def by auto
  show "t \<noteq> Lf \<Longrightarrow> n_parent h (ptr z t) = a" "s \<noteq> Lf \<Longrightarrow> n_parent h (ptr z s) = a" using q(1) by (cases t; cases s; auto)+
  show "k \<noteq> [] \<Longrightarrow> n_parent h a = fr_addr (hd k)" using q(1) by (cases k) auto
  show "t \<noteq> Lf \<Longrightarrow> ptr z t \<noteq> rb_root h" using q' by auto
  show "rb_root h = a \<longleftrightarrow> k = []" using q(2) .
  show "ptr z t = child e h a \<longleftrightarrow> e = d" if "t \<noteq> Lf \<or> s \<noteq> Lf"
  proof -
    have "ptr z s \<noteq> ptr z t" using that q(1,3) ptr_in [of t z] ptr_in [of s z] stored_sentinel [of h a t] stored_sentinel [of h a s] z_def
      by (cases t; cases s; auto)
    then show ?thesis using q(1) z_def by (cases e; cases d) auto
  qed
qed

text \<open>The colours: as many black nodes on every path, and no red child of a red node.\<close>

fun rb_ok :: "rb \<Rightarrow> nat \<Rightarrow> bool" where
  "rb_ok Lf n \<longleftrightarrow> n = 0"
| "rb_ok (Br l a c r) n \<longleftrightarrow> (if c then \<not> red l \<and> \<not> red r \<and> rb_ok l n \<and> rb_ok r n else n \<noteq> 0 \<and> rb_ok l (n - 1) \<and> rb_ok r (n - 1))"

fun ctx_ok :: "frame list \<Rightarrow> nat \<Rightarrow> bool" where
  "ctx_ok [] n \<longleftrightarrow> True"
| "ctx_ok (Fr d a c s # k) n \<longleftrightarrow> rb_ok s n \<and> (if c then \<not> red s \<and> k \<noteq> [] \<and> \<not> fr_red (hd k) \<and> ctx_ok k n else ctx_ok k (Suc n))"

definition rb_wf :: "rb \<Rightarrow> bool" where
  "rb_wf T \<longleftrightarrow> \<not> red T \<and> (\<exists>n. rb_ok T n)"

lemma rb_ok_br [simp]:
  "rb_ok (br d x a True y) n \<longleftrightarrow> \<not> red x \<and> \<not> red y \<and> rb_ok x n \<and> rb_ok y n"
  "rb_ok (br d x a False y) n \<longleftrightarrow> n \<noteq> 0 \<and> rb_ok x (n - 1) \<and> rb_ok y (n - 1)"
  by (auto simp: br_def)

lemma plug_wf: "rb_wf (plug t k) \<longleftrightarrow> (\<exists>n. rb_ok t n \<and> ctx_ok k n \<and> (red t \<longrightarrow> k \<noteq> [] \<and> \<not> fr_red (hd k)))"
proof (induction k arbitrary: t)
  case (Cons f k)
  obtain d a c s where f: "f = Fr d a c s" by (cases f) auto
  have "(\<exists>n. rb_ok (br d t a c s) n \<and> ctx_ok k n \<and> (c \<longrightarrow> k \<noteq> [] \<and> \<not> fr_red (hd k)))
      \<longleftrightarrow> (\<exists>n. rb_ok t n \<and> ctx_ok (Fr d a c s # k) n \<and> (red t \<longrightarrow> \<not> c))"
  proof (cases c)
    case False
    have "(\<exists>n. n \<noteq> 0 \<and> rb_ok t (n - 1) \<and> rb_ok s (n - 1) \<and> ctx_ok k n) \<longleftrightarrow> (\<exists>n. rb_ok t n \<and> rb_ok s n \<and> ctx_ok k (Suc n))"
      by (metis Suc_pred' diff_Suc_1 gr0_conv_Suc neq0_conv nat.distinct(1))
    then show ?thesis using False by simp
  qed auto
  then show ?case using Cons.IH [of "br d t a c s"] f by simp
qed (auto simp: rb_wf_def)

definition blacken :: "rb \<Rightarrow> rb" where
  "blacken t = (case t of Lf \<Rightarrow> Lf | Br l a c r \<Rightarrow> Br l a False r)"

lemma blacken_simps [simp]: "blacken Lf = Lf" "blacken (Br l a c r) = Br l a False r" "blacken (br d x a c y) = br d x a False y"
  "nodes (blacken t) = nodes t" "\<not> red (blacken t)" "ptr z (blacken t) = ptr z t" "blacken t = Lf \<longleftrightarrow> t = Lf"
  by (cases t; simp add: blacken_def br_def)+

lemma blacken_ok: "rb_ok t n \<Longrightarrow> rb_ok (blacken t) (if red t then Suc n else n)"
  by (cases t) auto

lemma blacken_wf: "rb_ok t n \<Longrightarrow> rb_wf (blacken t)"
  using blacken_ok unfolding rb_wf_def by auto

lemma rep_blacken:
  assumes "rep h (plug t k)"
  shows "rep (put_red (ptr (rb_sentinel h) t) False h) (plug (blacken t) k)"
proof (cases t)
  case Lf
  have "put_red (ptr (rb_sentinel h) t) False h = h" using assms Lf by (auto simp: rep_def put_red_def fun_upd_idem)
  then show ?thesis using assms Lf by simp
next
  case (Br l a c r)
  then show ?thesis using rep_paint [of h True l a c r k False] assms by (simp add: br_def)
qed

lemma br_not [simp]: "br (\<not> d) x a c y = br d y a c x"
  by (simp add: br_def)

lemma plug_step: "plug (br d x a c y) k = plug x (Fr d a c y # k)" "plug (br d x a c y) k = plug y (Fr (\<not> d) a c x # k)"
  by simp_all

subsection \<open>The insertion\<close>

text \<open>One round of the loop, for both sides.\<close>

definition ins_rotate :: "bool \<Rightarrow> nat \<Rightarrow> rbtree \<Rightarrow> rbtree" where
  "ins_rotate d node h =
     (let h = put_red (n_parent h node) False h;
          h = put_red (n_parent h (n_parent h node)) True h
      in rotate_to (\<not> d) (n_parent h (n_parent h node)) h)"

definition ins_step :: "bool \<Rightarrow> nat \<Rightarrow> rbtree \<Rightarrow> nat \<times> rbtree" where
  "ins_step d node h =
     (let temp = child (\<not> d) h (n_parent h (n_parent h node))
      in if n_red h temp then
           let h = put_red (n_parent h node) False h;
               h = put_red temp False h;
               h = put_red (n_parent h (n_parent h node)) True h
           in (n_parent h (n_parent h node), h)
         else
           let (node, h) = (if node = child (\<not> d) h (n_parent h node) then (n_parent h node, rotate_to d (n_parent h node) h) else (node, h))
           in (node, ins_rotate d node h))"

lemma ins_steps: "rb_insert_left = ins_step True" "rb_insert_right = ins_step False"
  by (intro ext, simp only: rb_insert_left_def rb_insert_right_def ins_step_def ins_rotate_def child_def ngx_rbt_red_def ngx_rbt_black_def
      rotations if_True if_False not_True_eq_False not_False_eq_True Let_def split_beta)+

lemma rb_insert_fix_step:
  "rb_insert_fix node h =
     (if node \<noteq> rb_root h \<and> n_red h (n_parent h node) then
        case ins_step (n_parent h node = n_left h (n_parent h (n_parent h node))) node h of (node, h) \<Rightarrow> rb_insert_fix node h
      else Some h)"
  by (subst rb_insert_fix.simps) (simp add: ins_steps)

lemma ins_rotate_ok:
  assumes "rep h (plug t (Fr d p True s # Fr d g False u # k))" "t \<noteq> Lf"
  defines "z \<equiv> rb_sentinel h"
  shows "rep (ins_rotate d (ptr z t) h) (plug t (Fr d p False (br d s g True u) # k))"
    "n_key (ins_rotate d (ptr z t) h) = n_key h" "rb_sentinel (ins_rotate d (ptr z t) h) = z"
proof -
  have p: "n_parent h (ptr z t) = p" "n_parent h p = g" using rep_read(6,8) [OF assms(1)] assms(2) z_def by auto
  have "rep (put_red p False h) (plug t (Fr d p False s # Fr d g False u # k))"
    using rep_paint [of h d t p True s "Fr d g False u # k" False] assms(1) by simp
  then have "rep (put_red g True (put_red p False h)) (plug (br (\<not> d) u g True (br (\<not> d) s p False t)) k)"
    using rep_paint [of _ d _ g False u k True] by simp
  from rep_rotate(1) [OF this] show "rep (ins_rotate d (ptr z t) h) (plug t (Fr d p False (br d s g True u) # k))"
    using p by (simp add: ins_rotate_def Let_def)
  show "n_key (ins_rotate d (ptr z t) h) = n_key h" "rb_sentinel (ins_rotate d (ptr z t) h) = z"
    using z_def by (simp_all add: ins_rotate_def Let_def)
qed

lemma nodes_rotate: "nodes (br d (br d A x c B) y e C) = nodes (br d A x c' (br d B y e' C))"
  by (simp add: br_def)

lemma nodes_plug_cong: "nodes t = nodes t' \<Longrightarrow> nodes (plug t k) = nodes (plug t' k)"
proof (induction k arbitrary: t t')
  case (Cons f k)
  obtain d a c s where f: "f = Fr d a c s" by (cases f) auto
  have "nodes (br d t a c s) = nodes (br d t' a c s)" using Cons.prems by (simp add: br_def)
  from Cons.IH [OF this] show ?case unfolding f plug.simps .
qed simp

lemma rb_insert_fix_stop:
  assumes "rep h (plug t k)" "t \<noteq> Lf" "k \<noteq> [] \<longrightarrow> \<not> fr_red (hd k)"
  shows "rb_insert_fix (ptr (rb_sentinel h) t) h = Some h"
proof (cases "k = []")
  case True
  then show ?thesis using assms(1) by (subst rb_insert_fix_step) (simp add: rep_def)
next
  case False
  obtain d a c s k' where k: "k = Fr d a c s # k'" using context_cases [OF False] by blast
  then have "\<not> n_red h (n_parent h (ptr (rb_sentinel h) t))" using rep_read(3,6) [of h t d a c s k'] assms by simp
  then show ?thesis by (subst rb_insert_fix_step) simp
qed

lemma ins_step_recolour:
  assumes "rep h (plug t (Fr e p True s # Fr d g False u # k))" "t \<noteq> Lf" "red u"
  shows "\<exists>h'. ins_step d (ptr (rb_sentinel h) t) h = (g, h') \<and> rep h' (plug (br d (br e t p False s) g True (blacken u)) k)
    \<and> n_key h' = n_key h \<and> rb_sentinel h' = rb_sentinel h"
proof -
  let ?z = "rb_sentinel h"
  have g: "rep h (plug (br e t p True s) (Fr d g False u # k))" using assms(1) by simp
  have r: "n_parent h (ptr ?z t) = p" "n_parent h p = g" "child (\<not> d) h g = ptr ?z u" "n_red h (ptr ?z u)"
    using rep_read(6,8) [OF assms(1)] rep_read(2,5) [OF g] assms(2,3) by auto
  have "rep (put_red p False h) (plug (br e t p False s) (Fr d g False u # k))" using rep_paint [OF g] by blast
  then have "rep (put_red p False h) (plug u (Fr (\<not> d) g False (br e t p False s) # k))" by simp
  then have "rep (put_red (ptr ?z u) False (put_red p False h)) (plug (br d (br e t p False s) g False (blacken u)) k)"
    using rep_blacken [of "put_red p False h" u "Fr (\<not> d) g False (br e t p False s) # k"] by simp
  from rep_paint [OF this, of True] show ?thesis using r by (simp add: ins_step_def Let_def)
qed

lemma ins_rotate_stop:
  assumes "rep h (plug t (Fr d p True s # Fr d g False u # k))" "t \<noteq> Lf"
  defines "h' \<equiv> ins_rotate d (ptr (rb_sentinel h) t) h"
  shows "rb_insert_fix (ptr (rb_sentinel h) t) h' = Some h'"
  using rb_insert_fix_stop [OF ins_rotate_ok(1) [OF assms(1,2)]] assms(2) ins_rotate_ok(3) [OF assms(1,2)] unfolding h'_def by simp

lemma as_br: "t \<noteq> Lf \<Longrightarrow> \<exists>A a B. t = br d A a (red t) B"
  by (cases t; cases d) (auto simp: br_def)

lemma ins_step_rotate:
  assumes "rep h (plug t (Fr e p True s # Fr d g False u # k))" "red t" "\<not> red u" "rb_ok t n" "\<not> red s" "rb_ok s n" "rb_ok u n"
  shows "\<exists>x h' T. ins_step d (ptr (rb_sentinel h) t) h = (x, h') \<and> rb_insert_fix x h' = Some h' \<and> rep h' (plug T k)
    \<and> nodes T = nodes (plug t [Fr e p True s, Fr d g False u]) \<and> n_key h' = n_key h \<and> rb_sentinel h' = rb_sentinel h
    \<and> rb_ok T (Suc n) \<and> \<not> red T"
proof -
  let ?z = "rb_sentinel h"
  have t: "t \<noteq> Lf" using assms(2) by auto
  have g: "rep h (plug (br e t p True s) (Fr d g False u # k))" using assms(1) by simp
  have r: "n_parent h (ptr ?z t) = p" "n_parent h p = g" "child (\<not> d) h g = ptr ?z u" "\<not> n_red h (ptr ?z u)"
    "ptr ?z t = child (\<not> d) h p \<longleftrightarrow> e \<noteq> d"
    using rep_read(6,8,12) [OF assms(1)] rep_read(2,5) [OF g] t assms(3) by auto
  show ?thesis
  proof (cases "e = d")
    case True
    then show ?thesis
      using ins_rotate_ok [OF assms(1) [unfolded True] t] ins_rotate_stop [OF assms(1) [unfolded True] t] r assms
      by (intro exI [of _ "ptr ?z t"] exI [of _ "ins_rotate d (ptr ?z t) h"] exI [of _ "br d t p False (br d s g True u)"])
        (simp add: ins_step_def Let_def, simp add: br_def)
  next
    case False
    obtain A x B where b: "t = br d A x True B" using as_br [OF t, of d] assms(2) by auto
    have e: "e = (\<not> d)" using False by blast
    have "rep h (plug (br d s p True (br d A x True B)) (Fr d g False u # k))" using assms(1) unfolding b e by simp
    note R = rep_rotate(1) [OF this]
    then have R': "rep (rotate_to d p h) (plug (br d s p True A) (Fr d x True B # Fr d g False u # k))" by simp
    have "ins_step d (ptr ?z t) h = (p, ins_rotate d p (rotate_to d p h))" using r False by (simp add: ins_step_def Let_def)
    then show ?thesis
      using ins_rotate_ok [OF R'] ins_rotate_stop [OF R'] assms b
      by (intro exI [of _ p] exI [of _ "ins_rotate d p (rotate_to d p h)"] exI [of _ "br d (br d s p True A) x False (br d B g True u)"])
        (auto simp: br_def e)
  qed
qed

text \<open>The loop: it ends, and the colours are right but for that of the root.\<close>

lemma rb_insert_fix_ok:
  assumes "rep h (plug t k)" "red t" "rb_ok t n" "ctx_ok k n"
  shows "\<exists>h' T m. rb_insert_fix (ptr (rb_sentinel h) t) h = Some h' \<and> rep h' T \<and> nodes T = nodes (plug t k)
    \<and> n_key h' = n_key h \<and> rb_sentinel h' = rb_sentinel h \<and> rb_ok T m"
  using assms
proof (induction k arbitrary: h t n rule: length_induct)
  case (1 k)
  have t: "t \<noteq> Lf" using 1(3) by auto
  show ?case
  proof (cases "k \<noteq> [] \<and> fr_red (hd k)")
    case False
    have "k = [] \<or> rb_wf (plug t k)" using 1(3-5) False plug_wf [of t k] by blast
    then obtain m where "rb_ok (plug t k) m" using 1(4) unfolding rb_wf_def by (cases "k = []") auto
    then show ?thesis using rb_insert_fix_stop [OF 1(2) t] 1(2) False by blast
  next
    case True
    then obtain e p s k1 where k1: "k = Fr e p True s # k1" using context_cases [of k] by force
    then have "k1 \<noteq> []" "\<not> fr_red (hd k1)" using 1(5) by auto
    then obtain d g u k2 where k: "k = Fr e p True s # Fr d g False u # k2" using context_cases [of k1] k1 by force
    have c: "rb_ok s n" "\<not> red s" "rb_ok u n" "ctx_ok k2 (Suc n)" using 1(5) k by auto
    have R: "rep h (plug t (Fr e p True s # Fr d g False u # k2))" using 1(2) k by simp
    have loop: "rb_insert_fix (ptr (rb_sentinel h) t) h = (case ins_step d (ptr (rb_sentinel h) t) h of (x, h) \<Rightarrow> rb_insert_fix x h)"
    proof -
      have R2: "rep h (plug (br e t p True s) (Fr d g False u # k2))" using R by simp
      have "ptr (rb_sentinel h) t \<noteq> rb_root h" "n_parent h (ptr (rb_sentinel h) t) = p" "n_red h p" "n_parent h p = g" "p = n_left h g \<longleftrightarrow> d"
        using rep_read(3,6,8,10) [OF R] rep_read(12) [OF R2, of True] t by (auto simp: child_def)
      then show ?thesis by (subst rb_insert_fix_step) simp
    qed
    show ?thesis
    proof (cases "red u")
      case False
      obtain x h' T where h': "ins_step d (ptr (rb_sentinel h) t) h = (x, h')" "rb_insert_fix x h' = Some h'" "rep h' (plug T k2)"
        "nodes T = nodes (plug t [Fr e p True s, Fr d g False u])" "n_key h' = n_key h" "rb_sentinel h' = rb_sentinel h" "rb_ok T (Suc n)" "\<not> red T"
        using ins_step_rotate [OF R 1(3) False 1(4) c(2,1,3)] by blast
      have "rb_wf (plug T k2)" unfolding plug_wf using h'(7,8) c(4) by blast
      moreover have "nodes (plug T k2) = nodes (plug t k)"
        unfolding k plug.simps by (rule nodes_plug_cong) (simp add: h'(4))
      ultimately show ?thesis unfolding loop rb_wf_def using h' by auto
    next
      case True
      then obtain h' where h': "ins_step d (ptr (rb_sentinel h) t) h = (g, h')" "rep h' (plug (br d (br e t p False s) g True (blacken u)) k2)"
        "n_key h' = n_key h" "rb_sentinel h' = rb_sentinel h" using ins_step_recolour [OF R t] by blast
      have "rb_ok (br d (br e t p False s) g True (blacken u)) (Suc n)" using blacken_ok [OF c(3)] True 1(4) c(1) by simp
      then obtain h'' T m where "rb_insert_fix (ptr (rb_sentinel h') (br d (br e t p False s) g True (blacken u))) h' = Some h''" "rep h'' T"
        "nodes T = nodes (plug (br d (br e t p False s) g True (blacken u)) k2)" "n_key h'' = n_key h'" "rb_sentinel h'' = rb_sentinel h'" "rb_ok T m"
        using 1(1) [rule_format, of k2 h' _ "Suc n"] k h'(2) c(4) by fastforce
      moreover have "nodes (plug (br d (br e t p False s) g True (blacken u)) k2) = nodes (plug t k)"
        unfolding k plug.simps by (rule nodes_plug_cong) (simp add: br_def)
      ultimately show ?thesis unfolding loop using h' by auto
    qed
  qed
qed

text \<open>The nodes before and after a tree, in the order of the whole tree.\<close>

fun before :: "frame list \<Rightarrow> nat list" where
  "before [] = []"
| "before (Fr d a c s # k) = (if d then before k else before k @ nodes s @ [a])"

fun after :: "frame list \<Rightarrow> nat list" where
  "after [] = []"
| "after (Fr d a c s # k) = (if d then a # nodes s @ after k else after k)"

lemma nodes_plug: "nodes (plug t k) = before k @ nodes t @ after k"
  by (induction t k rule: plug.induct) (auto simp: br_def)

lemma rb_insert_pos_ok:
  assumes "rep h (plug t k)" "t \<noteq> Lf"
  shows "\<exists>a c s j. rb_insert_pos lt (ptr (rb_sentinel h) t) h = Some (a, lt a) \<and> t = plug Lf (Fr (lt a) a c s # j)
    \<and> (\<forall>f \<in> set (Fr (lt a) a c s # j). fr_side f = lt (fr_addr f))"
  using assms
proof (induction t arbitrary: k)
  case (Br l a c r)
  define d where "d = lt a"
  define x y where xy: "x = (if d then l else r)" "y = (if d then r else l)"
  have t: "Br l a c r = br d x a c y" using xy by (simp add: br_def)
  have R: "rep h (plug x (Fr d a c y # k))" using Br.prems(1) t by simp
  have "rb_insert_pos lt a h = (if ptr (rb_sentinel h) x = rb_sentinel h then Some (a, d) else rb_insert_pos lt (ptr (rb_sentinel h) x) h)"
    using rep_read(1) [OF R] by (subst rb_insert_pos.simps, cases "lt a") (simp_all add: d_def child_def Let_def)
  note pos = this
  have z: "ptr (rb_sentinel h) x = rb_sentinel h \<longleftrightarrow> x = Lf" using rep_focus [OF R] ptr_in [of x "rb_sentinel h"] ptr.simps(1) by metis
  show ?case
  proof (cases "x = Lf")
    case True
    then show ?thesis using pos z d_def unfolding t
      by (intro exI [of _ a] exI [of _ c] exI [of _ y] exI [of _ "[]"]) simp
  next
    case False
    have "\<exists>b c' s j. rb_insert_pos lt (ptr (rb_sentinel h) x) h = Some (b, lt b) \<and> x = plug Lf (Fr (lt b) b c' s # j)
      \<and> (\<forall>f \<in> set (Fr (lt b) b c' s # j). fr_side f = lt (fr_addr f))"
      using Br.IH(1) [of "Fr d a c y # k"] Br.IH(2) [of "Fr d a c y # k"] R False xy by (cases d) auto
    then obtain b c' s j where x: "rb_insert_pos lt (ptr (rb_sentinel h) x) h = Some (b, lt b)" "x = plug Lf (Fr (lt b) b c' s # j)"
      "\<forall>f \<in> set (Fr (lt b) b c' s # j). fr_side f = lt (fr_addr f)" by blast
    have "br d x a c y = plug Lf (Fr (lt b) b c' s # j @ [Fr d a c y])" unfolding x(2) by (simp add: plug_append)
    moreover have "rb_insert_pos lt (ptr (rb_sentinel h) (br d x a c y)) h = Some (b, lt b)" using pos z False x(1) by simp
    moreover have "\<forall>f \<in> set (Fr (lt b) b c' s # j @ [Fr d a c y]). fr_side f = lt (fr_addr f)" using x(3) d_def by auto
    ultimately show ?thesis unfolding t by blast
  qed
qed simp

lemma rep_leaf:
  assumes "rep h (plug Lf (Fr d a c s # k))" "x \<notin> set (nodes (plug Lf (Fr d a c s # k)))" "x \<noteq> rb_sentinel h"
  defines "h' \<equiv> put_red x True (put_right x (rb_sentinel h) (put_left x (rb_sentinel h) (put_parent x a (put_child d a x h))))"
  shows "rep h' (plug (Br Lf x True Lf) (Fr d a c s # k))"
proof -
  obtain q where q: "stored h q (plug Lf (Fr d a c s # k))" "rb_sentinel h \<notin> frame_nodes (Fr d a c s # k)" using rep_focus [OF assms(1)] by metis
  have x: "x \<notin> frame_nodes (Fr d a c s # k)" using assms(2) by simp
  have ch: "child e h' b = (if b = x then rb_sentinel h else if e = d \<and> b = a then x else child e h b)" for e b
    using x unfolding h'_def put_child_def child_def by (cases e; cases d; simp)
  have f: "n_parent h' = (n_parent h)(x := a)" "n_red h' = (n_red h)(x := True)" "rb_sentinel h' = rb_sentinel h" "rb_root h' = rb_root h"
    unfolding h'_def by simp_all
  have "stored h' a (Br Lf x True Lf)" using ch [of True x] ch [of False x] assms(3) f by (simp add: child_def)
  then show ?thesis
    using x f assms(1,3) ch by (intro rep_replace [OF assms(1) q(1)]) (auto simp: rep_def)
qed

text \<open>The place of the new node: the comparison is monotone along the nodes.\<close>

lemma sorted_wrt_part:
  "sorted_wrt R (xs @ a # ys @ zs) \<Longrightarrow> sorted_wrt R (xs @ zs)" "sorted_wrt R (xs @ ys @ a # zs) \<Longrightarrow> sorted_wrt R (xs @ zs)"
  by (auto simp: sorted_wrt_append)

lemma sorted_wrt_beside:
  "sorted_wrt R (xs @ a # ys @ zs) \<Longrightarrow> b \<in> set ys \<Longrightarrow> R a b" "sorted_wrt R (xs @ ys @ a # zs) \<Longrightarrow> b \<in> set ys \<Longrightarrow> R b a"
  by (auto simp: sorted_wrt_append)

lemma insert_place:
  assumes "\<forall>f \<in> set k. fr_side f = lt (fr_addr f)" "sorted_wrt (\<lambda>a b. lt a \<longrightarrow> lt b) (before k @ after k)"
  shows "before k = takeWhile (\<lambda>a. \<not> lt a) (before k @ after k)" "after k = dropWhile (\<lambda>a. \<not> lt a) (before k @ after k)"
proof -
  have "(\<forall>a \<in> set (before k). \<not> lt a) \<and> (\<forall>a \<in> set (after k). lt a)"
    using assms
  proof (induction k)
    case (Cons f k)
    obtain d a c s where f: "f = Fr d a c s" by (cases f) auto
    have d: "d = lt a" using Cons.prems(1) f by simp
    have so: "sorted_wrt (\<lambda>a b. lt a \<longrightarrow> lt b) (if d then before k @ a # nodes s @ after k else before k @ (nodes s @ [a]) @ after k)"
      using Cons.prems(2) f by (cases d) auto
    have "sorted_wrt (\<lambda>a b. lt a \<longrightarrow> lt b) (before k @ after k)"
    proof (cases d)
      case True
      show ?thesis by (rule sorted_wrt_part(1)) (use so True in simp)
    next
      case False
      show ?thesis by (rule sorted_wrt_part(2)) (use so False in simp)
    qed
    from Cons.IH [OF _ this] have IH: "(\<forall>a \<in> set (before k). \<not> lt a) \<and> (\<forall>a \<in> set (after k). lt a)" using Cons.prems(1) by simp
    show ?case
    proof (cases d)
      case True
      then have "sorted_wrt (\<lambda>a b. lt a \<longrightarrow> lt b) (before k @ a # nodes s @ after k)" using so by simp
      from sorted_wrt_beside(1) [OF this] have "\<forall>b \<in> set (nodes s). lt b" using True d by blast
      then show ?thesis using IH True d f by auto
    next
      case False
      then have "sorted_wrt (\<lambda>a b. lt a \<longrightarrow> lt b) (before k @ nodes s @ a # after k)" using so by simp
      from sorted_wrt_beside(2) [OF this] have "\<forall>b \<in> set (nodes s). \<not> lt b" using False d by blast
      then show ?thesis using IH False d f by auto
    qed
  qed simp
  then have l: "\<And>a. a \<in> set (before k) \<Longrightarrow> \<not> lt a" "after k \<noteq> [] \<Longrightarrow> lt (hd (after k))" by auto
  have "takeWhile (\<lambda>a. \<not> lt a) (after k) = []" "dropWhile (\<lambda>a. \<not> lt a) (after k) = after k" using l(2) by (cases "after k"; simp)+
  then show "before k = takeWhile (\<lambda>a. \<not> lt a) (before k @ after k)" "after k = dropWhile (\<lambda>a. \<not> lt a) (before k @ after k)"
    using takeWhile_append2 [of "before k" "\<lambda>a. \<not> lt a" "after k"] dropWhile_append2 [of "before k" "\<lambda>a. \<not> lt a" "after k"] l(1) by simp_all
qed

text \<open>The insertion returns, keeps the colours right and the nodes in their order, and puts the new one before the first that is greater.\<close>

lemma rbtree_insert_ok:
  assumes "rep h T" "rb_wf T" "x \<notin> set (nodes T)" "x \<noteq> rb_sentinel h" "sorted_wrt (\<lambda>a b. lt a \<longrightarrow> lt b) (nodes T)"
    and "ins (rb_root h) x h = rb_insert_node lt (rb_root h) x h"
  shows "\<exists>h' T'. ngx_rbtree_insert ins x h = Some h' \<and> rep h' T' \<and> rb_wf T' \<and> n_key h' = n_key h \<and> rb_sentinel h' = rb_sentinel h
    \<and> nodes T' = takeWhile (\<lambda>a. \<not> lt a) (nodes T) @ x # dropWhile (\<lambda>a. \<not> lt a) (nodes T)"
proof (cases "T = Lf")
  case True
  have e: "rb_root h = rb_sentinel h" "\<not> n_red h (rb_sentinel h)" using assms(1) True by (auto simp: rep_def)
  have "rb_wf (Br Lf x False Lf)" unfolding rb_wf_def by (auto intro: exI [of _ 1])
  then show ?thesis using True e assms(4)
    by (intro exI [of _ "(put_red x False (put_right x (rb_sentinel h) (put_left x (rb_sentinel h) (put_parent x 0 h))))\<lparr>rb_root := x\<rparr>"] exI [of _ "Br Lf x False Lf"])
      (simp add: ngx_rbtree_insert_def rep_def Let_def ngx_rbt_black_def)
next
  case False
  have R0: "rep h (plug T [])" using assms(1) by simp
  have root: "rb_root h = ptr (rb_sentinel h) T" using assms(1) by (simp add: rep_def)
  have "rb_root h \<noteq> rb_sentinel h" using root assms(1) ptr_sentinel False by (auto simp: rep_def)
  obtain a c s j where p: "rb_insert_pos lt (rb_root h) h = Some (a, lt a)" "T = plug Lf (Fr (lt a) a c s # j)"
    "\<forall>f \<in> set (Fr (lt a) a c s # j). fr_side f = lt (fr_addr f)" using rb_insert_pos_ok [OF R0 False, of lt] root by auto
  let ?k = "Fr (lt a) a c s # j"
  define h1 where "h1 = put_red x True (put_right x (rb_sentinel h) (put_left x (rb_sentinel h) (put_parent x a (put_child (lt a) a x h))))"
  have h1: "rb_insert_node lt (rb_root h) x h = Some h1" unfolding rb_insert_node_def p h1_def by (simp add: Let_def ngx_rbt_red_def put_child_def)
  have R1: "rep h1 (plug (Br Lf x True Lf) ?k)" unfolding h1_def by (rule rep_leaf) (use assms(1,3,4) p(2) in auto)
  have k1: "n_key h1 = n_key h" "rb_sentinel h1 = rb_sentinel h" by (simp_all add: h1_def)
  have "ctx_ok ?k 0" using assms(2) unfolding p(2) plug_wf by auto
  then obtain h2 T2 m where r: "rb_insert_fix x h1 = Some h2" "rep h2 T2" "nodes T2 = nodes (plug (Br Lf x True Lf) ?k)" "n_key h2 = n_key h1"
    "rb_sentinel h2 = rb_sentinel h1" "rb_ok T2 m" using rb_insert_fix_ok [OF R1, of 0] by auto
  have R2: "rep (put_red (rb_root h2) False h2) (blacken T2)" using rep_blacken [of h2 T2 "[]"] r(2) by (simp add: rep_def)
  have "nodes T = before ?k @ after ?k" unfolding p(2) nodes_plug by simp
  note pl = insert_place [OF p(3), folded this, OF assms(5)]
  have "nodes (blacken T2) = takeWhile (\<lambda>a. \<not> lt a) (nodes T) @ x # dropWhile (\<lambda>a. \<not> lt a) (nodes T)"
    using r(3) unfolding nodes_plug pl [symmetric] by simp
  then show ?thesis using R2 r k1 blacken_wf [OF r(6)] assms(6) h1 \<open>rb_root h \<noteq> rb_sentinel h\<close>
    by (intro exI [of _ "put_red (rb_root h2) False h2"] exI [of _ "blacken T2"]) (simp add: ngx_rbtree_insert_def ngx_rbt_black_def)
qed

end
