(* ===== verification/Ngx_Rbtree_Delete.thy ===== *)
theory Ngx_Rbtree_Delete
  imports Ngx_Rbtree
begin

text \<open>
  The deletion of \<^verbatim>\<open>src/core/ngx_rbtree.c\<close>: the fixup restores the colours, one statement for both sides, and the
  three ways in which a node is taken out of the tree.
\<close>

text \<open>One round of the fixup, for both sides: a black sibling is made, then the colours are moved.\<close>

definition del_sibling :: "bool \<Rightarrow> nat \<Rightarrow> rbtree \<Rightarrow> nat \<times> rbtree" where
  "del_sibling d temp h =
     (let w = child (\<not> d) h (n_parent h temp)
      in if n_red h w then
           let h = put_red w False h;
               h = put_red (n_parent h temp) True h;
               h = rotate_to d (n_parent h temp) h
           in (child (\<not> d) h (n_parent h temp), h)
         else (w, h))"

definition del_nephew :: "bool \<Rightarrow> nat \<Rightarrow> nat \<Rightarrow> rbtree \<Rightarrow> nat \<times> rbtree" where
  "del_nephew d temp w h =
     (if \<not> n_red h (child (\<not> d) h w) then
        let h = put_red (child d h w) False h;
            h = put_red w True h;
            h = rotate_to (\<not> d) w h
        in (child (\<not> d) h (n_parent h temp), h)
      else (w, h))"

definition del_rotate :: "bool \<Rightarrow> nat \<Rightarrow> nat \<Rightarrow> rbtree \<Rightarrow> rbtree" where
  "del_rotate d temp w h =
     (let h = put_red w (n_red h (n_parent h temp)) h;
          h = put_red (n_parent h temp) False h;
          h = put_red (child (\<not> d) h w) False h
      in rotate_to d (n_parent h temp) h)"

definition del_step :: "bool \<Rightarrow> nat \<Rightarrow> rbtree \<Rightarrow> nat \<times> rbtree" where
  "del_step d temp h =
     (let (w, h) = del_sibling d temp h
      in if \<not> n_red h (n_left h w) \<and> \<not> n_red h (n_right h w) then
           let h = put_red w True h in (n_parent h temp, h)
         else
           let (w, h) = del_nephew d temp w h;
               h = del_rotate d temp w h
           in (rb_root h, h))"

lemma del_steps: "rb_delete_left = del_step True" "rb_delete_right = del_step False"
  by (intro ext, simp only: rb_delete_left_def rb_delete_right_def del_step_def del_sibling_def del_nephew_def del_rotate_def child_def
      ngx_rbt_red_def ngx_rbt_black_def ngx_rbt_copy_color_def rotations if_True if_False not_True_eq_False not_False_eq_True Let_def split_beta)+

lemma rb_delete_fix_step:
  "rb_delete_fix temp h =
     (if temp \<noteq> rb_root h \<and> \<not> n_red h temp then case del_step (temp = n_left h (n_parent h temp)) temp h of (temp, h) \<Rightarrow> rb_delete_fix temp h
      else Some (temp, h))"
  by (subst rb_delete_fix.simps) (simp add: del_steps)

text \<open>The pointer to the parent, which for a leaf is in the sentinel.\<close>

definition below :: "rbtree \<Rightarrow> rb \<Rightarrow> nat \<Rightarrow> bool" where
  "below h t p \<longleftrightarrow> n_parent h (ptr (rb_sentinel h) t) = p"

definition kept :: "rbtree \<Rightarrow> rbtree \<Rightarrow> bool" where
  "kept h h' \<longleftrightarrow> n_key h' = n_key h \<and> rb_sentinel h' = rb_sentinel h"

lemma below_kept:
  assumes "rep h' (plug t (Fr d p c s # k))" "below h t p" "rb_sentinel h' = rb_sentinel h" "n_parent h' (rb_sentinel h) = n_parent h (rb_sentinel h)"
  shows "below h' t p"
  using assms rep_read(6) [OF assms(1)] by (cases "t = Lf") (auto simp: below_def)

lemma del_sibling_red:
  assumes "rep h (plug t (Fr d p False (br d A w True B) # k))" "below h t p" "A \<noteq> Lf"
  shows "\<exists>h'. del_sibling d (ptr (rb_sentinel h) t) h = (ptr (rb_sentinel h) A, h') \<and> rep h' (plug t (Fr d p True A # Fr d w False B # k))
    \<and> below h' t p \<and> kept h h'"
proof -
  let ?h = "rotate_to d p (put_red p True (put_red w False h))" and ?z = "rb_sentinel h"
  have "rep h (plug (br d A w True B) (Fr (\<not> d) p False t # k))" using assms(1) by simp
  from rep_paint [OF this] have "rep (put_red w False h) (plug (br d t p False (br d A w False B)) k)" by simp
  from rep_paint [OF this] have R: "rep (put_red p True (put_red w False h)) (plug (br d t p True (br d A w False B)) k)" by simp
  from rep_rotate(1) [OF this] have R': "rep ?h (plug t (Fr d p True A # Fr d w False B # k))" by simp
  have b: "below ?h t p" by (rule below_kept [OF R' assms(2)]) (use rep_rotate(2) [OF R] in auto)
  have "child (\<not> d) h p = w" "n_red h w" using rep_read(2,5) [OF assms(1)] by auto
  moreover have "n_parent h (ptr ?z t) = p" "n_parent ?h (ptr ?z t) = p" using assms(2) b by (auto simp: below_def)
  moreover have "child (\<not> d) ?h p = ptr ?z A" using rep_read(2) [OF R'] by simp
  ultimately show ?thesis using R' b unfolding del_sibling_def Let_def by (simp add: kept_def)
qed

lemma del_sibling_black:
  assumes "rep h (plug t (Fr d p c s # k))" "below h t p" "\<not> red s"
  shows "del_sibling d (ptr (rb_sentinel h) t) h = (ptr (rb_sentinel h) s, h)"
  using rep_read(2,5) [OF assms(1)] assms(2,3) by (simp add: del_sibling_def below_def)

lemma del_rotate_ok:
  assumes "rep h (plug t (Fr d p c (br d A w False B) # k))" "below h t p"
  shows "rep (del_rotate d (ptr (rb_sentinel h) t) w h) (plug (br d (br d t p False A) w c (blacken B)) k)"
    "kept h (del_rotate d (ptr (rb_sentinel h) t) w h)"
proof -
  let ?z = "rb_sentinel h"
  have R0: "rep h (plug (br d A w False B) (Fr (\<not> d) p c t # k))" using assms(1) by simp
  have R00: "rep h (plug B (Fr (\<not> d) w False A # Fr (\<not> d) p c t # k))" using assms(1) by simp
  have f: "n_parent h (ptr ?z t) = p" "n_red h p = c" "child (\<not> d) h w = ptr ?z B"
    using assms(2) rep_read(3) [OF assms(1)] rep_read(1) [OF R00] by (auto simp: below_def)
  from rep_paint [OF R0] have "rep (put_red w c h) (plug (br d t p c (br d A w c B)) k)" by simp
  from rep_paint [OF this] have "rep (put_red p False (put_red w c h)) (plug B (Fr (\<not> d) w c A # Fr (\<not> d) p False t # k))" by simp
  from rep_blacken [OF this] have "rep (put_red (ptr ?z B) False (put_red p False (put_red w c h))) (plug (br d t p False (br d A w c (blacken B))) k)" by simp
  from rep_rotate(1) [OF this] show "rep (del_rotate d (ptr ?z t) w h) (plug (br d (br d t p False A) w c (blacken B)) k)"
    using f by (simp add: del_rotate_def Let_def)
  show "kept h (del_rotate d (ptr ?z t) w h)" by (simp add: kept_def del_rotate_def Let_def)
qed

lemma kept_trans: "kept h h1 \<Longrightarrow> kept h1 h2 \<Longrightarrow> kept h h2"
  by (simp add: kept_def)

lemma del_nephew_red: "rep h (plug t (Fr d p c (br d A w False B) # k)) \<Longrightarrow> red B \<Longrightarrow> del_nephew d x w h = (w, h)"
  using rep_read(1,4) [of h B "\<not> d" w False A "Fr (\<not> d) p c t # k"] by (simp add: del_nephew_def)

lemma del_nephew_black:
  assumes "rep h (plug t (Fr d p c (br d (br d A1 a True A2) w False B) # k))" "below h t p" "\<not> red B"
  shows "\<exists>h'. del_nephew d (ptr (rb_sentinel h) t) w h = (a, h') \<and> rep h' (plug t (Fr d p c (br d A1 a False (br d A2 w True B)) # k))
    \<and> below h' t p \<and> kept h h'"
proof -
  let ?h = "rotate_to (\<not> d) w (put_red w True (put_red a False h))" and ?z = "rb_sentinel h"
  have RB: "rep h (plug B (Fr (\<not> d) w False (br d A1 a True A2) # Fr (\<not> d) p c t # k))" using assms(1) by simp
  have "rep h (plug (br d A1 a True A2) (Fr d w False B # Fr (\<not> d) p c t # k))" using assms(1) by simp
  from rep_paint [OF this] have "rep (put_red a False h) (plug (br d (br d A1 a False A2) w False B) (Fr (\<not> d) p c t # k))" by simp
  from rep_paint [OF this] have R: "rep (put_red w True (put_red a False h)) (plug (br (\<not> d) B w True (br (\<not> d) A2 a False A1)) (Fr (\<not> d) p c t # k))" by simp
  from rep_rotate(1) [OF this] have R': "rep ?h (plug t (Fr d p c (br d A1 a False (br d A2 w True B)) # k))" by simp
  have b: "below ?h t p" by (rule below_kept [OF R' assms(2)]) (use rep_rotate(2) [OF R] in auto)
  have "\<not> n_red h (child (\<not> d) h w)" "child d h w = a" using rep_read(1,2,4) [OF RB] assms(3) by auto
  moreover have "child (\<not> d) ?h (n_parent ?h (ptr ?z t)) = a" using rep_read(2) [OF R'] b by (simp add: below_def)
  ultimately show ?thesis using R' b unfolding del_nephew_def Let_def by (simp add: kept_def)
qed

lemma del_finish:
  assumes R: "rep h (plug t (Fr d p c (br d A w False B) # k))" and b: "below h t p" and "red A \<or> red B"
    and "ctx_ok (Fr d p c (br d A w False B) # k) (Suc n)" "rb_ok t n" "\<not> red t"
  shows "\<exists>w' h1 T. del_nephew d (ptr (rb_sentinel h) t) w h = (w', h1) \<and> rep (del_rotate d (ptr (rb_sentinel h) t) w' h1) T
    \<and> kept h (del_rotate d (ptr (rb_sentinel h) t) w' h1) \<and> rb_wf T \<and> nodes T = nodes (plug t (Fr d p c (br d A w False B) # k))"
proof (cases "red B")
  case True
  have "rb_ok (blacken B) (Suc n)" using blacken_ok [of B n] True assms(4) by simp
  then have "rb_wf (plug (br d (br d t p False A) w c (blacken B)) k)"
    unfolding plug_wf using assms(4-6) by (cases c) (auto intro: exI [of _ "Suc n"] exI [of _ "Suc (Suc n)"])
  moreover have "nodes (plug (br d (br d t p False A) w c (blacken B)) k) = nodes (plug t (Fr d p c (br d A w False B) # k))"
    unfolding plug.simps by (rule nodes_plug_cong) (simp add: br_def)
  ultimately show ?thesis using del_nephew_red [OF R True] del_rotate_ok [OF R b] by auto
next
  case False
  then have "A \<noteq> Lf" "red A" using assms(3) by auto
  then obtain A1 a A2 where A: "A = br d A1 a True A2" using as_br [of A d] by auto
  obtain h1 where h1: "del_nephew d (ptr (rb_sentinel h) t) w h = (a, h1)" "rep h1 (plug t (Fr d p c (br d A1 a False (br d A2 w True B)) # k))"
    "below h1 t p" "kept h h1" using del_nephew_black [OF R [unfolded A] b False] by blast
  have "rb_wf (plug (br d (br d t p False A1) a c (br d A2 w False B)) k)"
    unfolding plug_wf using assms(4-6) A by (cases c) (auto intro: exI [of _ "Suc n"] exI [of _ "Suc (Suc n)"])
  moreover have "nodes (plug (br d (br d t p False A1) a c (br d A2 w False B)) k) = nodes (plug t (Fr d p c (br d A w False B) # k))"
    unfolding plug.simps by (rule nodes_plug_cong) (simp add: br_def A)
  moreover have "rb_sentinel h1 = rb_sentinel h" using h1(4) by (simp add: kept_def)
  ultimately show ?thesis using h1(1) del_rotate_ok [OF h1(2,3)] kept_trans [OF h1(4)] by auto
qed

text \<open>A round with a black sibling: the loop ends with it, or goes on with the parent.\<close>

definition del_rest :: "bool \<Rightarrow> nat \<Rightarrow> nat \<Rightarrow> rbtree \<Rightarrow> nat \<times> rbtree" where
  "del_rest d temp w h =
     (if \<not> n_red h (n_left h w) \<and> \<not> n_red h (n_right h w) then
        let h = put_red w True h in (n_parent h temp, h)
      else
        let (w, h) = del_nephew d temp w h;
            h = del_rotate d temp w h
        in (rb_root h, h))"

lemma del_step_rest: "del_step d temp h = (case del_sibling d temp h of (w, h) \<Rightarrow> del_rest d temp w h)"
  by (simp add: del_step_def del_rest_def)

text \<open>A tree that has one black node too few, unless its root is red.\<close>

definition short :: "rb \<Rightarrow> nat \<Rightarrow> bool" where
  "short t n \<longleftrightarrow> (if red t then rb_ok (blacken t) (Suc n) else rb_ok t n)"

lemma del_rest_ok:
  assumes R: "rep h (plug t (Fr d p c (br d A w False B) # k))" and b: "below h t p"
    and c: "ctx_ok (Fr d p c (br d A w False B) # k) (Suc n)" "rb_ok t n" "\<not> red t"
  shows "(\<exists>h' m. del_rest d (ptr (rb_sentinel h) t) w h = (p, h') \<and> rep h' (plug (br d t p c (br d A w True B)) k) \<and> kept h h'
      \<and> short (br d t p c (br d A w True B)) m \<and> ctx_ok k (Suc m))
    \<or> (\<exists>h' T. del_rest d (ptr (rb_sentinel h) t) w h = (rb_root h', h') \<and> rep h' T \<and> kept h h' \<and> rb_wf T
      \<and> nodes T = nodes (plug t (Fr d p c (br d A w False B) # k)))"
proof -
  let ?z = "rb_sentinel h"
  have RB: "rep h (plug B (Fr (\<not> d) w False A # Fr (\<not> d) p c t # k))" using R by simp
  have "(n_red h (n_left h w) \<or> n_red h (n_right h w)) = (n_red h (child d h w) \<or> n_red h (child (\<not> d) h w))" by (cases d) (auto simp: child_def)
  then have col: "(\<not> n_red h (n_left h w) \<and> \<not> n_red h (n_right h w)) \<longleftrightarrow> \<not> red A \<and> \<not> red B"
    using rep_read(1,2,4,5) [OF RB] by auto
  show ?thesis
  proof (cases "red A \<or> red B")
    case True
    obtain w' h1 T where n: "del_nephew d (ptr ?z t) w h = (w', h1)" "rep (del_rotate d (ptr ?z t) w' h1) T" "kept h (del_rotate d (ptr ?z t) w' h1)"
      "rb_wf T" "nodes T = nodes (plug t (Fr d p c (br d A w False B) # k))" using del_finish [OF R b True c] by blast
    have "del_rest d (ptr ?z t) w h = (rb_root (del_rotate d (ptr ?z t) w' h1), del_rotate d (ptr ?z t) w' h1)"
      using col True n(1) by (auto simp: del_rest_def Let_def)
    then show ?thesis using n(2-5) by blast
  next
    case False
    have "rep h (plug (br d A w False B) (Fr (\<not> d) p c t # k))" using R by simp
    from rep_paint [OF this, of True] have "rep (put_red w True h) (plug (br d t p c (br d A w True B)) k)" by simp
    moreover have "short (br d t p c (br d A w True B)) (if c then n else Suc n)" "ctx_ok k (Suc (if c then n else Suc n))"
      using c False by (auto simp: short_def)
    ultimately show ?thesis using False col b by (auto simp: del_rest_def kept_def below_def)
  qed
qed

text \<open>The loop of the fixup and the assignment after it.\<close>

definition del_done :: "rbtree \<Rightarrow> rb \<Rightarrow> (nat \<times> rbtree) option \<Rightarrow> bool" where
  "del_done h T res \<longleftrightarrow> (\<exists>x h' T'. res = Some (x, h') \<and> rep (put_red x False h') T' \<and> rb_wf T' \<and> nodes T' = nodes T \<and> kept h h')"

lemma del_stop:
  assumes "rep h (plug t k)" "short t n" "ctx_ok k (Suc n)" "k = [] \<or> red t"
  shows "del_done h (plug t k) (rb_delete_fix (ptr (rb_sentinel h) t) h)"
proof -
  have "rb_delete_fix (ptr (rb_sentinel h) t) h = Some (ptr (rb_sentinel h) t, h)"
  proof (cases "k = []")
    case True
    then show ?thesis using assms(1) by (subst rb_delete_fix_step) (simp add: rep_def)
  next
    case False
    obtain d a c s k' where k: "k = Fr d a c s # k'" using context_cases [OF False] by blast
    have "n_red h (ptr (rb_sentinel h) t)" using rep_read(4) [of h t d a c s k'] assms(1,4) k by simp
    then show ?thesis by (subst rb_delete_fix_step) simp
  qed
  moreover have "rb_wf (plug (blacken t) k)"
    unfolding plug_wf using assms(2-4) blacken_ok [of t n] by (cases "red t") (auto simp: short_def)
  moreover have "nodes (plug (blacken t) k) = nodes (plug t k)" by (rule nodes_plug_cong) simp
  ultimately show ?thesis using rep_blacken [OF assms(1)] unfolding del_done_def kept_def by blast
qed

lemma del_root:
  assumes "rep h T" "rb_wf T"
  shows "rb_delete_fix (rb_root h) h = Some (rb_root h, h)" "rep (put_red (rb_root h) False h) T"
proof -
  show "rb_delete_fix (rb_root h) h = Some (rb_root h, h)" by (subst rb_delete_fix_step) simp
  have "blacken T = T" using assms(2) by (cases T) (auto simp: rb_wf_def)
  then show "rep (put_red (rb_root h) False h) T" using rep_blacken [of h T "[]"] assms(1) by (simp add: rep_def)
qed

lemma del_done_kept: "kept h h1 \<Longrightarrow> nodes T1 = nodes T \<Longrightarrow> del_done h1 T1 res \<Longrightarrow> del_done h T res"
  unfolding del_done_def by (metis kept_trans)

lemma del_black_sibling:
  assumes R: "rep h (plug t (Fr d p c (br d A w False B) # k))" and b: "below h t p"
    and c: "ctx_ok (Fr d p c (br d A w False B) # k) (Suc n)" "rb_ok t n" "\<not> red t"
    and IH: "\<And>h t n. \<lbrakk>rep h (plug t k); short t n; ctx_ok k (Suc n); k \<noteq> [] \<Longrightarrow> below h t (fr_addr (hd k)); red t \<or> \<not> c\<rbrakk>
      \<Longrightarrow> del_done h (plug t k) (rb_delete_fix (ptr (rb_sentinel h) t) h)"
  shows "del_done h (plug t (Fr d p c (br d A w False B) # k)) (case del_rest d (ptr (rb_sentinel h) t) w h of (x, h) \<Rightarrow> rb_delete_fix x h)"
  using del_rest_ok [OF R b c]
proof (elim disjE exE conjE)
  fix h' m
  assume r: "del_rest d (ptr (rb_sentinel h) t) w h = (p, h')" "rep h' (plug (br d t p c (br d A w True B)) k)" "kept h h'"
    "short (br d t p c (br d A w True B)) m" "ctx_ok k (Suc m)"
  have "below h' (br d t p c (br d A w True B)) (fr_addr (hd k))" if ne: "k \<noteq> []"
  proof -
    obtain e a c1 s k' where k: "k = Fr e a c1 s # k'" using context_cases [OF ne] by blast
    show ?thesis using rep_read(6) [of h' "br d t p c (br d A w True B)" e a] r(2) k unfolding below_def by simp
  qed
  then have "del_done h' (plug (br d t p c (br d A w True B)) k) (rb_delete_fix p h')" using IH [OF r(2,4,5)] by auto
  moreover have "nodes (plug (br d t p c (br d A w True B)) k) = nodes (plug t (Fr d p c (br d A w False B) # k))"
    unfolding plug.simps by (rule nodes_plug_cong) (simp add: br_def)
  ultimately show ?thesis using del_done_kept [OF r(3)] r(1) by simp
next
  fix h' T
  assume r: "del_rest d (ptr (rb_sentinel h) t) w h = (rb_root h', h')" "rep h' T" "kept h h'" "rb_wf T"
    "nodes T = nodes (plug t (Fr d p c (br d A w False B) # k))"
  then show ?thesis using del_root [OF r(2,4)] unfolding del_done_def by auto
qed

lemma root_not_sentinel: "rep h (plug t k) \<Longrightarrow> k \<noteq> [] \<Longrightarrow> rb_root h \<noteq> rb_sentinel h"
  using ptr_plug [of k "rb_sentinel h" t] last_frame [of k] rep_focus [of h t k] unfolding rep_def by metis

lemma rb_delete_fix_ok:
  assumes "rep h (plug t k)" "short t n" "ctx_ok k (Suc n)" "k \<noteq> [] \<Longrightarrow> below h t (fr_addr (hd k))"
  shows "del_done h (plug t k) (rb_delete_fix (ptr (rb_sentinel h) t) h)"
  using assms
proof (induction k arbitrary: h t n)
  case Nil
  then show ?case using del_stop [of h t "[]"] by simp
next
  case (Cons f k)
  show ?case
  proof (cases "red t")
    case True
    then show ?thesis using del_stop [OF Cons.prems(1-3)] by blast
  next
    case False
    obtain d p c s where f: "f = Fr d p c s" by (cases f) auto
    have R: "rep h (plug t (Fr d p c s # k))" and b: "below h t p" using Cons.prems(1,4) f by auto
    have t: "rb_ok t n" using Cons.prems(2) False by (simp add: short_def)
    have s: "s \<noteq> Lf" "rb_ok s (Suc n)" using Cons.prems(3) f by auto
    have "ptr (rb_sentinel h) t \<noteq> rb_root h" using rep_read(10) [OF R] root_not_sentinel [OF R] by (cases "t = Lf") auto
    moreover have "\<not> n_red h (ptr (rb_sentinel h) t)" using rep_read(4) [OF R] False by simp
    moreover have "ptr (rb_sentinel h) t = n_left h (n_parent h (ptr (rb_sentinel h) t)) \<longleftrightarrow> d"
      using rep_read(12) [OF R, of True] s(1) b by (auto simp: below_def child_def)
    ultimately have loop: "rb_delete_fix (ptr (rb_sentinel h) t) h = (case del_step d (ptr (rb_sentinel h) t) h of (x, h) \<Rightarrow> rb_delete_fix x h)"
      by (subst rb_delete_fix_step) simp
    obtain A w B where s': "s = br d A w (red s) B" using as_br [OF s(1)] by blast
    show ?thesis
    proof (cases "red s")
      case F: False
      then have s': "s = br d A w False B" using s' by simp
      have "del_done h (plug t (Fr d p c (br d A w False B) # k)) (case del_rest d (ptr (rb_sentinel h) t) w h of (x, h) \<Rightarrow> rb_delete_fix x h)"
        by (rule del_black_sibling [OF _ b _ t False]) (use R Cons.prems(3) Cons.IH f s' in auto)
      then show ?thesis using del_sibling_black [OF R b F] s' f by (simp add: loop del_step_rest)
    next
      case T: True
      then have s': "s = br d A w True B" using s' by simp
      have c: "c = False" using Cons.prems(3) T f by auto
      have A: "A \<noteq> Lf" "rb_ok A (Suc n)" "\<not> red A" "rb_ok B (Suc n)" using s(2) s' by auto
      obtain A1 a A2 where A': "A = br d A1 a False A2" using as_br [OF A(1), of d] A(3) by auto
      obtain h1 where h1: "del_sibling d (ptr (rb_sentinel h) t) h = (a, h1)" "rep h1 (plug t (Fr d p True A # Fr d w False B # k))"
        "below h1 t p" "kept h h1" using del_sibling_red [OF R [unfolded s' c] b A(1)] A' by auto
      have "del_done h1 (plug t (Fr d p True (br d A1 a False A2) # Fr d w False B # k))
          (case del_rest d (ptr (rb_sentinel h1) t) a h1 of (x, h) \<Rightarrow> rb_delete_fix x h)"
      proof (rule del_black_sibling [OF _ h1(3) _ t False])
        show "rep h1 (plug t (Fr d p True (br d A1 a False A2) # Fr d w False B # k))" using h1(2) A' by simp
        show "ctx_ok (Fr d p True (br d A1 a False A2) # Fr d w False B # k) (Suc n)" using A A' Cons.prems(3) f c by simp
        show "del_done g (plug u (Fr d w False B # k)) (rb_delete_fix (ptr (rb_sentinel g) u) g)"
          if "rep g (plug u (Fr d w False B # k))" "short u m" "ctx_ok (Fr d w False B # k) (Suc m)" "red u \<or> \<not> True" for g u m
          using del_stop [OF that(1-3)] that(4) by blast
      qed
      moreover have "nodes (plug t (Fr d p True (br d A1 a False A2) # Fr d w False B # k)) = nodes (plug t (f # k))"
        unfolding f s' plug.simps by (rule nodes_plug_cong) (simp add: br_def A')
      moreover have "rb_sentinel h1 = rb_sentinel h" using h1(4) by (simp add: kept_def)
      ultimately show ?thesis using del_done_kept [OF h1(4)] h1(1) by (simp add: loop del_step_rest)
    qed
  qed
qed

subsection \<open>Taking a node out\<close>

lemma rep_same:
  assumes "rep h T" "rb_sentinel h' = rb_sentinel h" "rb_root h' = rb_root h" "\<not> n_red h' (rb_sentinel h)"
    and "\<And>a. a \<in> set (nodes T) \<Longrightarrow> n_parent h' a = n_parent h a \<and> n_red h' a = n_red h a \<and> n_left h' a = n_left h a \<and> n_right h' a = n_right h a"
  shows "rep h' T"
  using assms stored_frame [of h _ T h'] by (auto simp: rep_def)

lemma forget_fields [simp]:
  "n_key (rb_forget a h) = (n_key h)(a := 0)" "rb_sentinel (rb_forget a h) = rb_sentinel h" "rb_root (rb_forget a h) = rb_root h" "n_red (rb_forget a h) = n_red h"
  "n_parent (rb_forget a h) = (n_parent h)(a := 0)" "n_left (rb_forget a h) = (n_left h)(a := 0)" "n_right (rb_forget a h) = (n_right h)(a := 0)"
  by (simp_all add: rb_forget_def)

lemma rep_forget: "rep h T \<Longrightarrow> a \<notin> set (nodes T) \<Longrightarrow> rep (rb_forget a h) T"
  by (rule rep_same [of h]) (auto simp: rep_def)

text \<open>A node with one child at most is unlinked.\<close>

lemma rep_unlink:
  assumes "rep h (plug (br d Lf a c y) k)" "k \<noteq> []"
  defines "h' \<equiv> put_parent (ptr (rb_sentinel h) y) (n_parent h a) (rb_unlink a (ptr (rb_sentinel h) y) h)"
  shows "rep h' (plug y k)" "below h' y (fr_addr (hd k))" "kept h h'"
proof -
  let ?z = "rb_sentinel h" and ?t = "br d Lf a c y"
  obtain q where q: "stored h (up q k) ?t" "stored h q (plug ?t k)" "distinct (nodes ?t)" "set (nodes ?t) \<inter> frame_nodes k = {}"
    "rb_sentinel h \<notin> set (nodes ?t)" "rb_sentinel h \<notin> frame_nodes k" "a = rb_root h \<longleftrightarrow> k = []"
    using rep_focus [OF assms(1)] by (metis br_props(1,2))
  obtain e p c1 s k' where k: "k = Fr e p c1 s # k'" using context_cases [OF assms(2)] by blast
  have R: "rep h (plug ?t (Fr e p c1 s # k'))" using assms(1) k by simp
  have pa: "n_parent h a = p" "a = n_left h p \<longleftrightarrow> e" using rep_read(6) [OF R] rep_read(12) [OF R, of True] by (auto simp: child_def)
  have h': "h' = put_parent (ptr ?z y) p (put_child e p (ptr ?z y) h)" unfolding h'_def rb_unlink_def put_child_def pa by simp
  show "below h' y (fr_addr (hd k))" "kept h h'" unfolding h' k below_def kept_def by simp_all
  have y: "y \<noteq> Lf \<Longrightarrow> ptr ?z y \<in> set (nodes y)" "y = Lf \<Longrightarrow> ptr ?z y = ?z" using ptr_in by auto
  have p: "p \<in> frame_nodes k" "up q k = p" using k by auto
  show "rep h' (plug y k)"
  proof (rule rep_replace [OF assms(1) q(2)])
    show "stored h' (up q k) y"
    proof (rule stored_move)
      show "stored h a y" using q(1) by simp
      show "n_red h' b = n_red h b \<and> n_left h' b = n_left h b \<and> n_right h' b = n_right h b" if "b \<in> set (nodes y)" for b
      proof -
        have "b \<noteq> p" using that p(1) q(4) by auto
        then show ?thesis unfolding h' put_child_def by simp
      qed
    qed (use q(3) p h' in auto)
    show "n_parent h' b = n_parent h b \<and> n_red h' b = n_red h b" if "b \<in> frame_nodes k" for b
    proof -
      have "b \<noteq> ptr ?z y" using that y q(4,6) by (cases "y = Lf") auto
      then show ?thesis unfolding h' by simp
    qed
  qed (use q assms(1) k h' in \<open>auto simp: rep_def\<close>)
qed

text \<open>A node takes the place of another.\<close>

lemma rb_take_place_steps:
  "rb_take_place a m h =
     (let h = put_left m (n_left h a) h;
          h = put_right m (n_right h a) h;
          h = put_parent m (n_parent h a) h;
          h = put_red m (n_red h a) h;
          h = swap_child True a m h;
          h = adopt m (n_left h m) h
      in adopt m (n_right h m) h)"
  by (simp only: rb_take_place_def swap_child_def adopt_def ngx_rbt_copy_color_def child_def put_child_def if_True if_False not_True_eq_False)

lemma rep_exchange:
  assumes "rep h (plug (Br l a c r) k)" "m \<notin> set (nodes (plug (Br l a c r) k))" "m \<noteq> rb_sentinel h"
    and g: "g = h \<or> g = put_parent (ptr (rb_sentinel h) r) m h"
  defines "h' \<equiv> rb_take_place a m g"
  shows "rep h' (plug (Br l m c r) k)" "n_parent h' (rb_sentinel h) = n_parent g (rb_sentinel h)" "kept g h'"
proof -
  let ?z = "rb_sentinel h" and ?t = "Br l a c r"
  obtain q where q: "stored h (up q k) ?t" "stored h q (plug ?t k)" "distinct (nodes ?t)" "set (nodes ?t) \<inter> frame_nodes k = {}"
    "?z \<notin> set (nodes ?t)" "?z \<notin> frame_nodes k" "a = rb_root h \<longleftrightarrow> k = []"
    using rep_focus [OF assms(1)] by (metis ptr.simps(2) rb.distinct(1))
  have m: "m \<notin> set (nodes l)" "m \<noteq> a" "m \<notin> set (nodes r)" "m \<notin> frame_nodes k" using assms(2) by auto
  have lr: "l \<noteq> Lf \<Longrightarrow> ptr ?z l \<in> set (nodes l)" "r \<noteq> Lf \<Longrightarrow> ptr ?z r \<in> set (nodes r)" "l = Lf \<Longrightarrow> ptr ?z l = ?z" "r = Lf \<Longrightarrow> ptr ?z r = ?z"
    using ptr_in by auto
  have ne: "ptr ?z l = ?z \<longleftrightarrow> l = Lf" "ptr ?z r = ?z \<longleftrightarrow> r = Lf" "ptr ?z r \<noteq> a" "ptr ?z l \<noteq> a"
    using lr q(3,5) by (cases "l = Lf"; cases "r = Lf"; auto)+
  have gf: "n_left g = n_left h" "n_right g = n_right h" "n_red g = n_red h" "rb_root g = rb_root h" "rb_sentinel g = ?z" "n_parent g a = n_parent h a"
    "n_parent g b = n_parent h b \<or> b = ptr ?z r" for b
    using g ne by auto
  have u: "a = child True h (up q k) \<longleftrightarrow> True = fr_side (hd k)" "up q k \<in> frame_nodes k" if "k \<noteq> []"
  proof -
    show "up q k \<in> frame_nodes k" using context_cases [OF that] by auto
    show "a = child True h (up q k) \<longleftrightarrow> True = fr_side (hd k)"
      using frame_points_once [OF q(2) that, of True] assms(1) by (auto simp: rep_def)
  qed
  define H where "H = put_red m c (put_parent m (up q k) (put_right m (ptr ?z r) (put_left m (ptr ?z l) g)))"
  have at: "n_left h a = ptr ?z l" "n_right h a = ptr ?z r" "n_parent h a = up q k" "n_red h a = c" using q(1) by auto
  have H: "n_parent H = (n_parent g)(m := up q k)" "n_parent H a = up q k" "child e H = (child e h)(m := child e h a)" "n_red H = (n_red h)(m := c)" "rb_root H = rb_root h" "rb_sentinel H = ?z"
    "n_key H = n_key g" for e
    using gf m(2) at by (auto simp: H_def child_def)
  have sw: "child e (swap_child True a m H) = (if a \<noteq> rb_root H \<and> e = fr_side (hd k) then (child e H)(n_parent H a := m) else child e H)" for e
    by (rule swap_child_child) (use H u q(7) m in auto)
  have lrm: "n_left (swap_child True a m H) m = ptr ?z l" "n_right (swap_child True a m H) m = ptr ?z r"
    using sw [of True] sw [of False] H(2,3,5) u(2) q(7) m(4) at by (auto simp: child_def)
  have h': "h' = adopt m (ptr ?z r) (adopt m (ptr ?z l) (swap_child True a m H))"
  proof -
    have "h' = (let h = swap_child True a m H; h = adopt m (n_left h m) h in adopt m (n_right h m) h)"
      unfolding h'_def rb_take_place_steps H_def using gf m(2) at by (simp add: Let_def)
    then show ?thesis using lrm by (simp add: Let_def)
  qed
  have par: "n_parent h' = (n_parent g)(m := up q k, ptr ?z l := (if l = Lf then n_parent g ?z else m), ptr ?z r := (if r = Lf then n_parent g ?z else m))"
    unfolding h' adopt_fields swap_child_fields H ne(1,2) using assms(3) lr(3,4) ne(1) by (cases "l = Lf"; cases "r = Lf") (auto simp: fun_eq_iff)
  have ch: "child e h' b = (if k \<noteq> [] \<and> b = up q k \<and> e = fr_side (hd k) then m else if b = m then child e h a else child e h b)" for e b
    unfolding h' adopt_fields sw H(2,3,5) q(7) using u(2) m(4) by auto
  have o: "n_red h' = (n_red h)(m := c)" "rb_sentinel h' = ?z" "rb_root h' = (if k = [] then m else rb_root h)" "n_key h' = n_key g"
    unfolding h' adopt_fields swap_child_fields H q(7) by auto
  show "kept g h'" unfolding kept_def using o(2,4) gf(5) by simp
  show "n_parent h' ?z = n_parent g ?z" unfolding par using assms(3) ne by auto
  have away: "b \<noteq> m \<and> b \<noteq> up q k" if "b \<in> set (nodes l) \<union> set (nodes r)" "k \<noteq> []" for b
    using that m q(4) u(2) by auto
  have sides: "n_red h' b = n_red h b \<and> n_left h' b = n_left h b \<and> n_right h' b = n_right h b" if "b \<in> set (nodes l) \<union> set (nodes r)" for b
    using ch [of True b] ch [of False b] away [OF that] that m by (cases "k = []") (auto simp: child_def o)
  have pars: "n_parent h' b = n_parent h b" if "b \<in> set (nodes l) \<union> set (nodes r) \<union> frame_nodes k" "b \<noteq> ptr ?z l" "b \<noteq> ptr ?z r" for b
    using that m gf(7) [of b] unfolding par by auto
  have dis: "ptr ?z r \<notin> set (nodes l)" "ptr ?z l \<notin> set (nodes r)" "ptr ?z r \<notin> frame_nodes k" "ptr ?z l \<notin> frame_nodes k"
    using lr q(3-6) by (cases "l = Lf"; cases "r = Lf"; auto)+
  have l: "stored h' m l"
    by (rule stored_move [of h a]) (use q(1,3) sides pars dis o lr in \<open>auto simp: par\<close>)
  have r: "stored h' m r"
    by (rule stored_move [of h a]) (use q(1,3) sides pars dis o lr in \<open>auto simp: par\<close>)
  show "rep h' (plug (Br l m c r) k)"
  proof (rule rep_replace [OF assms(1) q(2)])
    have "n_parent h' m = up q k" using m lr assms(3) unfolding par by (cases "l = Lf"; cases "r = Lf") auto
    moreover have "n_left h' m = ptr ?z l" "n_right h' m = ptr ?z r"
      using ch [of True m] ch [of False m] u(2) m(4) at by (auto simp: child_def)
    ultimately show "stored h' (up q k) (Br l m c r)" using l r o assms(3) by simp
    show "n_parent h' b = n_parent h b \<and> n_red h' b = n_red h b" if "b \<in> frame_nodes k" for b
      using that pars [of b] dis o m(4) by auto
    show "child e h' b = child e h b" if "b \<in> frame_nodes k" "b \<noteq> up q k \<or> k = [] \<or> e \<noteq> fr_side (hd k)" for b e
      using that ch [of e b] m(4) by auto
    show "child (fr_side (hd k)) h' (up q k) = ptr ?z (Br l m c r)" if "k \<noteq> []" using that ch by simp
  qed (use q m o assms(1,3) in \<open>auto simp: rep_def\<close>)
qed

lemma focus_exists: "a \<in> set (nodes T) \<Longrightarrow> \<exists>l c r k. T = plug (Br l a c r) k"
proof (induction T)
  case (Br l b c r)
  consider "a = b" | "a \<in> set (nodes l)" | "a \<in> set (nodes r)" using Br.prems by auto
  then show ?case
  proof cases
    case 1
    then show ?thesis by (metis plug.simps(1))
  next
    case 2
    then obtain l' c' r' k where "l = plug (Br l' a c' r') k" using Br.IH(1) by blast
    then have "Br l b c r = plug (Br l' a c' r') (k @ [Fr True b c r])" by (simp add: plug_append br_def)
    then show ?thesis by blast
  next
    case 3
    then obtain l' c' r' k where "r = plug (Br l' a c' r') k" using Br.IH(2) by blast
    then have "Br l b c r = plug (Br l' a c' r') (k @ [Fr False b c l])" by (simp add: plug_append br_def)
    then show ?thesis by blast
  qed
qed simp

lemma rbtree_min_ok:
  assumes "rep h (plug t k)" "t \<noteq> Lf"
  shows "\<exists>m c r j. ngx_rbtree_min (ptr (rb_sentinel h) t) h = Some m \<and> t = plug (Br Lf m c r) j \<and> (\<forall>f \<in> set j. fr_side f)"
  using assms
proof (induction t arbitrary: k)
  case (Br l a c r)
  have R: "rep h (plug l (Fr True a c r # k))" using Br.prems(1) by (simp add: br_def)
  have l: "n_left h a = ptr (rb_sentinel h) l" "ptr (rb_sentinel h) l = rb_sentinel h \<longleftrightarrow> l = Lf"
    using rep_read(1) [OF R] rep_focus [OF R] ptr_in [of l "rb_sentinel h"] ptr.simps(1) by (simp add: child_def, metis)
  show ?case
  proof (cases "l = Lf")
    case True
    then show ?thesis using l by (subst ngx_rbtree_min.simps) (force intro: exI [of _ "[]"])
  next
    case False
    obtain m c' r' j where m: "ngx_rbtree_min (ptr (rb_sentinel h) l) h = Some m" "l = plug (Br Lf m c' r') j" "\<forall>f \<in> set j. fr_side f"
      using Br.IH(1) [OF R False] by blast
    have "Br l a c r = plug (Br Lf m c' r') (j @ [Fr True a c r])" using m(2) by (simp add: plug_append br_def)
    moreover have "ngx_rbtree_min a h = Some m" using l False m(1) by (subst ngx_rbtree_min.simps) simp
    moreover have "\<forall>f \<in> set (j @ [Fr True a c r]). fr_side f" using m(3) by simp
    ultimately show ?thesis by (metis ptr.simps(2))
  qed
qed simp

lemma before_left: "\<forall>f \<in> set j. fr_side f \<Longrightarrow> before j = []"
proof (induction j)
  case (Cons f j)
  then show ?case by (cases f) auto
qed simp

lemma before_append: "before (j @ k) = before k @ before j" "after (j @ k) = after j @ after k"
proof (induction j)
  case (Cons f j)
  { case 1 then show ?case using Cons by (cases f) auto }
  { case 2 then show ?case using Cons by (cases f) auto }
qed simp_all

lemma ctx_ok_addr: "ctx_ok (j @ Fr d a c s # k) n \<longleftrightarrow> ctx_ok (j @ Fr d a' c s # k) n"
proof (induction j arbitrary: n)
  case (Cons f j)
  then show ?case by (cases f; cases j) auto
qed simp

text \<open>The last part of the deletion: the node is cleared, and a missing black node is made up for.\<close>

lemma del_tail:
  assumes "rep h (plug y j)" "j \<noteq> []" "below h y (fr_addr (hd j))" "x \<notin> set (nodes (plug y j))" "x \<noteq> rb_sentinel h"
    and "rb_wf (plug (br d Lf m c y) j')" "\<And>n. ctx_ok j' n = ctx_ok j n" "fr_red (hd j') = fr_red (hd j)"
  shows "\<exists>h' T. (if c then Some (rb_forget x h) else map_option (\<lambda>(temp, h). ngx_rbt_black temp h) (rb_delete_fix (ptr (rb_sentinel h) y) (rb_forget x h))) = Some h'
    \<and> rep h' T \<and> rb_wf T \<and> nodes T = nodes (plug y j) \<and> kept (rb_forget x h) h'"
proof -
  have R: "rep (rb_forget x h) (plug y j)" using rep_forget assms(1,4) by blast
  obtain n where n: "rb_ok (br d Lf m c y) n" "ctx_ok j n" "c \<longrightarrow> \<not> fr_red (hd j)" using assms(6-8) unfolding plug_wf by auto
  show ?thesis
  proof (cases c)
    case True
    then have "rb_wf (plug y j)" unfolding plug_wf using n by auto
    then show ?thesis using True R by (auto simp: kept_def)
  next
    case False
    then have n1: "rb_ok y 0" "n = 1" using n by auto
    have "short y 0" using n1 blacken_ok [OF n1(1)] by (cases "red y") (simp_all add: short_def)
    moreover have "below (rb_forget x h) y (fr_addr (hd j))"
    proof -
      have "ptr (rb_sentinel h) y \<noteq> x" using assms(4,5) ptr_in [of y "rb_sentinel h"] by (cases "y = Lf") auto
      then show ?thesis using assms(3) by (simp add: below_def)
    qed
    ultimately have "del_done (rb_forget x h) (plug y j) (rb_delete_fix (ptr (rb_sentinel h) y) (rb_forget x h))"
      using rb_delete_fix_ok [OF R, of 0] n1 n(2) by simp
    then show ?thesis using False unfolding del_done_def by (auto simp: ngx_rbt_black_def kept_def)
  qed
qed

text \<open>A node with at most one child.\<close>

lemma delete_one_child:
  assumes R: "rep h (plug (br d Lf a c y) k)" and wf: "rb_wf (plug (br d Lf a c y) k)" and pick: "rb_delete_pick a h = Some (ptr (rb_sentinel h) y, a)"
  shows "\<exists>h' T. ngx_rbtree_delete a h = Some h' \<and> rep h' T \<and> rb_wf T \<and> nodes T = nodes (plug y k) \<and> kept (rb_forget a h) h'"
proof -
  let ?z = "rb_sentinel h" and ?t = "br d Lf a c y"
  obtain q where q: "stored h (up q k) ?t" "distinct (nodes ?t)" "set (nodes ?t) \<inter> frame_nodes k = {}" "a = rb_root h \<longleftrightarrow> k = []"
    using rep_focus [OF R] by (metis br_props(1,2))
  have a: "a \<notin> set (nodes (plug y k))" "a \<noteq> ?z" "n_red h a = c" using q(1-3) by auto
  show ?thesis
  proof (cases "k = []")
    case True
    let ?h = "h\<lparr>rb_root := ptr ?z y\<rparr>"
    have "stored ?h a y" by (rule stored_frame [of h]) (use q(1) in auto)
    then have "rep ?h (plug y [])" using q(2) R by (auto simp: rep_def)
    from rep_blacken [OF this] have "rep (put_red (ptr ?z y) False ?h) (blacken y)" by simp
    then have "rep (rb_forget a (put_red (ptr ?z y) False ?h)) (blacken y)" by (rule rep_forget) (use a True in simp)
    moreover have "rb_wf (blacken y)" using wf True blacken_wf by (auto simp: rb_wf_def split: if_splits)
    ultimately show ?thesis using pick q(4) True by (auto simp: ngx_rbtree_delete_def Let_def ngx_rbt_black_def kept_def)
  next
    case False
    define h1 where "h1 = put_parent (ptr ?z y) (n_parent h a) (rb_unlink a (ptr ?z y) h)"
    note u = rep_unlink [OF R False, folded h1_def]
    have s: "rb_sentinel h1 = ?z" "n_key h1 = n_key h" using u(3) by (auto simp: kept_def)
    have "n_parent (rb_unlink a (ptr ?z y) h) = n_parent h" by (simp add: rb_unlink_def)
    then have e: "ngx_rbtree_delete a h = (if c then Some (rb_forget a h1) else map_option (\<lambda>(temp, h). ngx_rbt_black temp h) (rb_delete_fix (ptr ?z y) (rb_forget a h1)))"
      using pick q(4) False a(3) by (simp add: ngx_rbtree_delete_def h1_def Let_def)
    have "kept (rb_forget a h) h' \<longleftrightarrow> kept (rb_forget a h1) h'" for h' using s by (simp add: kept_def)
    then show ?thesis unfolding e using del_tail [OF u(1) False u(2) a(1) _ wf refl refl, unfolded s(1), OF a(2)] by blast
  qed
qed

text \<open>A node with two children: the next node takes its place.\<close>

lemma delete_two_children:
  assumes R: "rep h (plug (Br l a c r) k)" and wf: "rb_wf (plug (Br l a c r) k)" and lr: "l \<noteq> Lf" "r \<noteq> Lf"
  shows "\<exists>h' T. ngx_rbtree_delete a h = Some h' \<and> rep h' T \<and> rb_wf T \<and> nodes T = before k @ nodes l @ nodes r @ after k \<and> kept (rb_forget a h) h'"
proof -
  let ?z = "rb_sentinel h"
  have Rr: "rep h (plug r (Fr False a c l # k))" using R by (simp add: br_def)
  obtain m cm rm kr where m: "ngx_rbtree_min (ptr ?z r) h = Some m" "r = plug (Br Lf m cm rm) kr" "\<forall>f \<in> set kr. fr_side f"
    using rbtree_min_ok [OF Rr lr(2)] by blast
  let ?j = "kr @ Fr False a c l # k" and ?j' = "kr @ Fr False m c l # k"
  have Rm: "rep h (plug (br True Lf m cm rm) ?j)" using Rr m(2) by (simp add: plug_append br_def)
  have wfm: "rb_wf (plug (br True Lf m cm rm) ?j)" using wf m(2) by (simp add: plug_append br_def)
  define h1 where "h1 = put_parent (ptr ?z rm) (n_parent h m) (rb_unlink m (ptr ?z rm) h)"
  have R1: "rep h1 (plug rm ?j)" "kept h h1" using rep_unlink [OF Rm, folded h1_def] by auto
  have z: "rb_sentinel h1 = ?z" using R1(2) by (simp add: kept_def)
  obtain q where q: "stored h (up q ?j) (br True Lf m cm rm)" "distinct (nodes (br True Lf m cm rm))" "set (nodes (br True Lf m cm rm)) \<inter> frame_nodes ?j = {}"
    "m = rb_root h \<longleftrightarrow> ?j = []" "?z \<notin> frame_nodes ?j"
    using rep_focus [OF Rm] by (metis br_props(1,2))
  have dis: "distinct (nodes (plug rm ?j))" using R1(1) by (simp add: rep_def)
  have fn: "frame_nodes (kr @ Fr False b c l # k) = insert b (frame_nodes kr \<union> set (nodes l) \<union> frame_nodes k)" for b by (auto simp: frame_nodes_def)
  have m': "m \<noteq> a" "m \<notin> set (nodes (plug rm ?j))" "m \<noteq> ?z" "a \<noteq> ?z" using q(1,2,3,5) by (auto simp: fn)
  have par: "n_parent h m = up a kr" using q(1) by (cases kr) auto
  have kr: "up a kr = a \<longleftrightarrow> kr = []"
  proof (cases "kr = []")
    case False
    obtain e b c1 s1 k1 where k: "kr = Fr e b c1 s1 # k1" using context_cases [OF False] by blast
    have "a \<notin> set (nodes r)" using R rep_focus [OF R] by (metis (no_types) UnCI distinct.simps(2) distinct_append nodes.simps(2))
    then show ?thesis using m(2) k by simp
  qed simp
  define g where "g = put_parent (ptr ?z rm) (if kr = [] then m else up a kr) (rb_unlink m (ptr ?z rm) h)"
  have g: "g = h1 \<or> g = put_parent (ptr (rb_sentinel h1) (plug rm kr)) m h1"
    using z par unfolding g_def h1_def by (cases "kr = []") (auto simp: put_parent_def)
  define h2 where "h2 = rb_take_place a m g"
  have R1': "rep h1 (plug (Br l a c (plug rm kr)) k)" using R1(1) by (simp add: plug_append br_def)
  have R2: "rep h2 (plug rm ?j')" "n_parent h2 ?z = n_parent g ?z" "kept g h2"
    using rep_exchange [OF R1' _ _ g, folded h2_def] m'(2,3) z by (auto simp: plug_append br_def)
  have z2: "rb_sentinel h2 = ?z" using R2(3) g z by (auto simp: kept_def)
  have b: "below h2 rm (fr_addr (hd ?j'))"
  proof (cases "rm = Lf")
    case True
    then show ?thesis using R2(2) z2 unfolding below_def g_def by (cases kr) auto
  next
    case False
    obtain e b c1 s1 k1 where k: "?j' = Fr e b c1 s1 # k1" using context_cases [of ?j'] by blast
    show ?thesis using rep_read(6) [of h2 rm e b c1 s1 k1] R2(1) False k by (simp add: below_def)
  qed
  have up: "n_parent (rb_unlink m (ptr ?z rm) h) = n_parent h" by (simp add: rb_unlink_def)
  have h2: "rb_replace a m (ptr ?z rm) (rb_unlink m (ptr ?z rm) h) = h2"
    unfolding rb_replace_def h2_def g_def up par kr by (cases "kr = []") simp_all
  obtain q' where q': "stored h q' (Br l a c r)" using rep_focus [OF R] by blast
  have "rb_delete_pick a h = Some (ptr ?z rm, m)"
    using q' q(1) m(1) lr ptr_sentinel [of h a l] ptr_sentinel [of h a r] by (simp add: rb_delete_pick_def child_def)
  then have e: "ngx_rbtree_delete a h = (if cm then Some (rb_forget a h2) else map_option (\<lambda>(temp, h). ngx_rbt_black temp h) (rb_delete_fix (ptr ?z rm) (rb_forget a h2)))"
    using h2 q(1,4) m'(1) by (simp add: ngx_rbtree_delete_def Let_def)
  have kept: "kept (rb_forget a h) h' \<longleftrightarrow> kept (rb_forget a h2) h'" for h' using R1(2) R2(3) g by (auto simp: kept_def)
  have a: "a \<notin> set (nodes (plug rm ?j'))" using dis m'(1) unfolding nodes_plug before_append by auto
  have n: "nodes (plug rm ?j') = before k @ nodes l @ nodes r @ after k"
    unfolding m(2) nodes_plug before_append using before_left [OF m(3)] by simp
  have "\<exists>h' T. ngx_rbtree_delete a h = Some h' \<and> rep h' T \<and> rb_wf T \<and> nodes T = nodes (plug rm ?j') \<and> kept (rb_forget a h2) h'"
    unfolding e by (rule del_tail [OF R2(1) _ b a _ wfm, unfolded z2]) (use m'(4) ctx_ok_addr in \<open>auto simp: hd_append\<close>)
  then show ?thesis unfolding n kept .
qed

text \<open>The deletion returns, keeps the colours right, and takes out just the node.\<close>

lemma rbtree_delete_ok:
  assumes "rep h T" "rb_wf T" "a \<in> set (nodes T)"
  shows "\<exists>h' T'. ngx_rbtree_delete a h = Some h' \<and> rep h' T' \<and> rb_wf T' \<and> nodes T' = remove1 a (nodes T) \<and> kept (rb_forget a h) h'"
proof -
  obtain l c r k where T: "T = plug (Br l a c r) k" using focus_exists [OF assms(3)] by blast
  have R: "rep h (plug (Br l a c r) k)" "rb_wf (plug (Br l a c r) k)" using assms T by auto
  obtain q where q: "stored h q (Br l a c r)" using rep_focus [OF R(1)] by blast
  have "a \<notin> set (before k)" "a \<notin> set (nodes l)" using assms(1) unfolding T rep_def nodes_plug by auto
  then have n: "remove1 a (nodes T) = before k @ nodes l @ nodes r @ after k" unfolding T nodes_plug by (simp add: remove1_append)
  consider "l = Lf" | "l \<noteq> Lf" "r = Lf" | "l \<noteq> Lf" "r \<noteq> Lf" by blast
  then show ?thesis
  proof cases
    case 1
    then have "rb_delete_pick a h = Some (ptr (rb_sentinel h) r, a)" using q by (simp add: rb_delete_pick_def)
    then show ?thesis using delete_one_child [of h True a c r k] R 1 unfolding n by (simp add: br_def nodes_plug)
  next
    case 2
    then have "rb_delete_pick a h = Some (ptr (rb_sentinel h) l, a)" using q ptr_sentinel [of h a l] by (simp add: rb_delete_pick_def)
    then show ?thesis using delete_one_child [of h False a c l k] R 2 unfolding n by (simp add: br_def nodes_plug)
  next
    case 3
    then show ?thesis using delete_two_children [OF R] unfolding n by simp
  qed
qed

end
