(* ===== verification/Ngx_Rbtree_Store.thy ===== *)
theory Ngx_Rbtree_Store
  imports Ngx_Rbtree_Delete Ngx_Signed
begin

text \<open>
  The red-black tree as a store of nodes that is sorted by their keys, for any comparison that orders the keys in use:
  the comparison of \<^verbatim>\<open>ngx_rbtree_insert_value\<close> on all keys, and that of \<^verbatim>\<open>ngx_rbtree_insert_timer_value\<close> on keys that
  are close enough that their differences do not wrap.
\<close>

section \<open>A sorted list\<close>

text \<open>The order of the keys in use, \<open>W\<close>: the clients of the tree need no more of a comparison.\<close>

locale key_order =
  fixes lt :: "rb_key \<Rightarrow> rb_key \<Rightarrow> bool" and W :: "rb_key set"
  assumes lt_asym: "a \<in> W \<Longrightarrow> b \<in> W \<Longrightarrow> lt a b \<Longrightarrow> \<not> lt b a"
    and le_trans: "a \<in> W \<Longrightarrow> b \<in> W \<Longrightarrow> c \<in> W \<Longrightarrow> \<not> lt b a \<Longrightarrow> \<not> lt c b \<Longrightarrow> \<not> lt c a"

text \<open>The specification: a list of nodes with keys; a new one is put before the first that is greater.\<close>

type_synonym entries = "(nat \<times> rb_key) list"

definition add_entry :: "(rb_key \<Rightarrow> rb_key \<Rightarrow> bool) \<Rightarrow> nat \<Rightarrow> rb_key \<Rightarrow> entries \<Rightarrow> entries" where
  "add_entry lt x k es = takeWhile (\<lambda>e. \<not> lt k (snd e)) es @ (x, k) # dropWhile (\<lambda>e. \<not> lt k (snd e)) es"

definition del_entry :: "nat \<Rightarrow> entries \<Rightarrow> entries" where
  "del_entry x es = filter (\<lambda>e. fst e \<noteq> x) es"

definition in_order :: "(rb_key \<Rightarrow> rb_key \<Rightarrow> bool) \<Rightarrow> rb_key set \<Rightarrow> entries \<Rightarrow> bool" where
  "in_order lt W es \<longleftrightarrow> sorted_wrt (\<lambda>e f. \<not> lt (snd f) (snd e)) es \<and> (\<forall>e \<in> set es. snd e \<in> W)"

text \<open>The memory represents the list.\<close>

definition entries_of :: "rbtree \<Rightarrow> rb \<Rightarrow> entries" where
  "entries_of h T = map (\<lambda>a. (a, n_key h a)) (nodes T)"

definition holds :: "rbtree \<Rightarrow> entries \<Rightarrow> bool" where
  "holds h es \<longleftrightarrow> (\<exists>T. rep h T \<and> rb_wf T \<and> entries_of h T = es)"

lemma del_entry_nodes: "distinct xs \<Longrightarrow> del_entry x (map (\<lambda>a. (a, key a)) xs) = map (\<lambda>a. (a, key a)) (remove1 x xs)"
  by (induction xs) (auto simp: del_entry_def remove1_idem)

lemma holds_distinct: "holds h es \<Longrightarrow> distinct (map fst es)"
  by (auto simp: holds_def entries_of_def rep_def comp_def)

lemma holds_delete:
  assumes "holds h es" "x \<in> fst ` set es"
  shows "\<exists>h'. ngx_rbtree_delete x h = Some h' \<and> holds h' (del_entry x es) \<and> rb_sentinel h' = rb_sentinel h \<and> n_key h' = (n_key h)(x := 0)"
proof -
  obtain T where T: "rep h T" "rb_wf T" "entries_of h T = es" using assms(1) by (auto simp: holds_def)
  have x: "x \<in> set (nodes T)" using assms(2) T(3) by (auto simp: entries_of_def)
  obtain h' T' where h': "ngx_rbtree_delete x h = Some h'" "rep h' T'" "rb_wf T'" "nodes T' = remove1 x (nodes T)" "kept (rb_forget x h) h'"
    using rbtree_delete_ok [OF T(1,2) x] by blast
  have d: "distinct (nodes T)" using T(1) by (simp add: rep_def)
  have k: "n_key h' = (n_key h)(x := 0)" "rb_sentinel h' = rb_sentinel h" using h'(5) by (auto simp: kept_def)
  have "entries_of h' T' = map (\<lambda>a. (a, n_key h a)) (remove1 x (nodes T))"
    unfolding entries_of_def h'(4) k using d by simp
  then have "entries_of h' T' = del_entry x es" using del_entry_nodes [OF d, of x "n_key h"] T(3) by (simp add: entries_of_def)
  then show ?thesis using h' k unfolding holds_def by blast
qed

lemma in_order_del: "in_order lt W es \<Longrightarrow> in_order lt W (del_entry x es)"
  by (auto simp: in_order_def del_entry_def sorted_wrt_filter)

lemma holds_put_key:
  assumes "holds h es" "x \<notin> fst ` set es"
  shows "holds (put_key x k h) es"
proof -
  obtain T where T: "rep h T" "rb_wf T" "entries_of h T = es" using assms(1) by (auto simp: holds_def)
  have "rep (put_key x k h) T" by (rule rep_same [OF T(1)]) (use T(1) in \<open>auto simp: rep_def\<close>)
  moreover have "entries_of (put_key x k h) T = es" using assms(2) T(3) by (force simp: entries_of_def)
  ultimately show ?thesis using T(2) unfolding holds_def by blast
qed

lemma holds_init: "holds (ngx_rbtree_init s h) []"
  unfolding holds_def entries_of_def rep_def
  by (rule exI [of _ Lf]) (simp add: ngx_rbtree_init_def ngx_rbt_black_def rb_wf_def)

lemma holds_min:
  assumes "holds h ((x, k) # es)"
  shows "rb_root h \<noteq> rb_sentinel h" "ngx_rbtree_min (rb_root h) h = Some x" "n_key h x = k"
proof -
  obtain T where T: "rep h T" "entries_of h T = (x, k) # es" using assms by (auto simp: holds_def)
  have ne: "T \<noteq> Lf" using T(2) by (auto simp: entries_of_def)
  have R: "rep h (plug T [])" using T(1) by simp
  obtain m c r j where m: "ngx_rbtree_min (ptr (rb_sentinel h) T) h = Some m" "T = plug (Br Lf m c r) j" "\<forall>f \<in> set j. fr_side f"
    using rbtree_min_ok [OF R ne] by blast
  have "hd (nodes T) = m" using before_left [OF m(3)] unfolding m(2) nodes_plug by simp
  then have "m = x" using T(2) by (cases "nodes T") (auto simp: entries_of_def)
  then show "ngx_rbtree_min (rb_root h) h = Some x" using m(1) T(1) by (simp add: rep_def)
  show "rb_root h \<noteq> rb_sentinel h" using T(1) ne ptr_sentinel by (auto simp: rep_def)
  show "n_key h x = k" using T(2) by (auto simp: entries_of_def)
qed

lemma holds_empty: "holds h [] \<Longrightarrow> rb_root h = rb_sentinel h"
  by (auto simp: holds_def entries_of_def rep_def neq_Nil_conv elim: nodes.elims)

text \<open>The height of the tree.\<close>

fun rb_height :: "rb \<Rightarrow> nat" where
  "rb_height Lf = 0"
| "rb_height (Br l a c r) = Suc (max (rb_height l) (rb_height r))"

lemma rb_ok_size: "rb_ok t n \<Longrightarrow> 2 ^ n \<le> Suc (length (nodes t))"
proof (induction t arbitrary: n)
  case (Br l a c r)
  show ?case
  proof (cases c)
    case True
    then show ?thesis using Br by force
  next
    case False
    then obtain m where m: "n = Suc m" "rb_ok l m" "rb_ok r m" using Br.prems by (cases n) auto
    then show ?thesis using Br.IH(1) [OF m(2)] Br.IH(2) [OF m(3)] by simp
  qed
qed simp

lemma rb_ok_height: "rb_ok t n \<Longrightarrow> rb_height t \<le> 2 * n + (if red t then 1 else 0)"
proof (induction t arbitrary: n)
  case (Br l a c r)
  show ?case
  proof (cases c)
    case True
    then show ?thesis using Br.IH(1) [of n] Br.IH(2) [of n] Br.prems by simp
  next
    case False
    then obtain m where m: "n = Suc m" "rb_ok l m" "rb_ok r m" using Br.prems by (cases n) auto
    then show ?thesis using Br.IH(1) [OF m(2)] Br.IH(2) [OF m(3)] False by (auto split: if_splits)
  qed
qed simp

lemma rb_wf_height:
  assumes "rb_wf T"
  shows "2 ^ rb_height T \<le> (Suc (length (nodes T)))\<^sup>2"
proof -
  obtain n where n: "rb_ok T n" "\<not> red T" using assms by (auto simp: rb_wf_def)
  have "(2::nat) ^ rb_height T \<le> 2 ^ (2 * n)" using rb_ok_height [OF n(1)] n(2) by (intro power_increasing) auto
  also have "\<dots> = (2 ^ n)\<^sup>2" by (simp add: power_mult mult.commute)
  also have "\<dots> \<le> (Suc (length (nodes T)))\<^sup>2" using rb_ok_size [OF n(1)] by (rule power_mono) simp
  finally show ?thesis .
qed

text \<open>Sequences of operations: the client sets the key of a node before it inserts it.\<close>

datatype tree_op = Add nat rb_key | Del nat

fun rb_perform :: "(nat \<Rightarrow> nat \<Rightarrow> rbtree \<Rightarrow> rbtree option) \<Rightarrow> tree_op list \<Rightarrow> rbtree \<Rightarrow> rbtree option" where
  "rb_perform ins [] h = Some h"
| "rb_perform ins (Add x k # ops) h = Option.bind (ngx_rbtree_insert ins x (put_key x k h)) (rb_perform ins ops)"
| "rb_perform ins (Del x # ops) h = Option.bind (ngx_rbtree_delete x h) (rb_perform ins ops)"

fun entries_after :: "(rb_key \<Rightarrow> rb_key \<Rightarrow> bool) \<Rightarrow> tree_op list \<Rightarrow> entries \<Rightarrow> entries" where
  "entries_after lt [] es = es"
| "entries_after lt (Add x k # ops) es = entries_after lt ops (add_entry lt x k es)"
| "entries_after lt (Del x # ops) es = entries_after lt ops (del_entry x es)"

text \<open>A node is added once, and only a node of the tree is deleted; \<open>z\<close> is the sentinel.\<close>

fun ops_allowed :: "nat \<Rightarrow> rb_key set \<Rightarrow> tree_op list \<Rightarrow> nat set \<Rightarrow> bool" where
  "ops_allowed z W [] A \<longleftrightarrow> True"
| "ops_allowed z W (Add x k # ops) A \<longleftrightarrow> x \<noteq> z \<and> x \<notin> A \<and> k \<in> W \<and> ops_allowed z W ops (insert x A)"
| "ops_allowed z W (Del x # ops) A \<longleftrightarrow> x \<in> A \<and> ops_allowed z W ops (A - {x})"

lemma add_entry_set: "set (add_entry lt x k es) = insert (x, k) (set es)"
  unfolding add_entry_def by (metis (no_types) list.simps(15) set_append Un_insert_right takeWhile_dropWhile_id)

lemma del_entry_set: "set (del_entry x es) = {e \<in> set es. fst e \<noteq> x}"
  by (auto simp: del_entry_def)

context key_order
begin

lemma mono_along:
  assumes "in_order lt W es" "k \<in> W"
  shows "sorted_wrt (\<lambda>e f. lt k (snd e) \<longrightarrow> lt k (snd f)) es"
proof -
  have "sorted_wrt (\<lambda>e f. \<not> lt (snd f) (snd e)) es" "\<forall>e \<in> set es. snd e \<in> W" using assms(1) by (auto simp: in_order_def)
  then show ?thesis using assms(2)
  proof (induction es)
    case (Cons e es)
    then show ?case using le_trans [of _ _ k] by auto
  qed simp
qed

lemma in_order_add:
  assumes "in_order lt W es" "k \<in> W"
  shows "in_order lt W (add_entry lt x k es)"
proof -
  let ?P = "\<lambda>e. \<not> lt k (snd e)"
  have W: "\<forall>e \<in> set es. snd e \<in> W" using assms(1) by (simp add: in_order_def)
  have so: "sorted_wrt (\<lambda>e f. \<not> lt (snd f) (snd e)) (takeWhile ?P es @ dropWhile ?P es)" using assms(1) by (simp add: in_order_def)
  have big: "lt k (snd e)" if "e \<in> set (dropWhile ?P es)" for e
  proof -
    have "sorted_wrt (\<lambda>e f. lt k (snd e) \<longrightarrow> lt k (snd f)) (takeWhile ?P es @ dropWhile ?P es)" using mono_along [OF assms] by simp
    then have "sorted_wrt (\<lambda>e f. lt k (snd e) \<longrightarrow> lt k (snd f)) (dropWhile ?P es)" unfolding sorted_wrt_append by blast
    moreover have "dropWhile ?P es \<noteq> []" using that by (metis empty_iff list.set(1))
    then have "lt k (snd (hd (dropWhile ?P es)))" using hd_dropWhile [of ?P es] by blast
    ultimately show ?thesis using that by (cases "dropWhile ?P es") auto
  qed
  have "\<not> lt (snd e) k" if "e \<in> set (dropWhile ?P es)" for e using big [OF that] lt_asym assms(2) W set_dropWhileD [OF that] by blast
  moreover have "\<not> lt k (snd e)" if "e \<in> set (takeWhile ?P es)" for e using set_takeWhileD [OF that] by blast
  moreover have "snd e \<in> W" if "e \<in> set (takeWhile ?P es) \<union> set (dropWhile ?P es)" for e using that W by (auto dest: set_takeWhileD set_dropWhileD)
  ultimately show ?thesis using so assms(2) unfolding in_order_def add_entry_def sorted_wrt_append by auto
qed

text \<open>The insertion, for a function \<^verbatim>\<open>tree->insert\<close> that compares the keys.\<close>

lemma holds_insert:
  assumes "holds h es" "in_order lt W es" "n_key h x \<in> W" "x \<notin> fst ` set es" "x \<noteq> rb_sentinel h"
    and "\<And>t. ins t x h = rb_insert_node (\<lambda>a. lt (n_key h x) (n_key h a)) t x h"
  shows "\<exists>h'. ngx_rbtree_insert ins x h = Some h' \<and> holds h' (add_entry lt x (n_key h x) es) \<and> rb_sentinel h' = rb_sentinel h \<and> n_key h' = n_key h"
proof -
  let ?lt = "\<lambda>a. lt (n_key h x) (n_key h a)"
  obtain T where T: "rep h T" "rb_wf T" "entries_of h T = es" using assms(1) by (auto simp: holds_def)
  have x: "x \<notin> set (nodes T)" using assms(4) T(3) by (force simp: entries_of_def)
  have mono: "sorted_wrt (\<lambda>a b. ?lt a \<longrightarrow> ?lt b) (nodes T)"
    using mono_along [OF assms(2,3)] unfolding T(3) [symmetric] entries_of_def by (simp add: sorted_wrt_map)
  obtain h' T' where h': "ngx_rbtree_insert ins x h = Some h'" "rep h' T'" "rb_wf T'" "n_key h' = n_key h" "rb_sentinel h' = rb_sentinel h"
    "nodes T' = takeWhile (\<lambda>a. \<not> ?lt a) (nodes T) @ x # dropWhile (\<lambda>a. \<not> ?lt a) (nodes T)"
    using rbtree_insert_ok [where lt = ?lt and ins = ins, OF T(1,2) x assms(5) mono assms(6)] by blast
  have "entries_of h' T' = add_entry lt x (n_key h x) es"
    unfolding entries_of_def add_entry_def h'(4,6) T(3) [symmetric] by (simp add: takeWhile_map dropWhile_map comp_def)
  then show ?thesis using h' unfolding holds_def by blast
qed

lemma holds_add:
  assumes "holds h es" "in_order lt W es" "k \<in> W" "x \<notin> fst ` set es" "x \<noteq> rb_sentinel h"
    and "\<And>t x h. ins t x h = rb_insert_node (\<lambda>a. lt (n_key h x) (n_key h a)) t x h"
  shows "\<exists>h'. ngx_rbtree_insert ins x (put_key x k h) = Some h' \<and> holds h' (add_entry lt x k es) \<and> rb_sentinel h' = rb_sentinel h \<and> n_key h' = (n_key h)(x := k)"
  using holds_insert [OF holds_put_key [OF assms(1,4), of k] assms(2), of x ins] assms(3-6) by simp

lemma run_refines:
  assumes "holds h es" "in_order lt W es" "ops_allowed (rb_sentinel h) W ops (fst ` set es)"
    and "\<And>t x h. ins t x h = rb_insert_node (\<lambda>a. lt (n_key h x) (n_key h a)) t x h"
  shows "\<exists>h'. rb_perform ins ops h = Some h' \<and> holds h' (entries_after lt ops es) \<and> in_order lt W (entries_after lt ops es)"
  using assms(1-3)
proof (induction ops arbitrary: h es)
  case (Cons c ops)
  show ?case
  proof (cases c)
    case (Add x k)
    obtain h' where h': "ngx_rbtree_insert ins x (put_key x k h) = Some h'" "holds h' (add_entry lt x k es)" "rb_sentinel h' = rb_sentinel h"
      using holds_add [OF Cons.prems(1,2) _ _ _ assms(4), of k x] Cons.prems(3) Add by auto
    then show ?thesis using Cons.IH [OF h'(2) in_order_add [OF Cons.prems(2)]] Cons.prems(3) Add by (simp add: add_entry_set)
  next
    case (Del x)
    obtain h' where h': "ngx_rbtree_delete x h = Some h'" "holds h' (del_entry x es)" "rb_sentinel h' = rb_sentinel h"
      using holds_delete [OF Cons.prems(1), of x] Cons.prems(3) Del by auto
    have "fst ` set (del_entry x es) = fst ` set es - {x}" by (auto simp: del_entry_set)
    then show ?thesis using Cons.IH [OF h'(2) in_order_del [OF Cons.prems(2)]] Cons.prems(3) Del h'(1,3) by simp
  qed
qed simp

end

interpretation value_order: key_order value_less UNIV
  by unfold_locales (auto simp: value_less_def)

text \<open>Timers that are less than \<open>2 ^ 62\<close> milliseconds away from \<open>base\<close>: the differences do not wrap.\<close>

definition timer_window :: "rb_key \<Rightarrow> rb_key set" where
  "timer_window base = {k. - (2 ^ 62) \<le> sint (k - base) \<and> sint (k - base) < 2 ^ 62}"

lemma sint_window_diff:
  assumes "a \<in> timer_window base" "b \<in> timer_window base"
  shows "sint (a - b) = sint (a - base) - sint (b - base)"
proof -
  have "a - b = (a - base) - (b - base)" by simp
  also have "\<dots> = word_of_int (sint (a - base) - sint (b - base))" unfolding wi_hom_sub [symmetric] by simp
  finally show ?thesis using sint_wi [of "sint (a - base) - sint (b - base)"] assms by (simp add: timer_window_def)
qed

lemma timer_less_window:
  assumes "a \<in> timer_window base" "b \<in> timer_window base"
  shows "timer_less a b \<longleftrightarrow> sint (a - base) < sint (b - base)"
  using sint_window_diff [OF assms] by (simp add: timer_less_def word_sless_alt)

interpretation timer_order: key_order timer_less "timer_window base" for base
  by unfold_locales (auto simp: timer_less_window)

text \<open>
  C2. The red-black tree is a sorted list: for every sequence of insertions of new nodes and deletions of present
  nodes, \<^verbatim>\<open>ngx_rbtree_insert\<close> and \<^verbatim>\<open>ngx_rbtree_delete\<close> on the memory of nodes return; the pointers of the nodes form a
  tree with the colours right, whose nodes with their keys are, in order, those that the insertions put after all smaller or
  equal keys and the deletions take out; and the height of the tree is at most twice the logarithm of its size.
\<close>

theorem rbtree_refines_sorted_list:
  assumes "holds h es" "in_order value_less UNIV es" "ops_allowed (rb_sentinel h) UNIV ops (fst ` set es)"
  shows "\<exists>h' T. rb_perform ngx_rbtree_insert_value ops h = Some h' \<and> rep h' T \<and> rb_wf T
    \<and> entries_of h' T = entries_after value_less ops es \<and> in_order value_less UNIV (entries_of h' T)
    \<and> 2 ^ rb_height T \<le> (Suc (length (nodes T)))\<^sup>2"
proof -
  obtain h' where h': "rb_perform ngx_rbtree_insert_value ops h = Some h'" "holds h' (entries_after value_less ops es)"
    "in_order value_less UNIV (entries_after value_less ops es)"
    using value_order.run_refines [OF assms, of ngx_rbtree_insert_value] by (auto simp: ngx_rbtree_insert_value_def)
  then show ?thesis unfolding holds_def using rb_wf_height by metis
qed

theorem rbtree_refines_sorted_list_witness:
  "\<exists>h' T. rb_perform ngx_rbtree_insert_value [Add 1 7, Add 2 5, Add 3 7, Del 1]
      (ngx_rbtree_init 9 \<lparr>rb_root = 0, rb_sentinel = 0, n_key = \<lambda>_. 0, n_left = \<lambda>_. 0, n_right = \<lambda>_. 0, n_parent = \<lambda>_. 0, n_red = \<lambda>_. True\<rparr>) = Some h'
    \<and> rep h' T \<and> rb_wf T \<and> entries_of h' T = [(2, 5), (3, 7)]"
proof -
  let ?h = "ngx_rbtree_init 9 \<lparr>rb_root = 0, rb_sentinel = 0, n_key = \<lambda>_. 0, n_left = \<lambda>_. 0, n_right = \<lambda>_. 0, n_parent = \<lambda>_. 0, n_red = \<lambda>_. True\<rparr>"
  have "rb_sentinel ?h = 9" by (simp add: ngx_rbtree_init_def ngx_rbt_black_def)
  then have "ops_allowed (rb_sentinel ?h) UNIV [Add 1 7, Add 2 5, Add 3 7, Del 1] (fst ` set [])" by simp
  moreover have "in_order value_less UNIV []" by (simp add: in_order_def)
  moreover have "entries_after value_less [Add 1 7, Add 2 5, Add 3 7, Del 1] [] = [(2, 5), (3, 7)]"
    by (simp add: add_entry_def del_entry_def value_less_def)
  ultimately show ?thesis using rbtree_refines_sorted_list [OF holds_init] by metis
qed

end
