(* ===== verification/Ngx_Timer.thy ===== *)
theory Ngx_Timer
  imports Ngx_Rbtree_Store "HOL-Library.Sublist"
begin

text \<open>
  The timers of \<^verbatim>\<open>src/event/ngx_event_timer.c\<close> and \<^verbatim>\<open>src/event/ngx_event_timer.h\<close>: a red-black tree of the events with
  a timer, by the millisecond at which they expire. An event is named by the address of its node \<^verbatim>\<open>ev->timer\<close>. The
  handler of an event is an argument of the model; there are no threads (\<^verbatim>\<open>NGX_THREADS\<close> is off), so the
  mutex operations are empty, and the log messages are left out.
\<close>

section \<open>Definitions\<close>

type_synonym msec = "64 word"


definition NGX_TIMER_LAZY_DELAY :: msec where "NGX_TIMER_LAZY_DELAY = 300"

record timers =
  tm_tree :: rbtree
  ngx_current_msec :: msec
  timer_set :: "nat \<Rightarrow> bool"
  timedout :: "nat \<Rightarrow> bool"

definition ngx_event_timer_init :: "nat \<Rightarrow> timers \<Rightarrow> ngx_int \<times> timers" where
  "ngx_event_timer_init sentinel st = (NGX_OK, st\<lparr>tm_tree := ngx_rbtree_init sentinel (tm_tree st)\<rparr>)"


definition ngx_event_del_timer :: "nat \<Rightarrow> timers \<Rightarrow> timers option" where
  "ngx_event_del_timer ev st =
     map_option (\<lambda>h. st\<lparr>tm_tree := h, timer_set := (timer_set st)(ev := False)\<rparr>) (ngx_rbtree_delete ev (tm_tree st))"

definition ngx_abs :: "msec \<Rightarrow> msec" where
  "ngx_abs v = (if 0 \<le>s v then v else - v)"

definition ngx_event_add_timer :: "nat \<Rightarrow> msec \<Rightarrow> timers \<Rightarrow> timers option" where
  "ngx_event_add_timer ev timer st =
     (let key = ngx_current_msec st + timer;
          add = (\<lambda>st. map_option (\<lambda>h. st\<lparr>tm_tree := h, timer_set := (timer_set st)(ev := True)\<rparr>)
                        (ngx_rbtree_insert ngx_rbtree_insert_timer_value ev (put_key ev key (tm_tree st))))
      in if timer_set st ev then
           (if ngx_abs (key - n_key (tm_tree st) ev) <s NGX_TIMER_LAZY_DELAY then Some st
            else Option.bind (ngx_event_del_timer ev st) add)
         else add st)"

text \<open>The events whose handlers are called, in this order, and the state; \<open>None\<close> when the loop never ends.\<close>

partial_function (option) ngx_event_expire_timers :: "(nat \<Rightarrow> timers \<Rightarrow> timers option) \<Rightarrow> timers \<Rightarrow> (nat list \<times> timers) option" where
  [code]: "ngx_event_expire_timers handler st =
     (if rb_root (tm_tree st) = rb_sentinel (tm_tree st) then Some ([], st)
      else Option.bind (ngx_rbtree_min (rb_root (tm_tree st)) (tm_tree st)) (\<lambda>ev.
        if n_key (tm_tree st) ev - ngx_current_msec st \<le>s 0 then
          Option.bind (ngx_rbtree_delete ev (tm_tree st)) (\<lambda>h.
          Option.bind (handler ev (st\<lparr>tm_tree := h, timer_set := (timer_set st)(ev := False), timedout := (timedout st)(ev := True)\<rparr>)) (\<lambda>st.
          Option.bind (ngx_event_expire_timers handler st) (\<lambda>(fired, st). Some (ev # fired, st))))
        else Some ([], st)))"

section \<open>The timers as a list\<close>

definition timers_hold :: "timers \<Rightarrow> entries \<Rightarrow> bool" where
  "timers_hold st es \<longleftrightarrow> holds (tm_tree st) es \<and> in_order timer_less (timer_window (ngx_current_msec st)) es
     \<and> (\<forall>ev. timer_set st ev \<longleftrightarrow> ev \<in> fst ` set es)"

definition expired :: "msec \<Rightarrow> entries \<Rightarrow> entries" where
  "expired now es = filter (\<lambda>e. snd e - now \<le>s 0) es"

lemma timers_hold_del:
  assumes "timers_hold st es" "timer_set st ev"
  shows "\<exists>st'. ngx_event_del_timer ev st = Some st' \<and> timers_hold st' (del_entry ev es) \<and> ngx_current_msec st' = ngx_current_msec st
    \<and> rb_sentinel (tm_tree st') = rb_sentinel (tm_tree st)"
proof -
  have "ev \<in> fst ` set es" using assms by (auto simp: timers_hold_def)
  then obtain h where h: "ngx_rbtree_delete ev (tm_tree st) = Some h" "holds h (del_entry ev es)" "rb_sentinel h = rb_sentinel (tm_tree st)"
    using holds_delete assms(1) by (metis timers_hold_def)
  show ?thesis using assms h by (auto simp: timers_hold_def ngx_event_del_timer_def in_order_del del_entry_set)
qed

lemma timers_hold_insert:
  assumes "timers_hold st es" "\<not> timer_set st ev" "key \<in> timer_window (ngx_current_msec st)" "ev \<noteq> rb_sentinel (tm_tree st)"
  shows "\<exists>h. ngx_rbtree_insert ngx_rbtree_insert_timer_value ev (put_key ev key (tm_tree st)) = Some h
    \<and> timers_hold (st\<lparr>tm_tree := h, timer_set := (timer_set st)(ev := True)\<rparr>) (add_entry timer_less ev key es)
    \<and> rb_sentinel h = rb_sentinel (tm_tree st)"
proof -
  have t: "holds (tm_tree st) es" "in_order timer_less (timer_window (ngx_current_msec st)) es" "ev \<notin> fst ` set es"
    using assms(1,2) by (auto simp: timers_hold_def)
  obtain h where h: "ngx_rbtree_insert ngx_rbtree_insert_timer_value ev (put_key ev key (tm_tree st)) = Some h"
    "holds h (add_entry timer_less ev key es)" "rb_sentinel h = rb_sentinel (tm_tree st)"
    using timer_order.holds_add [OF t(1,2) assms(3) t(3) assms(4), of ngx_rbtree_insert_timer_value] by (auto simp: ngx_rbtree_insert_timer_value_def)
  have "in_order timer_less (timer_window (ngx_current_msec st)) (add_entry timer_less ev key es)" using timer_order.in_order_add [OF t(2) assms(3)] .
  moreover have "((timer_set st)(ev := True)) x \<longleftrightarrow> x \<in> fst ` set (add_entry timer_less ev key es)" for x
    using assms(1) by (auto simp: timers_hold_def add_entry_set)
  ultimately show ?thesis using h unfolding timers_hold_def by simp
qed

text \<open>An event that is armed again within the lazy delay keeps its timer.\<close>

definition rearm :: "nat \<Rightarrow> msec \<Rightarrow> timers \<Rightarrow> entries \<Rightarrow> entries" where
  "rearm ev key st es =
     (if timer_set st ev \<and> ngx_abs (key - n_key (tm_tree st) ev) <s NGX_TIMER_LAZY_DELAY then es
      else add_entry timer_less ev key (del_entry ev es))"

lemma del_entry_absent: "x \<notin> fst ` set es \<Longrightarrow> del_entry x es = es"
  by (force simp: del_entry_def filter_id_conv)

lemma timers_hold_add:
  assumes "timers_hold st es" "ngx_current_msec st + timer \<in> timer_window (ngx_current_msec st)" "ev \<noteq> rb_sentinel (tm_tree st)"
  shows "\<exists>st'. ngx_event_add_timer ev timer st = Some st' \<and> timers_hold st' (rearm ev (ngx_current_msec st + timer) st es)
    \<and> ngx_current_msec st' = ngx_current_msec st \<and> rb_sentinel (tm_tree st') = rb_sentinel (tm_tree st)"
proof (cases "timer_set st ev")
  case False
  then have "del_entry ev es = es" using assms(1) by (intro del_entry_absent) (auto simp: timers_hold_def)
  then show ?thesis using timers_hold_insert [OF assms(1) False assms(2,3)] False
    by (auto simp: ngx_event_add_timer_def rearm_def Let_def)
next
  case True
  obtain st' where st': "ngx_event_del_timer ev st = Some st'" "timers_hold st' (del_entry ev es)" "ngx_current_msec st' = ngx_current_msec st"
    "rb_sentinel (tm_tree st') = rb_sentinel (tm_tree st)" using timers_hold_del [OF assms(1) True] by blast
  have "\<not> timer_set st' ev" using st'(2) by (auto simp: timers_hold_def del_entry_set)
  then show ?thesis using timers_hold_insert [OF st'(2), of ev "ngx_current_msec st + timer"] st' assms True
    by (auto simp: ngx_event_add_timer_def rearm_def Let_def)
qed

lemma earliest:
  assumes "timers_hold st ((x, k) # es)" "e \<in> set es"
  shows "sint (k - ngx_current_msec st) \<le> sint (snd e - ngx_current_msec st)"
proof -
  have "\<not> timer_less (snd e) k" "k \<in> timer_window (ngx_current_msec st)" "snd e \<in> timer_window (ngx_current_msec st)"
    using assms by (auto simp: timers_hold_def in_order_def)
  then show ?thesis using timer_less_window by fastforce
qed

lemma sle_zero: "(a :: 64 word) \<le>s 0 \<longleftrightarrow> sint a \<le> 0"
  by (simp add: word_sle_eq)

lemma none_expired: "timers_hold st ((x, k) # es) \<Longrightarrow> \<not> k - ngx_current_msec st \<le>s 0 \<Longrightarrow> expired (ngx_current_msec st) ((x, k) # es) = []"
  using earliest [of st x k es] by (force simp: expired_def sle_zero filter_empty_conv)

text \<open>What a handler does to the timers: it arms and cancels some of them. A cancelled timer is set, which the callers check.\<close>

datatype timer_op = Arm nat msec | Cancel nat

fun timer_ops :: "timer_op list \<Rightarrow> timers \<Rightarrow> timers option" where
  "timer_ops [] st = Some st"
| "timer_ops (Arm ev t # ops) st = Option.bind (ngx_event_add_timer ev t st) (timer_ops ops)"
| "timer_ops (Cancel ev # ops) st = (if timer_set st ev then Option.bind (ngx_event_del_timer ev st) (timer_ops ops) else timer_ops ops st)"

text \<open>Timers are armed for the future, and for less than \<open>2 ^ 62\<close> milliseconds; \<open>z\<close> is the sentinel.\<close>

fun op_sound :: "nat \<Rightarrow> timer_op \<Rightarrow> bool" where
  "op_sound z (Arm ev t) \<longleftrightarrow> ev \<noteq> z \<and> 0 < t \<and> t < 2 ^ 62"
| "op_sound z (Cancel ev) \<longleftrightarrow> True"

lemma future_key:
  assumes "0 < t" "t < (2 ^ 62 :: msec)"
  shows "now + t \<in> timer_window now" "\<not> now + t - now \<le>s 0"
proof -
  have t: "0 < uint t" "uint t < 2 ^ 62" using assms by (simp_all add: word_less_def)
  then have "sint t = uint t" using sint_wi [of "uint t"] by simp
  then show "now + t \<in> timer_window now" "\<not> now + t - now \<le>s 0" using t by (auto simp: timer_window_def sle_zero)
qed

lemma expired_del: "subseq (expired now (del_entry x es)) (expired now es)"
proof -
  have "expired now (del_entry x es) = filter (\<lambda>e. fst e \<noteq> x) (expired now es)" by (simp add: expired_def del_entry_def conj_commute)
  then show ?thesis by simp
qed

lemma expired_rearm:
  assumes "\<not> key - now \<le>s 0"
  shows "subseq (expired now (rearm ev key st es)) (expired now es)"
proof -
  have "expired now (add_entry timer_less ev key xs) = expired now xs" for xs
    using assms filter_append [of "\<lambda>e. snd e - now \<le>s 0" "takeWhile (\<lambda>e. \<not> timer_less key (snd e)) xs" "dropWhile (\<lambda>e. \<not> timer_less key (snd e)) xs"]
    by (simp add: expired_def add_entry_def)
  then show ?thesis using expired_del by (simp add: rearm_def)
qed

lemma timer_ops_ok:
  assumes "timers_hold st es" "list_all (op_sound (rb_sentinel (tm_tree st))) ops"
  shows "\<exists>st' es'. timer_ops ops st = Some st' \<and> timers_hold st' es' \<and> ngx_current_msec st' = ngx_current_msec st
    \<and> rb_sentinel (tm_tree st') = rb_sentinel (tm_tree st) \<and> subseq (expired (ngx_current_msec st) es') (expired (ngx_current_msec st) es)"
  using assms
proof (induction ops arbitrary: st es)
  case (Cons c ops)
  have "\<exists>st' es'. timer_ops (c # ops) st = timer_ops ops st' \<and> timers_hold st' es' \<and> ngx_current_msec st' = ngx_current_msec st
    \<and> rb_sentinel (tm_tree st') = rb_sentinel (tm_tree st) \<and> subseq (expired (ngx_current_msec st) es') (expired (ngx_current_msec st) es)"
  proof (cases c)
    case (Arm ev t)
    then have t: "ev \<noteq> rb_sentinel (tm_tree st)" "0 < t" "t < 2 ^ 62" using Cons.prems(2) by auto
    show ?thesis using timers_hold_add [OF Cons.prems(1) future_key(1) [OF t(2,3)] t(1)] expired_rearm [OF future_key(2) [OF t(2,3)]] Arm by fastforce
  next
    case (Cancel ev)
    show ?thesis
    proof (cases "timer_set st ev")
      case True
      then show ?thesis using timers_hold_del [OF Cons.prems(1) True] expired_del Cancel by fastforce
    next
      case False
      then show ?thesis using Cons.prems(1) Cancel by auto
    qed
  qed
  then obtain st1 es1 where s1: "timer_ops (c # ops) st = timer_ops ops st1" "timers_hold st1 es1" "ngx_current_msec st1 = ngx_current_msec st"
    "rb_sentinel (tm_tree st1) = rb_sentinel (tm_tree st)" "subseq (expired (ngx_current_msec st) es1) (expired (ngx_current_msec st) es)" by blast
  then show ?case using Cons.IH [OF s1(2)] Cons.prems(2) by (fastforce intro: subseq_order.order_trans)
qed auto

lemma expire_none:
  assumes "timers_hold st es" "expired (ngx_current_msec st) es = []"
  shows "ngx_event_expire_timers handler st = Some ([], st)"
proof (cases es)
  case Nil
  then have "rb_root (tm_tree st) = rb_sentinel (tm_tree st)" using assms(1) holds_empty by (auto simp: timers_hold_def)
  then show ?thesis by (subst ngx_event_expire_timers.simps) simp
next
  case (Cons e es')
  obtain x k where e: "e = (x, k)" by fastforce
  have h: "holds (tm_tree st) ((x, k) # es')" using assms(1) Cons e by (simp add: timers_hold_def)
  have "\<not> k - ngx_current_msec st \<le>s 0" using assms(2) Cons e by (auto simp: expired_def split: if_splits)
  then show ?thesis using holds_min [OF h] by (subst ngx_event_expire_timers.simps) simp
qed

text \<open>One round: the earliest timer is deleted and its handler is called.\<close>

lemma expire_step:
  assumes "timers_hold st es" "expired (ngx_current_msec st) es \<noteq> []"
  obtains x k es' st' where "es = (x, k) # es'" "timers_hold st' es'" "ngx_current_msec st' = ngx_current_msec st"
    "rb_sentinel (tm_tree st') = rb_sentinel (tm_tree st)" "expired (ngx_current_msec st) es = (x, k) # expired (ngx_current_msec st) es'"
    "ngx_event_expire_timers handler st = Option.bind (handler x st') (\<lambda>st. Option.bind (ngx_event_expire_timers handler st) (\<lambda>(fired, st). Some (x # fired, st)))"
proof -
  obtain x k es' where es: "es = (x, k) # es'" using assms(2) by (cases es) (auto simp: expired_def)
  have h: "holds (tm_tree st) ((x, k) # es')" using assms(1) es by (simp add: timers_hold_def)
  have k: "k - ngx_current_msec st \<le>s 0" using none_expired assms es by blast
  have x: "x \<notin> fst ` set es'" using holds_distinct [OF h] by simp
  obtain h' where h': "ngx_rbtree_delete x (tm_tree st) = Some h'" "holds h' (del_entry x es)" "rb_sentinel h' = rb_sentinel (tm_tree st)"
    using holds_delete [OF h, of x] es by auto
  have d: "del_entry x es = es'" using del_entry_absent [OF x] unfolding es by (simp add: del_entry_def)
  define st' where "st' = st\<lparr>tm_tree := h', timer_set := (timer_set st)(x := False), timedout := (timedout st)(x := True)\<rparr>"
  have "holds h' es'" "in_order timer_less (timer_window (ngx_current_msec st)) es'"
    using h'(2) in_order_del [of timer_less "timer_window (ngx_current_msec st)" es x] assms(1) unfolding d timers_hold_def by blast+
  then have "timers_hold st' es'" using assms(1) x es by (auto simp: timers_hold_def st'_def)
  moreover have "ngx_event_expire_timers handler st = Option.bind (handler x st') (\<lambda>st. Option.bind (ngx_event_expire_timers handler st) (\<lambda>(fired, st). Some (x # fired, st)))"
    using holds_min [OF h] h'(1) k by (subst ngx_event_expire_timers.simps) (simp add: st'_def)
  moreover have "expired (ngx_current_msec st) es = (x, k) # expired (ngx_current_msec st) es'" using k es by (simp add: expired_def)
  ultimately show ?thesis using that [OF es] h'(3) by (simp add: st'_def)
qed

lemma expire_ok:
  assumes "timers_hold st es" "\<And>ev st. list_all (op_sound (rb_sentinel (tm_tree st0))) (prog ev st)" "rb_sentinel (tm_tree st) = rb_sentinel (tm_tree st0)"
  shows "\<exists>fired st' es'. ngx_event_expire_timers (\<lambda>ev st. timer_ops (prog ev st) st) st = Some (fired, st') \<and> timers_hold st' es'
    \<and> expired (ngx_current_msec st) es' = [] \<and> subseq fired (map fst (expired (ngx_current_msec st) es)) \<and> ngx_current_msec st' = ngx_current_msec st
    \<and> rb_sentinel (tm_tree st') = rb_sentinel (tm_tree st) \<and> ((\<forall>ev st. prog ev st = []) \<longrightarrow> fired = map fst (expired (ngx_current_msec st) es))"
  using assms(1,3)
proof (induction "length (expired (ngx_current_msec st) es)" arbitrary: st es rule: less_induct)
  case less
  let ?now = "ngx_current_msec st"
  show ?case
  proof (cases "expired ?now es = []")
    case True
    then show ?thesis using expire_none [OF less.prems(1) True] less.prems(1) by auto
  next
    case False
    obtain x k es1 st1 where s: "es = (x, k) # es1" "timers_hold st1 es1" "ngx_current_msec st1 = ?now" "rb_sentinel (tm_tree st1) = rb_sentinel (tm_tree st)"
      "expired ?now es = (x, k) # expired ?now es1"
      "ngx_event_expire_timers (\<lambda>ev st. timer_ops (prog ev st) st) st = Option.bind (timer_ops (prog x st1) st1)
         (\<lambda>st. Option.bind (ngx_event_expire_timers (\<lambda>ev st. timer_ops (prog ev st) st) st) (\<lambda>(fired, st). Some (x # fired, st)))"
      using expire_step [OF less.prems(1) False, of "\<lambda>ev st. timer_ops (prog ev st) st"] by blast
    have "list_all (op_sound (rb_sentinel (tm_tree st1))) (prog x st1)" using assms(2) s(4) less.prems(2) by simp
    then obtain st2 es2 where o: "timer_ops (prog x st1) st1 = Some st2" "timers_hold st2 es2" "ngx_current_msec st2 = ?now"
      "rb_sentinel (tm_tree st2) = rb_sentinel (tm_tree st)" "subseq (expired ?now es2) (expired ?now es1)" "prog x st1 = [] \<Longrightarrow> es2 = es1"
      using timer_ops_ok [OF s(2), of "prog x st1"] s(2,3,4) by (cases "prog x st1 = []") (auto intro: that)
    have "length (expired (ngx_current_msec st2) es2) < length (expired ?now es)" using list_emb_length [OF o(5)] s(5) o(3) by simp
    from less.hyps [OF this o(2), unfolded o(3,4), OF less.prems(2)] obtain fired st3 es3 where r: "ngx_event_expire_timers (\<lambda>ev st. timer_ops (prog ev st) st) st2 = Some (fired, st3)"
      "timers_hold st3 es3" "expired ?now es3 = []" "subseq fired (map fst (expired ?now es2))" "ngx_current_msec st3 = ?now"
      "rb_sentinel (tm_tree st3) = rb_sentinel (tm_tree st)" "(\<forall>ev st. prog ev st = []) \<longrightarrow> fired = map fst (expired ?now es2)" by blast
    have "subseq (x # fired) (map fst (expired ?now es))" using r(4) subseq_map [OF o(5), of fst] s(5) subseq_order.order_trans by fastforce
    moreover have "(\<forall>ev st. prog ev st = []) \<longrightarrow> x # fired = map fst (expired ?now es)" using r(7) o(6) s(5) by auto
    ultimately show ?thesis using s(6) o(1) r by auto
  qed
qed

section \<open>Properties\<close>

lemma timers_init:
  assumes "\<And>ev. \<not> timer_set st ev"
  shows "timers_hold (snd (ngx_event_timer_init z st)) []"
  using assms holds_init by (simp add: timers_hold_def ngx_event_timer_init_def in_order_def)

lemma init_sentinel [simp]: "rb_sentinel (tm_tree (snd (ngx_event_timer_init z st))) = z"
  by (simp add: ngx_event_timer_init_def ngx_rbtree_init_def)

lemma subseq_imp_distinct: "subseq xs ys \<Longrightarrow> distinct ys \<Longrightarrow> distinct xs"
  by (induction rule: list_emb.induct) (auto dest: list_emb_set)

text \<open>
  C6. \<^verbatim>\<open>ngx_event_expire_timers\<close>, whose handlers may arm timers for the future and cancel any timers, the expired ones
  included: the loop ends; the handlers are called for expired events only, each once and in the order of their
  times; no expired timer is left; and if the handlers leave the timers alone, the handlers of all the expired events
  are called. The tree and the flags \<^verbatim>\<open>timer_set\<close> stay in step.
\<close>

theorem expire_timers_fires_expired:
  assumes "timers_hold st es" "\<And>ev s. list_all (op_sound (rb_sentinel (tm_tree st))) (prog ev s)"
  shows "\<exists>fired st' es'. ngx_event_expire_timers (\<lambda>ev s. timer_ops (prog ev s) s) st = Some (fired, st')
    \<and> timers_hold st' es' \<and> expired (ngx_current_msec st') es' = []
    \<and> subseq fired (map fst (expired (ngx_current_msec st) es)) \<and> distinct fired
    \<and> ((\<forall>ev s. prog ev s = []) \<longrightarrow> fired = map fst (expired (ngx_current_msec st) es))"
proof -
  obtain fired st' es' where r: "ngx_event_expire_timers (\<lambda>ev s. timer_ops (prog ev s) s) st = Some (fired, st')" "timers_hold st' es'"
    "expired (ngx_current_msec st) es' = []" "subseq fired (map fst (expired (ngx_current_msec st) es))" "ngx_current_msec st' = ngx_current_msec st"
    "(\<forall>ev s. prog ev s = []) \<longrightarrow> fired = map fst (expired (ngx_current_msec st) es)"
    using expire_ok [where prog = prog, OF assms(1,2) refl] by blast
  have "distinct (map fst (expired (ngx_current_msec st) es))"
    using holds_distinct assms(1) unfolding timers_hold_def expired_def by (blast intro: distinct_map_filter)
  then have "distinct fired" using r(4) subseq_imp_distinct by blast
  then show ?thesis using r by auto
qed

lemma rearm_new: "\<not> timer_set st ev \<Longrightarrow> rearm ev key st es = add_entry timer_less ev key (del_entry ev es)"
  by (simp add: rearm_def)

lemma two_timers:
  "\<exists>st :: timers. timers_hold st [(6, 50), (5, 100)] \<and> ngx_current_msec st = 70 \<and> rb_sentinel (tm_tree st) = 9"
proof -
  define st0 where "st0 = snd (ngx_event_timer_init 9 \<lparr>tm_tree = \<lparr>rb_root = 0, rb_sentinel = 0, n_key = \<lambda>_. 0, n_left = \<lambda>_. 0, n_right = \<lambda>_. 0,
    n_parent = \<lambda>_. 0, n_red = \<lambda>_. True\<rparr>, ngx_current_msec = 0, timer_set = \<lambda>_. False, timedout = \<lambda>_. False\<rparr>)"
  have s0: "timers_hold st0 []" "ngx_current_msec st0 = 0" "rb_sentinel (tm_tree st0) = 9" "\<not> timer_set st0 5"
    unfolding st0_def by (rule timers_init) (simp_all add: ngx_event_timer_init_def ngx_rbtree_init_def)
  obtain st1 where s1: "timers_hold st1 (rearm 5 100 st0 [])" "ngx_current_msec st1 = 0" "rb_sentinel (tm_tree st1) = 9"
    using timers_hold_add [OF s0(1), of 100 5] future_key(1) [of 100 0] s0 by auto
  have h1: "timers_hold st1 [(5, 100)]" using s1(1) s0(4) by (simp add: rearm_new add_entry_def del_entry_def)
  then have n: "\<not> timer_set st1 6" by (simp add: timers_hold_def)
  obtain st2 where s2: "timers_hold st2 (rearm 6 50 st1 [(5, 100)])" "ngx_current_msec st2 = 0" "rb_sentinel (tm_tree st2) = 9"
    using timers_hold_add [OF h1, of 50 6] future_key(1) [of 50 0] s1 by auto
  have less: "timer_less 50 100" by (simp add: timer_less_def word_sless_alt)
  have h2: "timers_hold st2 [(6, 50), (5, 100)]" using s2(1) n less by (simp add: rearm_new add_entry_def del_entry_def)
  have w: "50 \<in> timer_window 70" "100 \<in> timer_window 70" by (simp_all add: timer_window_def)
  have "timers_hold (st2\<lparr>ngx_current_msec := 70\<rparr>) [(6, 50), (5, 100)]" using h2 w by (simp add: timers_hold_def in_order_def)
  then show ?thesis using s2(3) by (intro exI [of _ "st2\<lparr>ngx_current_msec := 70\<rparr>"]) simp
qed

theorem expire_timers_fires_expired_witness:
  "\<exists>st fired st' es'. timers_hold st [(6, 50), (5, 100)] \<and> ngx_current_msec st = 70
    \<and> ngx_event_expire_timers (\<lambda>ev s. timer_ops [Arm 6 60000, Cancel 5] s) st = Some (fired, st') \<and> timers_hold st' es'
    \<and> expired (ngx_current_msec st') es' = [] \<and> subseq fired [6]"
proof -
  obtain st where st: "timers_hold st [(6, 50), (5, 100)]" "ngx_current_msec st = 70" "rb_sentinel (tm_tree st) = 9" using two_timers by blast
  have "expired 70 [(6, 50), (5, 100)] = [(6, 50)]" by (simp add: expired_def sle_zero)
  moreover have "list_all (op_sound (rb_sentinel (tm_tree st))) [Arm 6 60000, Cancel 5]" using st(3) by simp
  ultimately show ?thesis
    using expire_timers_fires_expired [OF st(1), where prog = "\<lambda>ev s. [Arm 6 60000, Cancel 5]"] st by fastforce
qed



text \<open>The steps of a worker: it arms and cancels timers, lets the expired ones fire, and the clock is set.\<close>

inductive timer_step :: "timers \<Rightarrow> timers \<Rightarrow> bool" where
  arm: "op_sound (rb_sentinel (tm_tree st)) (Arm ev t) \<Longrightarrow> ngx_event_add_timer ev t st = Some st' \<Longrightarrow> timer_step st st'"
| cancel: "timer_set st ev \<Longrightarrow> ngx_event_del_timer ev st = Some st' \<Longrightarrow> timer_step st st'"
| expire: "(\<And>ev s. list_all (op_sound (rb_sentinel (tm_tree st))) (prog ev s)) \<Longrightarrow>
    ngx_event_expire_timers (\<lambda>ev s. timer_ops (prog ev s) s) st = Some (fired, st') \<Longrightarrow> timer_step st st'"
| tick: "(\<And>ev. timer_set st ev \<Longrightarrow> n_key (tm_tree st) ev \<in> timer_window now) \<Longrightarrow> timer_step st (st\<lparr>ngx_current_msec := now\<rparr>)"

lemma timer_step_holds:
  assumes "timer_step st st'" "timers_hold st es"
  shows "\<exists>es'. timers_hold st' es'"
  using assms
proof (induction rule: timer_step.induct)
  case (arm st ev t st')
  then show ?case using timers_hold_add [OF arm.prems, of t ev] future_key(1) [of t "ngx_current_msec st"] by auto
next
  case (cancel st ev st')
  then show ?case using timers_hold_del [OF cancel.prems, of ev] by auto
next
  case (expire st prog fired st')
  then show ?case using expire_ok [where prog = prog, OF expire.prems expire.hyps(1) refl] by auto
next
  case (tick st now)
  have "snd e \<in> timer_window now" if "e \<in> set es" for e
  proof -
    have "n_key (tm_tree st) (fst e) = snd e" using tick.prems that by (auto simp: timers_hold_def holds_def entries_of_def)
    moreover have "timer_set st (fst e)" using tick.prems that by (auto simp: timers_hold_def)
    ultimately show ?thesis using tick.hyps by metis
  qed
  then show ?case using tick.prems by (auto simp: timers_hold_def in_order_def)
qed

text \<open>
  C5. After any interleaving of arming, cancelling, expiring and setting the clock, by events and handlers that arm timers
  for the future, the timers are a red-black tree in the order of their times that holds exactly the events with
  \<^verbatim>\<open>timer_set\<close>, and every operation returns: a timer can be armed, one that is set can be cancelled, and
  the expiration ends.
\<close>

theorem timers_never_stuck:
  assumes "timer_step\<^sup>*\<^sup>* st0 st" "timers_hold st0 es0"
  shows "\<exists>es T. rep (tm_tree st) T \<and> rb_wf T \<and> entries_of (tm_tree st) T = es \<and> in_order timer_less (timer_window (ngx_current_msec st)) es
    \<and> (\<forall>ev. timer_set st ev \<longleftrightarrow> ev \<in> set (nodes T))
    \<and> (\<forall>ev t. op_sound (rb_sentinel (tm_tree st)) (Arm ev t) \<longrightarrow> ngx_event_add_timer ev t st \<noteq> None)
    \<and> (\<forall>ev. timer_set st ev \<longrightarrow> ngx_event_del_timer ev st \<noteq> None)
    \<and> (\<forall>prog. (\<forall>ev s. list_all (op_sound (rb_sentinel (tm_tree st))) (prog ev s)) \<longrightarrow> ngx_event_expire_timers (\<lambda>ev s. timer_ops (prog ev s) s) st \<noteq> None)"
proof -
  obtain es where es: "timers_hold st es" using assms by (induction rule: rtranclp_induct) (blast dest: timer_step_holds)+
  have "ngx_event_add_timer ev t st \<noteq> None" if "op_sound (rb_sentinel (tm_tree st)) (Arm ev t)" for ev t
    using timers_hold_add [OF es, of t ev] future_key(1) [of t "ngx_current_msec st"] that by auto
  moreover have "ngx_event_del_timer ev st \<noteq> None" if "timer_set st ev" for ev using timers_hold_del [OF es that] by auto
  moreover have "ngx_event_expire_timers (\<lambda>ev s. timer_ops (prog ev s) s) st \<noteq> None" if "\<forall>ev s. list_all (op_sound (rb_sentinel (tm_tree st))) (prog ev s)" for prog
    using expire_ok [where prog = prog, OF es _ refl] that by auto
  moreover obtain T where T: "rep (tm_tree st) T" "rb_wf T" "entries_of (tm_tree st) T = es" using es by (auto simp: timers_hold_def holds_def)
  moreover have "timer_set st ev \<longleftrightarrow> ev \<in> set (nodes T)" for ev
    using es unfolding timers_hold_def T(3) [symmetric] entries_of_def by force
  moreover have "in_order timer_less (timer_window (ngx_current_msec st)) es" using es by (simp add: timers_hold_def)
  ultimately show ?thesis by blast
qed

theorem timers_never_stuck_witness:
  "\<exists>(st :: timers) T. ngx_current_msec st = 71 \<and> rep (tm_tree st) T \<and> rb_wf T \<and> (\<forall>ev. timer_set st ev \<longleftrightarrow> ev \<in> set (nodes T))"
proof -
  obtain st where st: "timers_hold st [(6, 50), (5, 100)]" using two_timers by blast
  have "50 \<in> timer_window 71" "100 \<in> timer_window 71" by (simp_all add: timer_window_def)
  moreover have "n_key (tm_tree st) 6 = 50" "n_key (tm_tree st) 5 = 100" using st by (auto simp: timers_hold_def holds_def entries_of_def)
  ultimately have "timer_step st (st\<lparr>ngx_current_msec := 71\<rparr>)" using st by (intro timer_step.tick) (auto simp: timers_hold_def)
  from timers_never_stuck [OF r_into_rtranclp [of timer_step, OF this] st] obtain T where
    "rep (tm_tree (st\<lparr>ngx_current_msec := 71\<rparr>)) T" "rb_wf T" "\<forall>ev. timer_set (st\<lparr>ngx_current_msec := 71\<rparr>) ev \<longleftrightarrow> ev \<in> set (nodes T)" by blast
  then show ?thesis by (intro exI [of _ "st\<lparr>ngx_current_msec := 71\<rparr>"] exI [of _ T]) simp
qed

end
