(* ===== verification/Spec2Isabelle.thy ===== *)
theory Spec2Isabelle
  imports Ngx_Parse Ngx_Format Ngx_Strings Ngx_Sort Ngx_Hashing Ngx_Http_Request_Line Ngx_Http_Header Ngx_Http_Uri
    Ngx_Encode Ngx_Escape Ngx_Http_Time Ngx_Upstream Ngx_Locations
    Ngx_Range_Body Ngx_Radix Ngx_Timer
begin

text \<open>
  A verification library for nginx 1.0.15, the HTTP server under \<^verbatim>\<open>src/nginx-1.0.15/src\<close>. All file names below
  are relative to that directory.

  \<^bold>\<open>The program.\<close> A worker process reads the bytes of a request from a connection; the parser
  (\<^verbatim>\<open>http/ngx_http_parse.c\<close>) turns them into the request line, the header lines and a normalised URI; the
  location of the URI is searched in trees that were built from the configuration (\<^verbatim>\<open>http/ngx_http.c\<close>,
  \<^verbatim>\<open>http/ngx_http_core_module.c\<close>); a handler produces the response or passes the request on to one of
  several upstream servers (\<^verbatim>\<open>http/ngx_http_upstream_round_robin.c\<close>, \<^verbatim>\<open>http/modules/ngx_http_upstream_ip_hash_module.c\<close>);
  filters such as the range filter (\<^verbatim>\<open>http/modules/ngx_http_range_filter_module.c\<close>) change the
  header and the body on their way out. All of it rests on the strings, numbers, queues, hashes, times and
  encodings of \<^verbatim>\<open>core/\<close>.

  \<^bold>\<open>Conventions.\<close> A machine integer is a word of its width, and arithmetic wraps where the code's does;
  an \<^verbatim>\<open>ngx_str_t\<close> is the list of its bytes; a pointer is an offset, or the list of the bytes from it on; a struct
  is a record with the fields that the code uses; a result \<open>None\<close> is a read or write outside the object, or another step
  that the C language does not define, so that a theorem that a function returns \<open>Some\<close> is a safety theorem.
  Allocations succeed, except where a theory says otherwise; log output is left out.

  \<^bold>\<open>The theories and the code they model.\<close>

    \<^item> \<open>Ngx_Prelude\<close>: the types of the platform, return codes, characters, and the lemmas on words,
      bytes and lists that all the others share. \<open>Ngx_Signed\<close>: signed 64-bit arithmetic.
    \<^item> \<open>Ngx_Number\<close>, \<open>Ngx_Parse\<close> (\<^verbatim>\<open>core/ngx_string.c\<close>, \<^verbatim>\<open>core/ngx_parse.c\<close>): the readers of numerals,
      sizes, offsets and times. The readers return the value of the numeral, with the exact behaviour at overflow.
    \<^item> \<open>Ngx_Format\<close> (\<^verbatim>\<open>ngx_vslprintf\<close> and its entry points): the formatter stays inside its buffer, truncation
      is a prefix, and what it prints is read back. The conversion \<^verbatim>\<open>%f\<close> is not modelled.
    \<^item> \<open>Ngx_Strings\<close>, \<open>Ngx_Sort\<close>, \<open>Ngx_Hashing\<close> (\<^verbatim>\<open>core/ngx_string.c\<close>, \<^verbatim>\<open>core/ngx_crc32.c\<close>,
      \<^verbatim>\<open>core/ngx_murmurhash.c\<close>, \<^verbatim>\<open>core/ngx_hash.c\<close>): copying, comparing and searching, the insertion sort for
      any comparator (locale \<open>comparator\<close>), checksums by table against the division of polynomials, hash keys.
    \<^item> \<open>Ngx_Encode\<close>, \<open>Ngx_Escape\<close>: hexadecimal and base64, escaping and unescaping, in place on one
      memory; the round trips.
    \<^item> \<open>Ngx_Time\<close>, \<open>Ngx_Http_Time\<close> (\<^verbatim>\<open>core/ngx_times.c\<close>, \<^verbatim>\<open>http/ngx_http_parse_time.c\<close>): the civil date of a
      number of seconds, against a calendar that counts days, up to \<open>2 ^ 55\<close> seconds (where the 64-bit products
      begin to wrap); HTTP dates read back up to the year 9999, which the four digits of the format impose.
    \<^item> \<open>Ngx_Http_Scan\<close>, \<open>Ngx_Http_Request_Line\<close>, \<open>Ngx_Http_Header\<close>, \<open>Ngx_Http_Uri\<close>
      (\<^verbatim>\<open>http/ngx_http_parse.c\<close>): the state machines of the parser, one definition for a state. A parse in pieces refines
      the parse at once (locale \<open>stored_parser\<close>, interpreted on both parsers), well-formed lines are read back, stored pointers lie
      in the buffer, a URI that is not flagged has no dot segments, and the slow path removes them.
    \<^item> \<open>Ngx_Round_Robin\<close>, \<open>Ngx_Upstream\<close>: the choice of an upstream server and the accounting of
      failures. A worker's requests interleave arbitrarily (a step relation over the shared peers); no
      interleaving leaves an array, for both methods of choice (locale \<open>peer_method\<close>). The
      recursion of the choice over the sets of peers has the number of sets as fuel, since it moves to the backup
      set at most once; \<^verbatim>\<open>ip_hash\<close> gives up after 20 rounds as the code does.
    \<^item> \<open>Ngx_Queue\<close> (\<^verbatim>\<open>core/ngx_queue.h\<close>, \<^verbatim>\<open>core/ngx_queue.c\<close>): the doubly linked queue on a heap of links
      refines lists; its sort is the sort of \<open>Ngx_Sort\<close>.
    \<^item> \<open>Ngx_Radix\<close> (\<^verbatim>\<open>core/ngx_radix_tree.c\<close>): the radix tree of networks on a memory of nodes. It refines a table
      from prefixes to values (locale \<open>routing_table\<close>), with the pages of the pool and the list of free nodes; an
      allocation may fail. The deletion of the network of all addresses is the one call that the code does not survive.
    \<^item> \<open>Ngx_Rbtree\<close>, \<open>Ngx_Rbtree_Delete\<close>, \<open>Ngx_Rbtree_Store\<close> (\<^verbatim>\<open>core/ngx_rbtree.c\<close>): the red-black tree on a memory of
      nodes with parent pointers and a shared sentinel. The theories follow the tree with a focus and its context;
      both sides of the code are one statement for a direction. Insertion and deletion keep the colours and refine a sorted
      list, for any comparison that orders the keys in use (locale \<open>key_order\<close>, interpreted for both functions of the code).
    \<^item> \<open>Ngx_Timer\<close> (\<^verbatim>\<open>event/ngx_event_timer.c\<close>): the timers of the events on that tree. The handlers are arguments that may arm and
      cancel timers. The times are within \<open>2 ^ 62\<close> milliseconds of the clock, so that the signed differences do
      not wrap; a handler arms timers for the future, since one that arms an expired timer makes the loop endless.
    \<^item> \<open>Ngx_Locations\<close>: from the queue of configured locations to the search tree, and the search. The
      tree of every configuration without duplicates finds the exact location or the longest prefix. Names
      have at most 255 bytes: the code keeps their length in one byte, and the theory shows what happens beyond.
      \<^verbatim>\<open>ngx_http_core_find_location\<close> has the depth of the nesting as fuel; without nested locations two levels
      are enough, which is part of the theorem.
    \<^item> \<open>Ngx_Ranges\<close>, \<open>Ngx_Range_Body\<close>: the range filter. The ranges that are accepted lie in the response, what
      the body filter passes on has the announced length and is the selected part of the response however it is
      cut into buffers. The bounds (numbers of at most 12 digits, responses below 10^12 bytes) keep all the sums below
      \<open>2 ^ 63\<close>; without them the checks fail, which is a theorem too.

  \<^bold>\<open>Not modelled.\<close> The event loop and the connections (\<^verbatim>\<open>event/\<close>), processes, signals and the
  operating system (\<^verbatim>\<open>os/\<close>, \<^verbatim>\<open>core/ngx_cycle.c\<close>) are mostly calls of the kernel; the regular expressions, SSL
  and compression call libraries, and the search for a location takes the regular expression match as an argument.
  The memory pools, shared memory, hash tables, the configuration reader, addresses,
  the resolver, the upstream protocol and the other modules and filters are not modelled yet; the
  next in the plan are addresses (\<^verbatim>\<open>core/ngx_inet.c\<close>), the status line of
  upstream responses and the limits on requests.
\<close>

end
